(* ===== verification/Limine_Prelude.thy ===== *)
theory Limine_Prelude
  imports Main "HOL-Library.Word" "HOL-Library.Multiset"
begin

unbundle bit_operations_syntax

text \<open>
  The shared part of the development: the machine integers of the C code as words, the
  result type of code that may call \<^verbatim>\<open>panic()\<close>, the checked and aligning
  arithmetic macros of \<^verbatim>\<open>common/lib/misc.h\<close>, and the generic facts on words and on
  lists used as counted arrays which the component theories rest on.
\<close>

section \<open>Machine integers and results\<close>

type_synonym u8 = "8 word"
type_synonym u16 = "16 word"
type_synonym u32 = "32 word"
type_synonym u64 = "64 word"

text \<open>
  The targets, as far as the sources distinguish them. \<^verbatim>\<open>size_t\<close> and
  \<^verbatim>\<open>uintptr_t\<close> have 32 bits on i386 and 64 bits on the others; a conversion to
  them is reduction to that width.
\<close>

datatype arch = X86_64 | I386 | Other_Arch

definition size_t_bits :: "arch \<Rightarrow> nat" where
  "size_t_bits arch = (if arch = I386 then 32 else 64)"

definition size_t_of :: "arch \<Rightarrow> u64 \<Rightarrow> u64" where
  "size_t_of arch x = (if arch = I386 then x mod 0x100000000 else x)"

text \<open>
  \<^verbatim>\<open>panic()\<close> does not return: a call of it is the left injection of the sum,
  carrying the format string of the message.
\<close>

datatype err = Panic string

type_synonym 'a res = "err + 'a"

definition res_bind :: "'a res \<Rightarrow> ('a \<Rightarrow> 'b res) \<Rightarrow> 'b res" where
  "res_bind r f = (case r of Inl e \<Rightarrow> Inl e | Inr x \<Rightarrow> f x)"

named_theorems word_nat \<open>unsigned words read as natural numbers\<close>
named_theorems checked_simps \<open>results of the checked arithmetic macros\<close>
named_theorems model_eval \<open>defining equations, to evaluate the model on concrete inputs\<close>

declare word_le_nat_alt [word_nat] word_less_nat_alt [word_nat]

lemma res_bind_simps [simp]:
  "res_bind (Inl e) f = Inl e"
  "res_bind (Inr x) f = f x"
  by (simp_all add: res_bind_def)

lemma res_bind_eq_Inr [simp]:
  "res_bind r f = Inr y \<longleftrightarrow> (\<exists>x. r = Inr x \<and> f x = Inr y)"
  by (cases r) auto

section \<open>The arithmetic macros of misc.h\<close>

definition C_MIN :: "'a::linorder \<Rightarrow> 'a \<Rightarrow> 'a" where
  "C_MIN a b = (if a > b then b else a)"

definition C_MAX :: "'a::linorder \<Rightarrow> 'a \<Rightarrow> 'a" where
  "C_MAX a b = (if a > b then a else b)"

text \<open>
  The overflow branch of a checked macro is a statement of the caller's, so the macro
  returns \<^term>\<open>None\<close> and each caller writes out what it does then.
\<close>

definition CHECKED_ADD :: "'a::len word \<Rightarrow> 'a word \<Rightarrow> 'a word option" where
  "CHECKED_ADD a b = (if unat a + unat b < 2 ^ LENGTH('a) then Some (a + b) else None)"

definition CHECKED_MUL :: "'a::len word \<Rightarrow> 'a word \<Rightarrow> 'a word option" where
  "CHECKED_MUL a b = (if unat a * unat b < 2 ^ LENGTH('a) then Some (a * b) else None)"

definition DIV_ROUNDUP :: "'a::len word \<Rightarrow> 'a word \<Rightarrow> 'a word option" where
  "DIV_ROUNDUP a b = map_option (\<lambda>s. s div b) (CHECKED_ADD a (b - 1))"

definition ALIGN_UP :: "'a::len word \<Rightarrow> 'a word \<Rightarrow> 'a word option" where
  "ALIGN_UP x a = map_option (\<lambda>q. q * a) (DIV_ROUNDUP x a)"

definition ALIGN_DOWN :: "'a::len word \<Rightarrow> 'a word \<Rightarrow> 'a word" where
  "ALIGN_DOWN x a = (x div a) * a"

section \<open>Words read as natural numbers\<close>

lemma C_MIN_min [simp]: "C_MIN a b = min a b"
  by (auto simp: C_MIN_def min_def)

lemma C_MAX_max [simp]: "C_MAX a b = max a b"
  by (auto simp: C_MAX_def max_def)

lemma unat_bound: "unat (a::'a::len word) < 2 ^ LENGTH('a)"
  by (rule unsigned_less)

lemma unat_add_exact [word_nat]:
  "unat (a::'a::len word) + unat b < 2 ^ LENGTH('a) \<Longrightarrow> unat (a + b) = unat a + unat b"
  by (simp add: unat_word_ariths)

lemma unat_mult_exact:
  "unat (a::'a::len word) * unat b < 2 ^ LENGTH('a) \<Longrightarrow> unat (a * b) = unat a * unat b"
  by (simp add: unat_word_ariths)

lemma unat_sub_exact [word_nat]:
  "unat (b::'a::len word) \<le> unat a \<Longrightarrow> unat (a - b) = unat a - unat b"
  by (simp add: unat_sub_if')

lemma unat_u64_bound: "unat (a::u64) < 18446744073709551616"
  using unat_bound [of a] by simp

lemma CHECKED_ADD_Some [checked_simps]:
  "CHECKED_ADD a b = Some c \<longleftrightarrow>
     unat a + unat b < 2 ^ LENGTH('a) \<and> (c::'a::len word) = a + b"
  by (auto simp: CHECKED_ADD_def)

lemma CHECKED_ADD_None [checked_simps]:
  "CHECKED_ADD (a::'a::len word) b = None \<longleftrightarrow> 2 ^ LENGTH('a) \<le> unat a + unat b"
  by (auto simp: CHECKED_ADD_def)

lemma CHECKED_ADD_unat:
  "CHECKED_ADD a b = Some c \<Longrightarrow> unat c = unat a + unat b"
  by (auto simp: CHECKED_ADD_def unat_add_exact split: if_splits)

lemma CHECKED_MUL_Some [checked_simps]:
  "CHECKED_MUL a b = Some c \<longleftrightarrow>
     unat a * unat b < 2 ^ LENGTH('a) \<and> (c::'a::len word) = a * b"
  by (auto simp: CHECKED_MUL_def)

lemma CHECKED_MUL_unat:
  "CHECKED_MUL a b = Some c \<Longrightarrow> unat c = unat a * unat b"
  by (auto simp: CHECKED_MUL_def unat_mult_exact split: if_splits)

lemma unat_ALIGN_DOWN: "unat (ALIGN_DOWN x a) = unat x div unat a * unat a"
proof -
  have "unat (x div a) * unat a \<le> unat x"
    by (simp add: unat_div_distrib)
  then have "unat (x div a) * unat a < 2 ^ LENGTH('a)"
    using unat_bound [of x] by (rule le_less_trans)
  then show ?thesis
    by (simp add: ALIGN_DOWN_def unat_mult_exact unat_div_distrib)
qed

lemma ALIGN_DOWN_le: "unat (ALIGN_DOWN x a) \<le> unat x"
  by (simp add: unat_ALIGN_DOWN)

lemma ALIGN_DOWN_dvd: "unat a dvd unat (ALIGN_DOWN x a)"
  by (simp add: unat_ALIGN_DOWN)

lemma ALIGN_DOWN_gt: "a \<noteq> 0 \<Longrightarrow> unat x < unat (ALIGN_DOWN x a) + unat a"
proof -
  assume "a \<noteq> 0"
  then have "0 < unat a" by (simp add: unat_gt_0)
  then have "unat x mod unat a < unat a" by simp
  moreover have "unat x = unat x div unat a * unat a + unat x mod unat a"
    by (simp add: div_mult_mod_eq)
  ultimately show ?thesis by (simp only: unat_ALIGN_DOWN)
qed

lemma ALIGN_UP_unat:
  assumes "ALIGN_UP x a = Some y" and "a \<noteq> 0"
  shows "unat y = (unat x + (unat a - 1)) div unat a * unat a"
proof -
  have a1: "unat (a - 1) = unat a - 1"
    using assms(2) by (simp add: unat_minus_one)
  from assms(1) obtain s where s: "CHECKED_ADD x (a - 1) = Some s" and y: "y = ALIGN_DOWN s a"
    by (auto simp: ALIGN_UP_def DIV_ROUNDUP_def ALIGN_DOWN_def)
  have "unat s = unat x + (unat a - 1)"
    using CHECKED_ADD_unat [OF s] a1 by simp
  then show ?thesis by (simp add: y unat_ALIGN_DOWN)
qed

text \<open>
  What callers rely on: the aligned value is the least multiple that is not below the
  argument.
\<close>

lemma ALIGN_UP_Some:
  assumes "ALIGN_UP x a = Some y" and "a \<noteq> 0"
  shows "unat x \<le> unat y" and "unat y < unat x + unat a" and "unat a dvd unat y"
proof -
  have a0: "0 < unat a" using assms(2) by (simp add: unat_gt_0)
  note y = ALIGN_UP_unat [OF assms]
  let ?n = "unat x + (unat a - 1)"
  have split: "?n = ?n div unat a * unat a + ?n mod unat a"
    by (simp add: div_mult_mod_eq)
  have "?n mod unat a < unat a" using a0 by simp
  then show "unat x \<le> unat y" using split y by linarith
  show "unat y < unat x + unat a" using split y a0 by linarith
  show "unat a dvd unat y" by (simp add: y)
qed

lemma ALIGN_UP_aligned:
  assumes "unat a dvd unat x" and "a \<noteq> 0" and "unat x + (unat a - 1) < 2 ^ LENGTH('a)"
  shows "ALIGN_UP (x::'a::len word) a = Some x"
proof -
  have a0: "0 < unat a" using assms(2) by (simp add: unat_gt_0)
  have a1: "unat (a - 1) = unat a - 1"
    using assms(2) by (simp add: unat_minus_one)
  then obtain y where y: "ALIGN_UP x a = Some y"
    using assms(3) by (auto simp: ALIGN_UP_def DIV_ROUNDUP_def CHECKED_ADD_def)
  from assms(1) obtain k where k: "unat x = unat a * k" ..
  have "unat y = (unat a * k + (unat a - 1)) div unat a * unat a"
    using ALIGN_UP_unat [OF y assms(2)] k by simp
  also have "(unat a * k + (unat a - 1)) div unat a = k"
    using a0 by (intro div_nat_eqI) auto
  finally have "unat y = unat x" using k by (simp add: mult.commute)
  with y show ?thesis by (simp add: word_unat_eq_iff)
qed

lemma unat_size_t_of: "unat (size_t_of arch x) = unat x mod 2 ^ size_t_bits arch"
  using unat_bound [of x] by (simp add: size_t_of_def size_t_bits_def unat_mod)

lemma size_t_of_small: "unat x < 2 ^ size_t_bits arch \<Longrightarrow> size_t_of arch x = x"
  by (rule word_unat_eq_iff [THEN iffD2]) (simp add: unat_size_t_of)

section \<open>Counted arrays as lists\<close>

text \<open>
  An array together with its element count is the list of the counted elements; slots past
  the count are written before they are read again, so they carry no information. Removing
  element \<open>i\<close> the way the code does it moves the last element into its place.
\<close>

definition swap_remove :: "nat \<Rightarrow> 'a list \<Rightarrow> 'a list" where
  "swap_remove i xs = (if i < length xs - 1 then (butlast xs)[i := last xs] else butlast xs)"

text \<open>The elements other than the one at an index.\<close>

definition others :: "nat \<Rightarrow> 'a list \<Rightarrow> 'a set" where
  "others i xs = (!) xs ` ({..<length xs} - {i})"

lemma length_swap_remove [simp]: "length (swap_remove i xs) = length xs - 1"
  by (simp add: swap_remove_def)

lemma mset_swap_remove:
  assumes "i < length xs"
  shows "add_mset (xs ! i) (mset (swap_remove i xs)) = mset xs"
proof -
  from assms have ne: "xs \<noteq> []" by auto
  then have xs: "xs = butlast xs @ [last xs]" by simp
  show ?thesis
  proof (cases "i < length xs - 1")
    case True
    then have i: "i < length (butlast xs)" by simp
    have nth: "butlast xs ! i = xs ! i" using True by (simp add: nth_butlast)
    have upd: "mset ((butlast xs)[i := last xs]) =
        add_mset (last xs) (mset (butlast xs) - {#xs ! i#})"
      using i nth by (simp add: mset_update)
    have mem: "xs ! i \<in># mset (butlast xs)"
      using i nth by (metis nth_mem set_mset_mset)
    have "mset xs = add_mset (last xs) (mset (butlast xs))"
      by (subst xs) simp
    also have "\<dots> = add_mset (xs ! i) (add_mset (last xs) (mset (butlast xs) - {#xs ! i#}))"
      using mem by (simp add: add_mset_commute)
    finally show ?thesis using True upd by (simp add: swap_remove_def)
  next
    case False
    with assms have "i = length xs - 1" by simp
    then have "xs ! i = last xs" using ne by (simp add: last_conv_nth)
    moreover have "mset xs = add_mset (last xs) (mset (butlast xs))"
      by (subst xs) simp
    ultimately show ?thesis using False by (simp add: swap_remove_def)
  qed
qed

lemma nth_in_others: "j < length xs \<Longrightarrow> j \<noteq> i \<Longrightarrow> xs ! j \<in> others i xs"
  by (simp add: others_def)

lemma othersE:
  assumes "x \<in> others i xs"
  obtains k where "k < length xs" and "k \<noteq> i" and "x = xs ! k"
  using assms by (auto simp: others_def)

lemma others_update [simp]: "others i (xs[i := y]) = others i xs"
  by (auto simp: others_def intro!: image_cong)

lemma set_split_others:
  assumes "i < length xs"
  shows "set xs = insert (xs ! i) (others i xs)"
proof -
  have "set xs = (!) xs ` {..<length xs}"
    by (auto simp: in_set_conv_nth)
  also have "{..<length xs} = insert i ({..<length xs} - {i})"
    using assms by auto
  finally show ?thesis unfolding others_def image_insert .
qed

lemma set_update_others:
  "i < length xs \<Longrightarrow> set (xs[i := y]) = insert y (others i xs)"
  using set_split_others [of i "xs[i := y]"] by simp

lemma swap_remove_nth:
  assumes "i < length xs" and "k < length xs - 1"
  shows "swap_remove i xs ! k = (if k = i then xs ! (length xs - 1) else xs ! k)"
proof -
  have "xs \<noteq> []" using assms by auto
  then have "last xs = xs ! (length xs - 1)" by (rule last_conv_nth)
  then show ?thesis
    using assms by (auto simp: swap_remove_def nth_butlast nth_list_update)
qed

lemma set_swap_remove:
  assumes i: "i < length xs"
  shows "set (swap_remove i xs) = others i xs"
proof (intro equalityI subsetI)
  fix x assume "x \<in> set (swap_remove i xs)"
  then obtain k where k: "k < length xs - 1" "x = swap_remove i xs ! k"
    by (auto simp: in_set_conv_nth)
  have "x = xs ! (if k = i then length xs - 1 else k)"
    using k i by (simp add: swap_remove_nth)
  then show "x \<in> others i xs"
    using k i by (auto intro!: nth_in_others)
next
  fix x assume "x \<in> others i xs"
  then obtain k where k: "k < length xs" "k \<noteq> i" "x = xs ! k" by (rule othersE)
  let ?k = "if k = length xs - 1 then i else k"
  have "?k < length xs - 1" using k i by auto
  moreover from this have "x = swap_remove i xs ! ?k"
    using k i by (auto simp: swap_remove_nth)
  ultimately show "x \<in> set (swap_remove i xs)"
    by (metis length_swap_remove nth_mem)
qed

lemma sum_list_update_nat:
  fixes f :: "'a \<Rightarrow> nat"
  assumes "i < length xs"
  shows "sum_list (map f (xs[i := x])) + f (xs ! i) = sum_list (map f xs) + f x"
  using assms
proof (induction xs arbitrary: i)
  case (Cons a xs)
  show ?case
  proof (cases i)
    case (Suc n)
    with Cons.prems have "n < length xs" by simp
    from Cons.IH [OF this] Suc show ?thesis by simp
  qed simp
qed simp

lemma unat_min_max [simp]:
  "unat (min a b) = min (unat a) (unat b)"
  "unat (max a b) = max (unat a) (unat b)"
  by (simp_all add: min_def max_def word_nat)

lemmas macro_eval [model_eval] =
  C_MIN_def C_MAX_def CHECKED_ADD_def CHECKED_MUL_def DIV_ROUNDUP_def ALIGN_UP_def ALIGN_DOWN_def
  swap_remove_def

end
