(* ===== verification/Pmm_Sanitise.thy ===== *)
theory Pmm_Sanitise
  imports Limine_Prelude
begin

text \<open>
  The memory map of \<^verbatim>\<open>common/mm/pmm.s2.c\<close> and its sanitiser
  \<^verbatim>\<open>pmm_sanitise_entries\<close>: usable entries are cut against every other entry, empty
  entries are dropped, the rest is sorted by base and contiguous entries of the same
  mergeable type are joined. The theory models the four loops as they are written and shows
  that together they compute the abstract operation on address sets: a byte is usable
  afterwards exactly if a usable entry and no other kind of entry covered it before.
\<close>

section \<open>Entries\<close>

record memmap_entry =
  me_base :: u64
  me_length :: u64
  me_type :: u32

type_synonym memmap = "memmap_entry list"

definition MEMMAP_USABLE :: u32 where "MEMMAP_USABLE = 1"
definition MEMMAP_RESERVED :: u32 where "MEMMAP_RESERVED = 2"
definition MEMMAP_ACPI_RECLAIMABLE :: u32 where "MEMMAP_ACPI_RECLAIMABLE = 3"
definition MEMMAP_ACPI_NVS :: u32 where "MEMMAP_ACPI_NVS = 4"
definition MEMMAP_BAD_MEMORY :: u32 where "MEMMAP_BAD_MEMORY = 5"
definition MEMMAP_BOOTLOADER_RECLAIMABLE :: u32 where "MEMMAP_BOOTLOADER_RECLAIMABLE = 0x1000"
definition MEMMAP_KERNEL_AND_MODULES :: u32 where "MEMMAP_KERNEL_AND_MODULES = 0x1001"
definition MEMMAP_FRAMEBUFFER :: u32 where "MEMMAP_FRAMEBUFFER = 0x1002"
definition MEMMAP_RESERVED_MAPPED :: u32 where "MEMMAP_RESERVED_MAPPED = 0x1003"
definition MEMMAP_EFI_RECLAIMABLE :: u32 where "MEMMAP_EFI_RECLAIMABLE = 0x2000"

definition PAGE_SIZE :: u64 where "PAGE_SIZE = 4096"

lemmas memmap_types =
  MEMMAP_USABLE_def MEMMAP_RESERVED_def MEMMAP_ACPI_RECLAIMABLE_def MEMMAP_ACPI_NVS_def
  MEMMAP_BAD_MEMORY_def MEMMAP_BOOTLOADER_RECLAIMABLE_def MEMMAP_KERNEL_AND_MODULES_def
  MEMMAP_FRAMEBUFFER_def MEMMAP_RESERVED_MAPPED_def MEMMAP_EFI_RECLAIMABLE_def

text \<open>
  \<^verbatim>\<open>align_entry\<close> reports through its result whether a page is left; the caller deletes
  the entry otherwise, so the values written before a \<^verbatim>\<open>return false\<close> are never read.
\<close>

definition align_entry :: "u64 \<Rightarrow> u64 \<Rightarrow> (u64 \<times> u64) option" where
  "align_entry base len =
     (if len < PAGE_SIZE then None
      else case ALIGN_UP base PAGE_SIZE of
        None \<Rightarrow> None
      | Some base' \<Rightarrow>
          let len' = ALIGN_DOWN (len - (base' - base)) PAGE_SIZE
          in if len' = 0 then None else Some (base', len'))"

lemma align_entry_Some:
  assumes "align_entry b l = Some (b', l')"
  shows "unat b \<le> unat b'" and "unat b' + unat l' \<le> unat b + unat l" and "unat l' \<le> unat l"
    and "4096 dvd unat b'" and "4096 dvd unat l'" and "l' \<noteq> 0"
proof -
  have ps: "unat PAGE_SIZE = 4096" "PAGE_SIZE \<noteq> 0" by (simp_all add: PAGE_SIZE_def)
  from assms have l: "4096 \<le> unat l" and up: "ALIGN_UP b PAGE_SIZE = Some b'"
    and l': "l' = ALIGN_DOWN (l - (b' - b)) PAGE_SIZE" and ne: "l' \<noteq> 0"
    using ps by (auto simp: align_entry_def Let_def word_less_nat_alt split: if_splits option.splits)
  note b' = ALIGN_UP_Some [OF up ps(2)]
  have "unat (b' - b) = unat b' - unat b" using b'(1) by (rule unat_sub_exact)
  moreover have "unat b' - unat b \<le> unat l" using b' l ps by linarith
  ultimately have d: "unat (l - (b' - b)) = unat l - (unat b' - unat b)"
    by (simp add: unat_sub_exact)
  have le: "unat l' \<le> unat l - (unat b' - unat b)"
    using ALIGN_DOWN_le [of "l - (b' - b)" PAGE_SIZE] d l' by simp
  show "unat b \<le> unat b'" by (rule b')
  show "unat b' + unat l' \<le> unat b + unat l"
    using le b' l ps by linarith
  show "unat l' \<le> unat l" using le by linarith
  show "4096 dvd unat b'" using b' ps by simp
  show "4096 dvd unat l'" using ALIGN_DOWN_dvd [of PAGE_SIZE "l - (b' - b)"] ps l' by simp
  show "l' \<noteq> 0" by (rule ne)
qed

section \<open>Cutting usable entries\<close>

text \<open>
  One round of the inner loop: the usable entry \<open>i\<close> against the entry \<open>j\<close>. The
  outcomes are the ways the round leaves the loop body: on to the next \<open>j\<close>,
  \<^verbatim>\<open>break\<close>, \<^verbatim>\<open>goto del_mm0\<close>, or a panic when no slot is left for a split.
\<close>

datatype pair_result = PCont memmap | PBreak memmap | PDel | PPanic

definition sanitise_pair :: "nat \<Rightarrow> memmap \<Rightarrow> nat \<Rightarrow> nat \<Rightarrow> pair_result" where
  "sanitise_pair max_entries m i j =
     (if j = i then PCont m
      else
        let base = me_base (m ! i); len = me_length (m ! i) in
        case CHECKED_ADD base len of
          None \<Rightarrow> PDel
        | Some etop \<Rightarrow>
            let res_base = me_base (m ! j); res_length = me_length (m ! j) in
            (case CHECKED_ADD res_base res_length of
               None \<Rightarrow> PCont m
             | Some res_top \<Rightarrow>
                 if res_length = 0 then PCont m
                 else if res_base \<le> base \<and> res_top \<ge> etop then
                   PBreak (m[i := (m ! i)\<lparr>me_base := etop, me_length := 0\<rparr>])
                 else
                   let nested = (res_base \<ge> base \<and> res_base < etop)
                              \<and> (res_top \<ge> base \<and> res_top < etop) in
                   if nested \<and> length m \<ge> max_entries then PPanic
                   else
                     let m' = (if nested
                               then m @ [(m ! i)\<lparr>me_base := res_top, me_length := etop - res_top\<rparr>]
                               else m);
                         top1 = (if nested then res_base else etop);
                         top2 = (if res_base \<ge> base \<and> res_base < top1 then res_base else top1);
                         base2 = (if res_top \<ge> base \<and> res_top < top2 then res_top else base)
                     in PCont (m'[i := (m ! i)\<lparr>me_base := base2, me_length := top2 - base2\<rparr>])))"

subsection \<open>The extent of an entry\<close>

text \<open>
  The addresses of an entry run from \<open>lo\<close> up to but not including \<open>hi\<close>, read as
  natural numbers; \<open>entry_ok\<close> says that the end fits the 64 bits of an address, which
  is when \<^const>\<open>CHECKED_ADD\<close> succeeds on the entry.
\<close>

definition lo :: "memmap_entry \<Rightarrow> nat" where
  "lo e = unat (me_base e)"

definition hi :: "memmap_entry \<Rightarrow> nat" where
  "hi e = unat (me_base e) + unat (me_length e)"

definition entry_ok :: "memmap_entry \<Rightarrow> bool" where
  "entry_ok e \<longleftrightarrow> hi e < 2 ^ 64"

named_theorems extent \<open>extent of an entry in terms of its fields\<close>

declare lo_def [extent] hi_def [extent] entry_ok_def [extent]

lemma lo_le_hi [simp]: "lo e \<le> hi e"
  by (simp add: extent)

lemma unat_me_length: "unat (me_length e) = hi e - lo e"
  by (simp add: extent)

lemma entry_top:
  "CHECKED_ADD (me_base e) (me_length e) = (if entry_ok e then Some (me_base e + me_length e) else None)"
  by (simp add: CHECKED_ADD_def extent)

lemma unat_entry_top: "entry_ok e \<Longrightarrow> unat (me_base e + me_length e) = hi e"
  by (simp add: extent unat_add_exact)

text \<open>A usable entry cut to the range from \<open>b\<close> to \<open>t\<close>.\<close>

definition cut_entry :: "memmap_entry \<Rightarrow> u64 \<Rightarrow> u64 \<Rightarrow> memmap_entry" where
  "cut_entry e b t = e\<lparr>me_base := b, me_length := t - b\<rparr>"

lemma cut_entry_extent:
  assumes "unat b \<le> unat t"
  shows "lo (cut_entry e b t) = unat b" and "hi (cut_entry e b t) = unat t" and "entry_ok (cut_entry e b t)"
    and "me_type (cut_entry e b t) = me_type e"
  using assms unat_bound [of t] by (auto simp: cut_entry_def extent unat_sub_exact)

lemma cut_entry_self: "entry_ok e \<Longrightarrow> cut_entry e (me_base e) (me_base e + me_length e) = e"
  by (simp add: cut_entry_def)

text \<open>The round in terms of extents, once neither end overflows.\<close>

lemma sanitise_pair_eq:
  fixes m :: memmap and i j :: nat
  defines "e \<equiv> m ! i" and "r \<equiv> m ! j"
  assumes "j \<noteq> i" and "entry_ok e" and "entry_ok r" and "me_length r \<noteq> 0"
  shows "sanitise_pair mx m i j =
    (let t = me_base e + me_length e; rt = me_base r + me_length r in
     if lo r \<le> lo e \<and> hi e \<le> hi r then PBreak (m[i := cut_entry e t t])
     else
       let nested = (lo e \<le> lo r \<and> lo r < hi e \<and> lo e \<le> hi r \<and> hi r < hi e) in
       if nested \<and> length m \<ge> mx then PPanic
       else
         let m' = (if nested then m @ [cut_entry e rt t] else m);
             top1 = (if nested then me_base r else t);
             top2 = (if lo e \<le> lo r \<and> lo r < unat top1 then me_base r else top1);
             base2 = (if lo e \<le> hi r \<and> hi r < unat top2 then rt else me_base e)
         in PCont (m'[i := cut_entry e base2 top2]))"
proof -
  have upd: "e\<lparr>me_base := t, me_length := 0\<rparr> = cut_entry e t t" for t
    by (simp add: cut_entry_def)
  have ext: "unat (me_base e + me_length e) = hi e" "unat (me_base r + me_length r) = hi r"
    "unat (me_base e) = lo e" "unat (me_base r) = lo r"
    using assms(4,5) by (simp_all add: unat_entry_top lo_def)
  show ?thesis
    using assms(3-6) unfolding sanitise_pair_def e_def [symmetric] r_def [symmetric]
    by (simp only: entry_top upd Let_def word_le_nat_alt word_less_nat_alt ext if_True if_False
        option.case cut_entry_def [symmetric] simp_thms conj_assoc)
qed

lemma sanitise_pair_cases:
  assumes "j \<noteq> i"
  obtains
    (overflow) "\<not> entry_ok (m ! i)" "sanitise_pair mx m i j = PDel"
  | (skip) "entry_ok (m ! i)"
      "\<not> entry_ok (m ! j) \<or> me_length (m ! j) = 0 \<or> hi (m ! i) \<le> lo (m ! j) \<or> hi (m ! j) \<le> lo (m ! i)"
      "sanitise_pair mx m i j = PCont m"
  | (covered) e where "entry_ok (m ! i)" "entry_ok (m ! j)" "lo (m ! j) \<le> lo (m ! i)"
      "hi (m ! i) \<le> hi (m ! j)" "entry_ok e" "lo e = hi (m ! i)" "hi e = hi (m ! i)"
      "me_type e = me_type (m ! i)" "sanitise_pair mx m i j = PBreak (m[i := e])"
  | (full) "mx \<le> length m" "sanitise_pair mx m i j = PPanic"
  | (split) e f where "entry_ok (m ! i)" "entry_ok (m ! j)" "lo (m ! i) \<le> lo (m ! j)"
      "lo (m ! j) < hi (m ! j)" "hi (m ! j) < hi (m ! i)" "length m < mx"
      "entry_ok e" "lo e = lo (m ! i)" "hi e = lo (m ! j)" "me_type e = me_type (m ! i)"
      "entry_ok f" "lo f = hi (m ! j)" "hi f = hi (m ! i)" "me_type f = me_type (m ! i)"
      "sanitise_pair mx m i j = PCont ((m @ [f])[i := e])"
  | (cut_top) e where "entry_ok (m ! i)" "entry_ok (m ! j)" "lo (m ! i) < lo (m ! j)"
      "lo (m ! j) < hi (m ! i)" "hi (m ! i) \<le> hi (m ! j)"
      "entry_ok e" "lo e = lo (m ! i)" "hi e = lo (m ! j)" "me_type e = me_type (m ! i)"
      "sanitise_pair mx m i j = PCont (m[i := e])"
  | (cut_bottom) e where "entry_ok (m ! i)" "entry_ok (m ! j)" "lo (m ! j) < lo (m ! i)"
      "lo (m ! i) < hi (m ! j)" "hi (m ! j) < hi (m ! i)"
      "entry_ok e" "lo e = hi (m ! j)" "hi e = hi (m ! i)" "me_type e = me_type (m ! i)"
      "sanitise_pair mx m i j = PCont (m[i := e])"
proof -
  let ?e = "m ! i" and ?r = "m ! j"
  consider (a) "\<not> entry_ok ?e" | (b) "entry_ok ?e" "\<not> entry_ok ?r \<or> me_length ?r = 0"
    | (c) "entry_ok ?e" "entry_ok ?r" "me_length ?r \<noteq> 0" by blast
  then show thesis
  proof cases
    case a
    then show thesis using assms
      by (intro overflow) (simp_all add: sanitise_pair_def Let_def entry_top)
  next
    case b
    then show thesis using assms
      by (intro skip) (auto simp: sanitise_pair_def Let_def entry_top)
  next
    case c
    let ?t = "me_base ?e + me_length ?e" and ?rt = "me_base ?r + me_length ?r"
    have ne: "lo ?r < hi ?r" using c(3) by (simp add: extent unat_gt_0)
    note eq = sanitise_pair_eq [OF assms c, of mx, unfolded Let_def]
    have ext: "unat ?t = hi ?e" "unat ?rt = hi ?r" "unat (me_base ?e) = lo ?e" "unat (me_base ?r) = lo ?r"
      using c by (simp_all add: unat_entry_top lo_def)
    consider (1) "lo ?r \<le> lo ?e" "hi ?e \<le> hi ?r"
      | (2) "lo ?e \<le> lo ?r" "hi ?r < hi ?e"
      | (3) "lo ?e < lo ?r" "lo ?r < hi ?e" "hi ?e \<le> hi ?r"
      | (4) "lo ?r < lo ?e" "lo ?e \<le> hi ?r" "hi ?r < hi ?e"
      | (5) "lo ?e < lo ?r \<or> hi ?r < hi ?e" "hi ?e \<le> lo ?r"
      | (6) "hi ?r < lo ?e"
      by linarith
    then show thesis
    proof cases
      case 1
      then show thesis using c eq ext
        by (intro covered [of "cut_entry ?e ?t ?t"]) (simp_all add: cut_entry_extent)
    next
      case 2
      show thesis
      proof (cases "mx \<le> length m")
        case True
        then show thesis using 2 ne eq by (intro full) simp_all
      next
        case False
        then show thesis using 2 ne c eq ext
          by (intro split [of "cut_entry ?e (me_base ?e) (me_base ?r)" "cut_entry ?e ?rt ?t"])
            (simp_all add: cut_entry_extent)
      qed
    next
      case 3
      then show thesis using ne c eq ext
        by (intro cut_top [of "cut_entry ?e (me_base ?e) (me_base ?r)"]) (simp_all add: cut_entry_extent)
    next
      case 4
      show thesis
      proof (cases "hi ?r = lo ?e")
        case True
        then have "?rt = me_base ?e" using ext by (metis word_unat_eq_iff)
        then have "cut_entry ?e ?rt ?t = ?e" by (simp add: cut_entry_def)
        then show thesis using 4 True c eq ext by (intro skip) simp_all
      next
        case False
        then show thesis using 4 ne c eq ext
          by (intro cut_bottom [of "cut_entry ?e ?rt ?t"]) (simp_all add: cut_entry_extent)
      qed
    next
      case 5
      then have "sanitise_pair mx m i j = PCont m"
        using ne eq ext cut_entry_self [OF c(1)] by simp
      with 5 c show thesis by (intro skip) simp_all
    next
      case 6
      then have "sanitise_pair mx m i j = PCont m"
        using ne eq ext cut_entry_self [OF c(1)] lo_le_hi [of ?e] by simp
      with 6 c show thesis by (intro skip) simp_all
    qed
  qed
qed

text \<open>
  The measure that bounds both loops: the bytes the usable entries claim. A split always
  lowers it, because the entry that causes it is not empty.
\<close>

definition usable_total :: "memmap \<Rightarrow> nat" where
  "usable_total m = (\<Sum>e\<leftarrow>m. if me_type e = MEMMAP_USABLE then unat (me_length e) else 0)"

lemma usable_total_update:
  assumes "i < length m" and "me_type e = me_type (m ! i)"
    and "unat (me_length e) + k \<le> unat (me_length (m ! i))"
    and "me_type (m ! i) = MEMMAP_USABLE"
  shows "usable_total (m[i := e]) + k \<le> usable_total m"
  using assms sum_list_update_nat
    [of i m "\<lambda>e. if me_type e = MEMMAP_USABLE then unat (me_length e) else 0" e]
  unfolding usable_total_def by simp

lemma usable_total_append [simp]:
  "usable_total (m @ m') = usable_total m + usable_total m'"
  by (simp add: usable_total_def)

lemma usable_total_single:
  "usable_total [e] = (if me_type e = MEMMAP_USABLE then unat (me_length e) else 0)"
  by (simp add: usable_total_def)

lemma sanitise_pair_total:
  assumes "i < length m" and "me_type (m ! i) = MEMMAP_USABLE"
  shows "sanitise_pair mx m i j = PCont m' \<Longrightarrow>
      usable_total m' < usable_total m \<or> usable_total m' \<le> usable_total m \<and> length m' = length m"
    and "sanitise_pair mx m i j = PBreak m' \<Longrightarrow>
      usable_total m' \<le> usable_total m \<and> length m' = length m"
proof -
  have upd: "usable_total (m[i := e]) + k \<le> usable_total m"
    if "me_type e = me_type (m ! i)" and "hi e - lo e + k \<le> hi (m ! i) - lo (m ! i)" for e k
    using that assms by (intro usable_total_update) (simp_all add: unat_me_length)
  show "usable_total m' < usable_total m \<or> usable_total m' \<le> usable_total m \<and> length m' = length m"
    if r: "sanitise_pair mx m i j = PCont m'"
  proof (cases "j = i")
    case True then show ?thesis using r by (simp add: sanitise_pair_def)
  next
    case False
    then show ?thesis
    proof (cases rule: sanitise_pair_cases [of j i m mx])
      case (split e f)
      from upd [of e "hi f - lo f + (hi (m ! j) - lo (m ! j))"] split
      have "usable_total (m[i := e]) + (hi f - lo f) < usable_total m" by simp
      moreover have "m' = m[i := e] @ [f]"
        using r split assms(1) by (simp add: list_update_append)
      ultimately show ?thesis
        using split assms(2) by (simp add: usable_total_single unat_me_length)
    next
      case (cut_top e) then show ?thesis using r upd [of e 0] by simp
    next
      case (cut_bottom e) then show ?thesis using r upd [of e 0] by simp
    qed (use r in simp_all)
  qed
  show "usable_total m' \<le> usable_total m \<and> length m' = length m"
    if r: "sanitise_pair mx m i j = PBreak m'"
  proof (cases "j = i")
    case True then show ?thesis using r by (simp add: sanitise_pair_def)
  next
    case False
    then show ?thesis
    proof (cases rule: sanitise_pair_cases [of j i m mx])
      case (covered e) then show ?thesis using r upd [of e 0] by simp
    qed (use r in simp_all)
  qed
qed

lemma sanitise_pair_keeps:
  assumes "sanitise_pair mx m i j = PCont m'" and "i < length m"
  shows "i < length m'" and "length m \<le> length m'" and "me_type (m' ! i) = me_type (m ! i)"
proof -
  have "i < length m' \<and> length m \<le> length m' \<and> me_type (m' ! i) = me_type (m ! i)"
  proof (cases "j = i")
    case True then show ?thesis using assms by (simp add: sanitise_pair_def)
  next
    case False
    then show ?thesis
      by (cases rule: sanitise_pair_cases [of j i m mx]) (use assms in auto)
  qed
  then show "i < length m'" and "length m \<le> length m'" and "me_type (m' ! i) = me_type (m ! i)"
    by auto
qed

text \<open>
  The inner loop, with \<open>True\<close> in the result for the exit through
  \<^verbatim>\<open>goto del_mm0\<close>. The bound of the loop is the current count, which a split
  raises; the loop only runs for a usable entry inside the map.
\<close>

function sanitise_inner :: "nat \<Rightarrow> memmap \<Rightarrow> nat \<Rightarrow> nat \<Rightarrow> (bool \<times> memmap) res" where
  "sanitise_inner max_entries m i j =
     (if j < length m \<and> i < length m \<and> me_type (m ! i) = MEMMAP_USABLE then
        case sanitise_pair max_entries m i j of
          PCont m' \<Rightarrow> sanitise_inner max_entries m' i (Suc j)
        | PBreak m' \<Rightarrow> Inr (False, m')
        | PDel \<Rightarrow> Inr (True, m)
        | PPanic \<Rightarrow> Inl (Panic ''Memory map exhausted.'')
      else Inr (False, m))"
  by pat_completeness auto
termination
proof (relation "measures [\<lambda>(mx, m, i, j). usable_total m, \<lambda>(mx, m, i, j). length m - j]")
  fix mx m i j m'
  assume g: "j < length m \<and> i < length m \<and> me_type (m ! i) = MEMMAP_USABLE"
    and r: "sanitise_pair mx m i j = PCont m'"
  then show "((mx, m', i, Suc j), mx, m, i, j) \<in>
      measures [\<lambda>(mx, m, i, j). usable_total m, \<lambda>(mx, m, i, j). length m - j]"
    using sanitise_pair_total(1) [of i m mx j m'] by auto
qed simp

declare sanitise_inner.simps [simp del]

lemma sanitise_inner_stop:
  "\<not> (j < length m \<and> i < length m \<and> me_type (m ! i) = MEMMAP_USABLE) \<Longrightarrow>
     sanitise_inner mx m i j = Inr (False, m)"
  by (simp only: sanitise_inner.simps [of mx m i j] if_False)

lemma sanitise_inner_total:
  assumes "sanitise_inner mx m i j = Inr (d, m')"
  shows "usable_total m' < usable_total m \<or> usable_total m' \<le> usable_total m \<and> length m' = length m"
  using assms
proof (induction mx m i j rule: sanitise_inner.induct)
  case (1 mx m i j)
  show ?case
  proof (cases "j < length m \<and> i < length m \<and> me_type (m ! i) = MEMMAP_USABLE")
    case True
    note eq = "1.prems" [unfolded sanitise_inner.simps [of mx m i j] if_P [OF True]]
    show ?thesis
    proof (cases "sanitise_pair mx m i j")
      case (PCont x)
      with eq "1.IH" [OF True PCont] sanitise_pair_total(1) [of i m mx j x] True
      show ?thesis by auto
    next
      case (PBreak x)
      with eq sanitise_pair_total(2) [of i m mx j x] True show ?thesis by auto
    qed (use eq in simp_all)
  next
    case False
    with "1.prems" show ?thesis by (simp add: sanitise_inner_stop)
  qed
qed

lemma sanitise_inner_keeps:
  assumes "sanitise_inner mx m i j = Inr (d, m')" and "i < length m"
  shows "i < length m' \<and> me_type (m' ! i) = me_type (m ! i)"
  using assms
proof (induction mx m i j rule: sanitise_inner.induct)
  case (1 mx m i j)
  show ?case
  proof (cases "j < length m \<and> i < length m \<and> me_type (m ! i) = MEMMAP_USABLE")
    case True
    note eq = "1.prems"(1) [unfolded sanitise_inner.simps [of mx m i j] if_P [OF True]]
    show ?thesis
    proof (cases "sanitise_pair mx m i j")
      case (PCont x)
      with eq "1.IH" [OF True PCont] sanitise_pair_keeps [OF PCont] True
      show ?thesis by auto
    next
      case (PBreak x)
      then have "j \<noteq> i" by (auto simp: sanitise_pair_def)
      then show ?thesis using PBreak eq True
        by (cases rule: sanitise_pair_cases [of j i m mx]) auto
    qed (use eq True in simp_all)
  next
    case False
    with "1.prems" show ?thesis by (simp add: sanitise_inner_stop)
  qed
qed

lemma usable_total_swap_remove:
  assumes "i < length m"
  shows "usable_total (swap_remove i m) \<le> usable_total m"
proof -
  let ?f = "\<lambda>e. if me_type e = MEMMAP_USABLE then unat (me_length e) else 0"
  have "usable_total m = sum_mset (image_mset ?f (mset m))" for m
    by (simp add: usable_total_def sum_mset_sum_list [symmetric])
  then show ?thesis
    using mset_swap_remove [OF assms, symmetric] by simp
qed

text \<open>
  The outer loop. Deleting an entry restarts it from the first one
  (\<^verbatim>\<open>i = (size_t)-1\<close> before the increment).
\<close>

function sanitise_outer :: "nat \<Rightarrow> bool \<Rightarrow> memmap \<Rightarrow> nat \<Rightarrow> memmap res" where
  "sanitise_outer max_entries align_entries m i =
     (if i < length m then
        if me_type (m ! i) \<noteq> MEMMAP_USABLE
        then sanitise_outer max_entries align_entries m (Suc i)
        else case sanitise_inner max_entries m i 0 of
          Inl e \<Rightarrow> Inl e
        | Inr (del, m') \<Rightarrow>
            if del \<or> me_length (m' ! i) = 0
            then sanitise_outer max_entries align_entries (swap_remove i m') 0
            else if align_entries then
              (case align_entry (me_base (m' ! i)) (me_length (m' ! i)) of
                 None \<Rightarrow> sanitise_outer max_entries align_entries (swap_remove i m') 0
               | Some (b, l) \<Rightarrow>
                   sanitise_outer max_entries align_entries
                     (m'[i := (m' ! i)\<lparr>me_base := b, me_length := l\<rparr>]) (Suc i))
            else sanitise_outer max_entries align_entries m' (Suc i)
      else Inr m)"
  by pat_completeness auto

termination
proof (relation "measures [\<lambda>(mx, a, m, i). usable_total m, \<lambda>(mx, a, m, i). length m,
    \<lambda>(mx, a, m, i). length m - i]", goal_cases)
  case 1 show ?case by simp
next
  case (2 mx a m i) then show ?case by auto
next
  case (3 mx a m i r d m')
  then have "sanitise_inner mx m i 0 = Inr (d, m')" by simp
  note t = sanitise_inner_total [OF this] and k = sanitise_inner_keeps [OF this 3(1)]
  from t k usable_total_swap_remove [of i m'] show ?case by auto
next
  case (4 mx a m i r d m')
  then have "sanitise_inner mx m i 0 = Inr (d, m')" by simp
  note t = sanitise_inner_total [OF this] and k = sanitise_inner_keeps [OF this 4(1)]
  from t k usable_total_swap_remove [of i m'] show ?case by auto
next
  case (5 mx a m i r d m' p b l)
  then have "sanitise_inner mx m i 0 = Inr (d, m')" by simp
  note t = sanitise_inner_total [OF this] and k = sanitise_inner_keeps [OF this 5(1)]
  let ?e = "(m' ! i)\<lparr>me_base := b, me_length := l\<rparr>"
  have "align_entry (me_base (m' ! i)) (me_length (m' ! i)) = Some (b, l)" using 5 by simp
  then have "usable_total (m'[i := ?e]) \<le> usable_total m'"
    using k 5(2) align_entry_Some(3) usable_total_update [of i m' ?e 0] by auto
  with t k 5(1) show ?case by auto
next
  case (6 mx a m i r d m')
  then have "sanitise_inner mx m i 0 = Inr (d, m')" by simp
  from sanitise_inner_total [OF this] 6(1) show ?case by auto
qed

declare sanitise_outer.simps [simp del]

section \<open>Dropping, sorting and merging\<close>

text \<open>
  The second loop drops empty entries and clips usable ones to start at the second page,
  unless the first page is to be kept. A deletion decrements the index, so that the element
  moved into the gap is looked at next.
\<close>

function sanitise_clip :: "bool \<Rightarrow> memmap \<Rightarrow> nat \<Rightarrow> memmap" where
  "sanitise_clip keep_first_page m i =
     (if i < length m then
        let e = m ! i in
        if me_type e = MEMMAP_USABLE \<and> \<not> keep_first_page \<and> me_base e < 0x1000 then
          (case CHECKED_ADD (me_base e) (me_length e) of
             None \<Rightarrow> sanitise_clip keep_first_page (swap_remove i m) i
           | Some entry_top \<Rightarrow>
               if entry_top \<le> 0x1000 then sanitise_clip keep_first_page (swap_remove i m) i
               else
                 let e' = e\<lparr>me_length := me_length e - (0x1000 - me_base e), me_base := 0x1000\<rparr> in
                 if me_length e' = 0 then sanitise_clip keep_first_page (swap_remove i (m[i := e'])) i
                 else sanitise_clip keep_first_page (m[i := e']) (Suc i))
        else if me_length e = 0 then sanitise_clip keep_first_page (swap_remove i m) i
        else sanitise_clip keep_first_page m (Suc i)
      else m)"
  by pat_completeness auto
termination
  by (relation "measure (\<lambda>(k, m, i). length m - i)") auto

declare sanitise_clip.simps [simp del]

text \<open>Selection sort by base: the index of the first smallest base from \<open>p\<close> on.\<close>

function sort_min_index :: "memmap \<Rightarrow> nat \<Rightarrow> u64 \<Rightarrow> nat \<Rightarrow> nat" where
  "sort_min_index m i mn min_index =
     (if i < length m then
        if me_base (m ! i) < mn then sort_min_index m (Suc i) (me_base (m ! i)) i
        else sort_min_index m (Suc i) mn min_index
      else min_index)"
  by pat_completeness auto
termination
  by (relation "measure (\<lambda>(m, i, mn, k). length m - i)") auto

declare sort_min_index.simps [simp del]

definition swap_at :: "'a list \<Rightarrow> nat \<Rightarrow> nat \<Rightarrow> 'a list" where
  "swap_at xs k p = xs[k := xs ! p, p := xs ! k]"

lemma length_swap_at [simp]: "length (swap_at xs k p) = length xs"
  by (simp add: swap_at_def)

function sanitise_sort :: "memmap \<Rightarrow> nat \<Rightarrow> memmap" where
  "sanitise_sort m p =
     (if p + 1 < length m
      then sanitise_sort (swap_at m (sort_min_index m p (me_base (m ! p)) p) p) (Suc p)
      else m)"
  by pat_completeness auto
termination
  by (relation "measure (\<lambda>(m, p). length m - p)") auto

declare sanitise_sort.simps [simp del]

text \<open>
  Joining an entry with its successor. The index is decremented after a join, so the joined
  entry is tried against its new successor. The inner loop of the code closes the gap left
  by the successor.
\<close>

definition mergeable :: "u32 \<Rightarrow> bool" where
  "mergeable t \<longleftrightarrow> t = MEMMAP_BOOTLOADER_RECLAIMABLE \<or> t = MEMMAP_RESERVED_MAPPED
     \<or> t = MEMMAP_KERNEL_AND_MODULES \<or> t = MEMMAP_USABLE"

function sanitise_merge :: "memmap \<Rightarrow> nat \<Rightarrow> memmap" where
  "sanitise_merge m i =
     (if i + 1 < length m then
        if \<not> mergeable (me_type (m ! i)) then sanitise_merge m (Suc i)
        else case CHECKED_ADD (me_base (m ! i)) (me_length (m ! i)) of
          None \<Rightarrow> sanitise_merge m (Suc i)
        | Some merge_top \<Rightarrow>
            if me_type (m ! (i + 1)) = me_type (m ! i) \<and> me_base (m ! (i + 1)) = merge_top then
              (case CHECKED_ADD (me_length (m ! i)) (me_length (m ! (i + 1))) of
                 None \<Rightarrow> sanitise_merge m (Suc i)
               | Some l \<Rightarrow>
                   sanitise_merge
                     (take i m @ [(m ! i)\<lparr>me_length := l\<rparr>] @ drop (i + 2) m) i)
            else sanitise_merge m (Suc i)
      else m)"
  by pat_completeness auto
termination
  by (relation "measure (\<lambda>(m, i). length m - i)") auto

declare sanitise_merge.simps [simp del]

definition pmm_sanitise_entries :: "nat \<Rightarrow> bool \<Rightarrow> memmap \<Rightarrow> bool \<Rightarrow> memmap res" where
  "pmm_sanitise_entries max_entries keep_first_page m align_entries =
     res_bind (sanitise_outer max_entries align_entries m 0)
       (\<lambda>m1. Inr (sanitise_merge (sanitise_sort (sanitise_clip keep_first_page m1 0) 0) 0))"

lemmas sanitise_eval [model_eval] =
  memmap_types PAGE_SIZE_def align_entry_def sanitise_pair_def sanitise_inner.simps
  sanitise_outer.simps sanitise_clip.simps sort_min_index.simps swap_at_def sanitise_sort.simps
  mergeable_def sanitise_merge.simps pmm_sanitise_entries_def

end
