(* ===== verification/Pmm_Sanitise_Proof.thy ===== *)
theory Pmm_Sanitise_Proof
  imports Pmm_Sanitise
begin

text \<open>
  Correctness of the memory map sanitiser. A memory map denotes, for each type, the set of
  addresses of that type, where any other entry takes precedence over a usable one. Every
  loop of the sanitiser keeps this denotation (the clipping loop up to the first page), the
  loop that cuts usable entries leaves them apart from all other entries, and the result is
  sorted, has no empty entry and no pair of neighbours that could still be joined.
\<close>

section \<open>What a memory map denotes\<close>

definition cov :: "memmap_entry \<Rightarrow> nat set" where
  "cov e = {lo e..<hi e}"

definition typed :: "memmap_entry set \<Rightarrow> u32 \<Rightarrow> nat set" where
  "typed E t = (\<Union>e\<in>{e \<in> E. me_type e = t}. cov e)"

definition claimed :: "memmap_entry set \<Rightarrow> nat set" where
  "claimed E = (\<Union>e\<in>{e \<in> E. me_type e \<noteq> MEMMAP_USABLE}. cov e)"

definition mem_of :: "memmap \<Rightarrow> u32 \<Rightarrow> nat set" where
  "mem_of m t =
     (if t = MEMMAP_USABLE then typed (set m) t - claimed (set m) else typed (set m) t)"

definition all_ok :: "memmap \<Rightarrow> bool" where
  "all_ok m \<longleftrightarrow> list_all entry_ok m"

text \<open>Usable entries overlap no other entry.\<close>

definition usable_apart :: "memmap \<Rightarrow> bool" where
  "usable_apart m \<longleftrightarrow>
     (\<forall>k<length m. \<forall>l<length m. k \<noteq> l \<longrightarrow> me_type (m ! k) = MEMMAP_USABLE \<longrightarrow>
        cov (m ! k) \<inter> cov (m ! l) = {})"

lemma typed_insert:
  "typed (insert e E) t = (if me_type e = t then cov e \<union> typed E t else typed E t)"
  by (auto simp: typed_def)

lemma claimed_insert:
  "claimed (insert e E) = (if me_type e \<noteq> MEMMAP_USABLE then cov e \<union> claimed E else claimed E)"
  by (auto simp: claimed_def)

lemma typed_un: "typed (E \<union> F) t = typed E t \<union> typed F t"
  by (auto simp: typed_def)

lemma claimed_typed: "claimed E = (\<Union>t\<in>-{MEMMAP_USABLE}. typed E t)"
  by (auto simp: claimed_def typed_def)

lemma cov_in_typed_claimed: "e \<in> E \<Longrightarrow> cov e \<subseteq> typed E MEMMAP_USABLE \<union> claimed E"
  by (auto simp: claimed_def typed_def)

lemma cov_empty_iff: "cov e = {} \<longleftrightarrow> me_length e = 0"
  by (simp add: cov_def extent unat_eq_0)

lemma cov_disjoint_iff:
  "cov e \<inter> cov f = {} \<longleftrightarrow> hi e \<le> lo f \<or> hi f \<le> lo e \<or> cov e = {} \<or> cov f = {}"
  by (auto simp: cov_def)

lemma mem_of_set_cong: "set m = set m' \<Longrightarrow> mem_of m = mem_of m'"
  by (rule ext) (simp add: mem_of_def)

text \<open>
  Replacing a usable entry by usable parts of it keeps the denotation, as long as the
  addresses given up are covered by the other entries.
\<close>

lemma mem_of_replace:
  assumes i: "i < length m" and use: "me_type (m ! i) = MEMMAP_USABLE"
    and m': "set m' = P \<union> others i m" and P: "\<And>p. p \<in> P \<Longrightarrow> me_type p = MEMMAP_USABLE"
    and sub: "(\<Union>p\<in>P. cov p) \<subseteq> cov (m ! i)"
    and sup: "cov (m ! i) \<subseteq> (\<Union>p\<in>P. cov p) \<union> (\<Union>q\<in>others i m. cov q)"
  shows "mem_of m' = mem_of m"
proof (rule ext)
  fix t
  let ?O = "others i m"
  have PU: "typed P MEMMAP_USABLE = (\<Union>p\<in>P. cov p)"
    and Pt: "t \<noteq> MEMMAP_USABLE \<Longrightarrow> typed P t = {}" for t
    using P by (auto simp: typed_def)
  have cl: "claimed (set m') = claimed ?O" "claimed (set m) = claimed ?O"
    using P use by (auto simp: m' set_split_others [OF i] claimed_def)
  have sup': "cov (m ! i) \<subseteq> (\<Union>p\<in>P. cov p) \<union> (typed ?O MEMMAP_USABLE \<union> claimed ?O)"
    using sup cov_in_typed_claimed [of _ ?O] by blast
  show "mem_of m' t = mem_of m t"
  proof (cases "t = MEMMAP_USABLE")
    case True
    have "typed (set m') t = (\<Union>p\<in>P. cov p) \<union> typed ?O t" "typed (set m) t = cov (m ! i) \<union> typed ?O t"
      using True PU use by (simp_all add: m' set_split_others [OF i] typed_insert typed_un)
    then show ?thesis unfolding mem_of_def cl using True sub sup' by auto
  next
    case False
    then show ?thesis
      using Pt use by (simp add: mem_of_def m' set_split_others [OF i] typed_insert typed_un)
  qed
qed

lemma all_ok_update: "all_ok m \<Longrightarrow> entry_ok e \<Longrightarrow> all_ok (m[i := e])"
  by (auto simp: all_ok_def list_all_iff dest: set_update_subset_insert [THEN subsetD])

lemma all_ok_nth: "all_ok m \<Longrightarrow> i < length m \<Longrightarrow> entry_ok (m ! i)"
  by (simp add: all_ok_def list_all_length)

section \<open>The loop over a usable entry\<close>

text \<open>
  What one round and the whole inner loop do to the map: only entry \<open>i\<close> changes and
  entries are appended, all of them parts of the old entry \<open>i\<close>.
\<close>

definition cuts_only :: "nat \<Rightarrow> memmap \<Rightarrow> memmap \<Rightarrow> bool" where
  "cuts_only i m m' \<longleftrightarrow>
     length m \<le> length m' \<and> all_ok m' \<and> mem_of m' = mem_of m
     \<and> (\<forall>k<length m. k \<noteq> i \<longrightarrow> m' ! k = m ! k)
     \<and> (\<forall>k<length m'. k = i \<or> length m \<le> k \<longrightarrow>
          cov (m' ! k) \<subseteq> cov (m ! i) \<and> me_type (m' ! k) = MEMMAP_USABLE)"

lemma cuts_onlyD:
  assumes "cuts_only i m m'"
  shows "length m \<le> length m'" and "all_ok m'" and "mem_of m' = mem_of m"
    and "\<And>k. k < length m \<Longrightarrow> k \<noteq> i \<Longrightarrow> m' ! k = m ! k"
    and "\<And>k. k < length m' \<Longrightarrow> k = i \<or> length m \<le> k \<Longrightarrow>
           cov (m' ! k) \<subseteq> cov (m ! i) \<and> me_type (m' ! k) = MEMMAP_USABLE"
  using assms unfolding cuts_only_def by blast+

lemma cuts_only_refl: "all_ok m \<Longrightarrow> me_type (m ! i) = MEMMAP_USABLE \<Longrightarrow> cuts_only i m m"
  by (auto simp: cuts_only_def)

lemma cuts_only_trans:
  assumes "cuts_only i m m1" and "cuts_only i m1 m2" and "i < length m"
  shows "cuts_only i m m2"
proof -
  have "cov (m2 ! k) \<subseteq> cov (m ! i) \<and> me_type (m2 ! k) = MEMMAP_USABLE"
    if k: "k < length m2" "k = i \<or> length m \<le> k" for k
  proof (cases "k = i \<or> length m1 \<le> k")
    case True
    have "i < length m1" using assms by (simp add: cuts_only_def)
    then have "cov (m1 ! i) \<subseteq> cov (m ! i)" using assms(1) by (simp add: cuts_only_def)
    moreover have "cov (m2 ! k) \<subseteq> cov (m1 ! i) \<and> me_type (m2 ! k) = MEMMAP_USABLE"
      using assms(2) k(1) True unfolding cuts_only_def by blast
    ultimately show ?thesis by blast
  next
    case False
    then have "m2 ! k = m1 ! k" using assms(2) by (simp add: cuts_only_def)
    then show ?thesis using assms(1) k False by (simp add: cuts_only_def)
  qed
  then show ?thesis using assms by (auto simp: cuts_only_def)
qed

lemma cuts_only_update:
  assumes "all_ok m" and "i < length m" and "j < length m" and "j \<noteq> i" and "entry_ok e"
    and "me_type (m ! i) = MEMMAP_USABLE" and "me_type e = MEMMAP_USABLE"
    and "cov e \<subseteq> cov (m ! i)" and "cov (m ! i) \<subseteq> cov e \<union> cov (m ! j)"
  shows "cuts_only i m (m[i := e])"
proof -
  have "mem_of (m[i := e]) = mem_of m"
  proof (rule mem_of_replace [OF assms(2,6), of _ "{e}"])
    show "cov (m ! i) \<subseteq> (\<Union>p\<in>{e}. cov p) \<union> (\<Union>q\<in>others i m. cov q)"
      using assms(9) nth_in_others [OF assms(3,4)] by auto
  qed (use assms in \<open>auto simp: set_update_others\<close>)
  then show ?thesis
    using assms by (auto simp: cuts_only_def all_ok_update nth_list_update)
qed

lemma cuts_only_split:
  assumes "all_ok m" and "i < length m" and "j < length m" and "j \<noteq> i" and "entry_ok e" and "entry_ok f"
    and "me_type (m ! i) = MEMMAP_USABLE" and "me_type e = MEMMAP_USABLE" and "me_type f = MEMMAP_USABLE"
    and "cov e \<subseteq> cov (m ! i)" and "cov f \<subseteq> cov (m ! i)"
    and "cov (m ! i) \<subseteq> cov e \<union> cov f \<union> cov (m ! j)"
  shows "cuts_only i m ((m @ [f])[i := e])"
proof -
  have app: "(m @ [f])[i := e] = m[i := e] @ [f]"
    using assms(2) by (simp add: list_update_append)
  have "mem_of ((m @ [f])[i := e]) = mem_of m"
  proof (rule mem_of_replace [OF assms(2,7), of _ "{e, f}"])
    show "set ((m @ [f])[i := e]) = {e, f} \<union> others i m"
      using assms(2) by (auto simp: app set_update_others)
    show "cov (m ! i) \<subseteq> (\<Union>p\<in>{e, f}. cov p) \<union> (\<Union>q\<in>others i m. cov q)"
      using assms(12) nth_in_others [OF assms(3,4)] by auto
  qed (use assms in auto)
  moreover have "all_ok ((m @ [f])[i := e])"
    using assms by (intro all_ok_update) (simp_all add: all_ok_def)
  ultimately show ?thesis
    using assms by (auto simp: cuts_only_def app nth_append nth_list_update less_Suc_eq)
qed

text \<open>A round leaves entry \<open>i\<close> apart from entry \<open>j\<close>.\<close>

lemma sanitise_pair_cuts:
  assumes ok: "all_ok m" and i: "i < length m" and j: "j < length m" and "j \<noteq> i"
    and use: "me_type (m ! i) = MEMMAP_USABLE"
  shows "sanitise_pair mx m i j = PCont m' \<Longrightarrow> cuts_only i m m' \<and> cov (m' ! i) \<inter> cov (m' ! j) = {}"
    and "sanitise_pair mx m i j = PBreak m' \<Longrightarrow> cuts_only i m m' \<and> cov (m' ! i) = {}"
    and "sanitise_pair mx m i j \<noteq> PDel"
proof -
  have "(sanitise_pair mx m i j = PCont m' \<longrightarrow> cuts_only i m m' \<and> cov (m' ! i) \<inter> cov (m' ! j) = {})
    \<and> (sanitise_pair mx m i j = PBreak m' \<longrightarrow> cuts_only i m m' \<and> cov (m' ! i) = {})
    \<and> sanitise_pair mx m i j \<noteq> PDel"
    using \<open>j \<noteq> i\<close>
  proof (cases rule: sanitise_pair_cases [of j i m mx])
    case overflow then show ?thesis using all_ok_nth [OF ok i] by simp
  next
    case skip
    then have "cov (m ! i) \<inter> cov (m ! j) = {}"
      using all_ok_nth [OF ok j] by (auto simp: cov_disjoint_iff cov_empty_iff)
    then show ?thesis using skip cuts_only_refl [OF ok use] by auto
  next
    case (covered e)
    then have "cuts_only i m (m[i := e])"
      using assms by (intro cuts_only_update [of m i j]) (auto simp: cov_def)
    then show ?thesis using covered i by (auto simp: cov_def)
  next
    case full then show ?thesis by simp
  next
    case (split e f)
    then have "cuts_only i m ((m @ [f])[i := e])"
      using assms by (intro cuts_only_split [of m i j]) (auto simp: cov_def)
    then show ?thesis using split i j \<open>j \<noteq> i\<close> by (auto simp: cov_def nth_append)
  next
    case (cut_top e)
    then have "cuts_only i m (m[i := e])"
      using assms by (intro cuts_only_update [of m i j]) (auto simp: cov_def)
    then show ?thesis using cut_top i \<open>j \<noteq> i\<close> by (auto simp: cov_def)
  next
    case (cut_bottom e)
    then have "cuts_only i m (m[i := e])"
      using assms by (intro cuts_only_update [of m i j]) (auto simp: cov_def)
    then show ?thesis using cut_bottom i \<open>j \<noteq> i\<close> by (auto simp: cov_def)
  qed
  then show "sanitise_pair mx m i j = PCont m' \<Longrightarrow> cuts_only i m m' \<and> cov (m' ! i) \<inter> cov (m' ! j) = {}"
    and "sanitise_pair mx m i j = PBreak m' \<Longrightarrow> cuts_only i m m' \<and> cov (m' ! i) = {}"
    and "sanitise_pair mx m i j \<noteq> PDel" by auto
qed

lemma sanitise_inner_cuts:
  assumes "sanitise_inner mx m i j = Inr (d, m')" and "all_ok m" and "i < length m"
    and "me_type (m ! i) = MEMMAP_USABLE"
    and "\<forall>k<j. k < length m \<longrightarrow> k \<noteq> i \<longrightarrow> cov (m ! i) \<inter> cov (m ! k) = {}"
  shows "\<not> d \<and> cuts_only i m m' \<and> (\<forall>k<length m'. k \<noteq> i \<longrightarrow> cov (m' ! i) \<inter> cov (m' ! k) = {})"
  using assms
proof (induction mx m i j rule: sanitise_inner.induct)
  case (1 mx m i j)
  note ok = "1.prems"(2) and i = "1.prems"(3) and use = "1.prems"(4) and apart = "1.prems"(5)
  show ?case
  proof (cases "j < length m \<and> i < length m \<and> me_type (m ! i) = MEMMAP_USABLE")
    case True
    note eq = "1.prems"(1) [unfolded sanitise_inner.simps [of mx m i j] if_P [OF True]]
    show ?thesis
    proof (cases "sanitise_pair mx m i j")
      case (PCont x)
      have cuts: "cuts_only i m x \<and> (j \<noteq> i \<longrightarrow> cov (x ! i) \<inter> cov (x ! j) = {})"
        using sanitise_pair_cuts(1) [OF ok i _ _ use PCont] PCont True cuts_only_refl [OF ok use]
        by (cases "j = i") (simp_all add: sanitise_pair_def)
      have x: "all_ok x" "length m \<le> length x" "me_type (x ! i) = MEMMAP_USABLE"
        "cov (x ! i) \<subseteq> cov (m ! i)"
        using cuts_onlyD(1,2) [of i m x] cuts_onlyD(5) [of i m x i] cuts i by auto
      have "\<forall>k<Suc j. k < length x \<longrightarrow> k \<noteq> i \<longrightarrow> cov (x ! i) \<inter> cov (x ! k) = {}"
      proof (intro allI impI)
        fix k assume k: "k < Suc j" "k < length x" "k \<noteq> i"
        show "cov (x ! i) \<inter> cov (x ! k) = {}"
        proof (cases "k = j")
          case True with k cuts show ?thesis by simp
        next
          case False
          with k True have k': "k < j" "k < length m" by simp_all
          then have "x ! k = m ! k" using cuts k by (simp add: cuts_only_def)
          then show ?thesis using apart k' k(3) x(4) by auto
        qed
      qed
      from "1.IH" [OF True PCont _ x(1) _ x(3) this] eq PCont i x(2)
      have "\<not> d \<and> cuts_only i x m' \<and> (\<forall>k<length m'. k \<noteq> i \<longrightarrow> cov (m' ! i) \<inter> cov (m' ! k) = {})"
        by simp
      then show ?thesis using cuts_only_trans [of i m x m'] cuts i by blast
    next
      case (PBreak x)
      then have "j \<noteq> i" by (auto simp: sanitise_pair_def)
      then show ?thesis
        using sanitise_pair_cuts(2) [OF ok i _ _ use PBreak] True eq PBreak by simp
    next
      case PDel
      then have "j \<noteq> i" by (auto simp: sanitise_pair_def)
      then show ?thesis using sanitise_pair_cuts(3) [OF ok i _ _ use] True PDel by blast
    qed (use eq in simp)
  next
    case False
    then have "d = False" "m' = m" and "length m \<le> j"
      using "1.prems" by (simp_all add: sanitise_inner_stop)
    then show ?thesis using apart cuts_only_refl [OF ok use] by simp
  qed
qed

section \<open>The loop over all entries\<close>

text \<open>Usable entries before index \<open>i\<close> are settled: apart from all others, and aligned if asked for.\<close>

definition settled :: "bool \<Rightarrow> memmap \<Rightarrow> nat \<Rightarrow> bool" where
  "settled al m i \<longleftrightarrow>
     (\<forall>k<i. k < length m \<longrightarrow> me_type (m ! k) = MEMMAP_USABLE \<longrightarrow>
        (\<forall>l<length m. l \<noteq> k \<longrightarrow> cov (m ! k) \<inter> cov (m ! l) = {})
        \<and> me_length (m ! k) \<noteq> 0
        \<and> (al \<longrightarrow> 4096 dvd lo (m ! k) \<and> 4096 dvd unat (me_length (m ! k))))"

lemma settled_0 [simp]: "settled al m 0"
  by (simp add: settled_def)

lemma settled_cuts:
  assumes st: "settled al m i" and c: "cuts_only i m m'" and i: "i < length m"
    and apart: "\<forall>k<length m'. k \<noteq> i \<longrightarrow> cov (m' ! i) \<inter> cov (m' ! k) = {}"
    and e: "cov e \<subseteq> cov (m' ! i)" "me_type e = MEMMAP_USABLE" "me_length e \<noteq> 0"
      "al \<Longrightarrow> 4096 dvd lo e \<and> 4096 dvd unat (me_length e)"
  shows "settled al (m'[i := e]) (Suc i)"
  unfolding settled_def
proof (intro allI impI)
  fix k assume k: "k < Suc i" "k < length (m'[i := e])" "me_type (m'[i := e] ! k) = MEMMAP_USABLE"
  let ?m = "m'[i := e]"
  have i': "i < length m'" using c i by (simp add: cuts_only_def)
  show "(\<forall>l<length ?m. l \<noteq> k \<longrightarrow> cov (?m ! k) \<inter> cov (?m ! l) = {}) \<and> me_length (?m ! k) \<noteq> 0
      \<and> (al \<longrightarrow> 4096 dvd lo (?m ! k) \<and> 4096 dvd unat (me_length (?m ! k)))"
  proof (cases "k = i")
    case True
    then show ?thesis using i' apart e by auto
  next
    case False
    then have ki: "k < i" using k by simp
    then have mk: "m' ! k = m ! k" using c i by (simp add: cuts_only_def)
    then have old: "\<forall>l<length m. l \<noteq> k \<longrightarrow> cov (m ! k) \<inter> cov (m ! l) = {}"
      "me_length (m ! k) \<noteq> 0" "al \<longrightarrow> 4096 dvd lo (m ! k) \<and> 4096 dvd unat (me_length (m ! k))"
      using st k ki i False unfolding settled_def by simp_all
    have "cov (m ! k) \<inter> cov (?m ! l) = {}" if l: "l < length m'" "l \<noteq> k" for l
    proof (cases "l < length m \<and> l \<noteq> i")
      case True
      then have "?m ! l = m ! l" using c by (simp add: cuts_only_def)
      then show ?thesis using old True l by simp
    next
      case False
      have "cov (m' ! l) \<subseteq> cov (m ! i)" if "l \<noteq> i"
        using False l(1) that c by (simp add: cuts_only_def)
      moreover have "cov (m' ! i) \<subseteq> cov (m ! i)"
        using c i' by (simp add: cuts_only_def)
      ultimately have "cov (?m ! l) \<subseteq> cov (m ! i)" using e i' l by (cases "l = i") auto
      then show ?thesis using old ki i by blast
    qed
    then show ?thesis using old mk False by simp
  qed
qed

text \<open>
  Aligning may give usable bytes up; without it the denotation stays as it is.
\<close>

definition mem_kept :: "bool \<Rightarrow> memmap \<Rightarrow> memmap \<Rightarrow> bool" where
  "mem_kept al m m' \<longleftrightarrow>
     (\<forall>t. t \<noteq> MEMMAP_USABLE \<longrightarrow> mem_of m' t = mem_of m t)
     \<and> (if al then mem_of m' MEMMAP_USABLE \<subseteq> mem_of m MEMMAP_USABLE
        else mem_of m' MEMMAP_USABLE = mem_of m MEMMAP_USABLE)"

lemma mem_kept_eq: "mem_of m' = mem_of m \<Longrightarrow> mem_kept al m m'"
  by (simp add: mem_kept_def)

lemma mem_kept_trans: "mem_kept al m m1 \<Longrightarrow> mem_kept al m1 m2 \<Longrightarrow> mem_kept al m m2"
  by (auto simp: mem_kept_def split: if_splits)

lemma mem_kept_drop:
  assumes "i < length m" and "me_type (m ! i) = MEMMAP_USABLE"
    and "set m' = P \<union> others i m" and "\<And>p. p \<in> P \<Longrightarrow> me_type p = MEMMAP_USABLE"
    and "(\<Union>p\<in>P. cov p) \<subseteq> cov (m ! i)" and "al \<or> cov (m ! i) = (\<Union>p\<in>P. cov p)"
  shows "mem_kept al m m'"
proof (cases al)
  case True
  have "typed P MEMMAP_USABLE = (\<Union>p\<in>P. cov p)" "\<And>t. t \<noteq> MEMMAP_USABLE \<Longrightarrow> typed P t = {}"
    using assms(4) by (auto simp: typed_def)
  moreover have "claimed (set m') = claimed (set m)"
    using assms(2,4) by (auto simp: assms(3) set_split_others [OF assms(1)] claimed_def)
  ultimately show ?thesis
    using True assms(2,5)
    by (auto simp: mem_kept_def mem_of_def assms(3) set_split_others [OF assms(1)] typed_insert typed_un)
next
  case False
  then have "cov (m ! i) = (\<Union>p\<in>P. cov p)" using assms(6) by simp
  then show ?thesis
    using assms by (intro mem_kept_eq mem_of_replace [of i m m' P]) auto
qed

lemma all_ok_swap_remove: "all_ok m \<Longrightarrow> i < length m \<Longrightarrow> all_ok (swap_remove i m)"
  by (auto simp: all_ok_def list_all_iff set_swap_remove elim!: othersE)

lemma mem_kept_swap_remove:
  assumes "i < length m" and "me_type (m ! i) = MEMMAP_USABLE" and "al \<or> me_length (m ! i) = 0"
  shows "mem_kept al m (swap_remove i m)"
  using assms by (intro mem_kept_drop [of i m _ "{}"]) (auto simp: set_swap_remove cov_empty_iff)

lemma mem_kept_update:
  assumes "i < length m" and "me_type (m ! i) = MEMMAP_USABLE" and "me_type e = MEMMAP_USABLE"
    and "cov e \<subseteq> cov (m ! i)"
  shows "mem_kept True m (m[i := e])"
  using assms by (intro mem_kept_drop [of i m _ "{e}"]) (auto simp: set_update_others)

lemma sanitise_outer_correct:
  assumes "sanitise_outer mx al m i = Inr m'" and "all_ok m" and "settled al m i"
  shows "all_ok m' \<and> settled al m' (length m') \<and> mem_kept al m m'"
  using assms
proof (induction mx al m i rule: sanitise_outer.induct)
  case (1 mx al m i)
  note ok = "1.prems"(2) and st = "1.prems"(3)
  consider (stop) "\<not> i < length m" | (other) "i < length m" "me_type (m ! i) \<noteq> MEMMAP_USABLE"
    | (usable) "i < length m" "me_type (m ! i) = MEMMAP_USABLE" by blast
  then show ?case
  proof cases
    case stop
    then have "m' = m" using "1.prems"(1) by (simp add: sanitise_outer.simps [of mx al m i])
    moreover have "settled al m (length m)" using st stop by (simp add: settled_def)
    ultimately show ?thesis using ok by (simp add: mem_kept_eq)
  next
    case other
    then have "settled al m (Suc i)" using st by (auto simp: settled_def less_Suc_eq)
    moreover have "sanitise_outer mx al m (Suc i) = Inr m'"
      using "1.prems"(1) other by (simp add: sanitise_outer.simps [of mx al m i])
    ultimately show ?thesis using "1.IH"(1) [OF other] ok by blast
  next
    case usable
    note use = usable(2)
    obtain d x where inner: "sanitise_inner mx m i 0 = Inr (d, x)"
      using "1.prems"(1) usable
      by (auto simp: sanitise_outer.simps [of mx al m i] split: sum.splits)
    have cuts: "\<not> d" "cuts_only i m x" "\<forall>k<length x. k \<noteq> i \<longrightarrow> cov (x ! i) \<inter> cov (x ! k) = {}"
      using sanitise_inner_cuts [OF inner ok usable] by auto
    have x: "i < length x" "all_ok x" "me_type (x ! i) = MEMMAP_USABLE"
      using cuts_onlyD [OF cuts(2)] usable by auto
    have kept: "mem_kept al m x" using cuts_onlyD(3) [OF cuts(2)] by (rule mem_kept_eq)
    note eq = "1.prems"(1) [unfolded sanitise_outer.simps [of mx al m i]]
    have nuse: "\<not> me_type (m ! i) \<noteq> MEMMAP_USABLE" using use by simp
    note IH = "1.IH"(2-5) [OF usable(1) nuse inner refl]
    show ?thesis
    proof (cases "me_length (x ! i) = 0")
      case True
      have "sanitise_outer mx al (swap_remove i x) 0 = Inr m'" using eq usable inner True by simp
      from IH(1) [OF _ this] True all_ok_swap_remove [OF x(2,1)]
      have "all_ok m' \<and> settled al m' (length m') \<and> mem_kept al (swap_remove i x) m'" by simp
      then show ?thesis
        using mem_kept_swap_remove [OF x(1,3), of al] kept True mem_kept_trans by blast
    next
      case ne: False
      show ?thesis
      proof (cases al)
        case False
        have "settled al (x[i := x ! i]) (Suc i)"
          using ne x False by (intro settled_cuts [OF st cuts(2) usable(1) cuts(3)]) auto
        then have "settled al x (Suc i)" by simp
        moreover have "sanitise_outer mx al x (Suc i) = Inr m'" using eq usable inner ne cuts(1) False by simp
        ultimately have "all_ok m' \<and> settled al m' (length m') \<and> mem_kept al x m'"
          using IH(4) ne cuts(1) False x(2) by simp
        then show ?thesis using kept mem_kept_trans by blast
      next
        case al: True
        show ?thesis
        proof (cases "align_entry (me_base (x ! i)) (me_length (x ! i))")
          case None
          have "sanitise_outer mx al (swap_remove i x) 0 = Inr m'"
            using eq usable inner ne cuts(1) al None by simp
          with IH(2) [OF _ al None] ne cuts(1) all_ok_swap_remove [OF x(2,1)]
          have "all_ok m' \<and> settled al m' (length m') \<and> mem_kept al (swap_remove i x) m'" by simp
          then show ?thesis
            using mem_kept_swap_remove [OF x(1,3), of al] kept al mem_kept_trans by blast
        next
          case (Some p)
          obtain b l where p: "p = (b, l)" by (cases p)
          let ?e = "(x ! i)\<lparr>me_base := b, me_length := l\<rparr>"
          note ae = align_entry_Some [OF Some [unfolded p]]
          have xi: "entry_ok (x ! i)" using x by (intro all_ok_nth)
          have e: "entry_ok ?e" "cov ?e \<subseteq> cov (x ! i)" "me_type ?e = MEMMAP_USABLE"
            using ae x(3) xi by (auto simp: cov_def extent)
          have "settled al (x[i := ?e]) (Suc i)"
            using e ae by (intro settled_cuts [OF st cuts(2) usable(1) cuts(3)]) (auto simp: lo_def)
          moreover have "sanitise_outer mx al (x[i := ?e]) (Suc i) = Inr m'"
            using eq usable inner ne cuts(1) al Some p by simp
          ultimately have "all_ok m' \<and> settled al m' (length m') \<and> mem_kept al (x[i := ?e]) m'"
            using IH(3) [OF _ al Some p [symmetric]] ne cuts(1) all_ok_update [OF x(2) e(1)] by simp
          moreover have "mem_kept al x (x[i := ?e])" using mem_kept_update [OF x(1,3) e(3,2)] al by simp
          ultimately show ?thesis using kept mem_kept_trans by blast
        qed
      qed
    qed
  qed
qed

lemma settled_apart: "settled al m (length m) \<Longrightarrow> usable_apart m"
  by (auto simp: settled_def usable_apart_def)

section \<open>Dropping, sorting and merging\<close>

text \<open>
  The later loops keep usable entries apart, and aligned where they were. Both are kept by
  any rearrangement that shrinks usable entries, so they are stated for entries at distinct
  positions.
\<close>

definition usable_aligned :: "memmap \<Rightarrow> bool" where
  "usable_aligned m \<longleftrightarrow>
     (\<forall>e\<in>set m. me_type e = MEMMAP_USABLE \<longrightarrow> 4096 dvd lo e \<and> 4096 dvd unat (me_length e))"

lemma settled_aligned: "settled True m (length m) \<Longrightarrow> usable_aligned m"
  by (auto simp: settled_def usable_aligned_def in_set_conv_nth)

lemma usable_apart_index:
  assumes "usable_apart m" and "length m' \<le> length m"
    and "\<And>k. k < length m' \<Longrightarrow> p k < length m" and "inj_on p {..<length m'}"
    and "\<And>k. k < length m' \<Longrightarrow> cov (m' ! k) \<subseteq> cov (m ! p k) \<and> me_type (m' ! k) = me_type (m ! p k)"
  shows "usable_apart m'"
  unfolding usable_apart_def
proof (intro allI impI)
  fix k l assume kl: "k < length m'" "l < length m'" "k \<noteq> l" "me_type (m' ! k) = MEMMAP_USABLE"
  have "p k \<noteq> p l" using assms(4) kl by (auto simp: inj_on_def)
  then have "cov (m ! p k) \<inter> cov (m ! p l) = {}"
    using assms kl unfolding usable_apart_def by simp
  then show "cov (m' ! k) \<inter> cov (m' ! l) = {}"
    using assms(5) kl by blast
qed

lemma usable_apart_swap_remove:
  assumes "usable_apart m" and "i < length m"
  shows "usable_apart (swap_remove i m)"
  using assms(2)
  by (intro usable_apart_index [OF assms(1), where p = "\<lambda>k. if k = i then length m - 1 else k"])
    (auto simp: swap_remove_nth inj_on_def split: if_splits)

lemma usable_apart_update:
  assumes "usable_apart m" and "i < length m" and "cov e \<subseteq> cov (m ! i)" and "me_type e = me_type (m ! i)"
  shows "usable_apart (m[i := e])"
  using assms(2-) by (intro usable_apart_index [OF assms(1), where p = id]) (auto simp: nth_list_update)

lemma usable_apart_swap_at:
  assumes "usable_apart m" and "i < length m" and "j < length m"
  shows "usable_apart (swap_at m i j)"
  using assms(2-)
  by (intro usable_apart_index [OF assms(1), where p = "\<lambda>k. if k = i then j else if k = j then i else k"])
    (auto simp: swap_at_def nth_list_update inj_on_def split: if_splits)

subsection \<open>Clipping\<close>

definition above_first_page :: "bool \<Rightarrow> nat set" where
  "above_first_page keep = (if keep then UNIV else {4096..})"

text \<open>Entries before index \<open>i\<close> are clipped and not empty.\<close>

definition clipped :: "bool \<Rightarrow> memmap \<Rightarrow> nat \<Rightarrow> bool" where
  "clipped keep m i \<longleftrightarrow>
     (\<forall>k<i. k < length m \<longrightarrow> me_length (m ! k) \<noteq> 0
        \<and> (me_type (m ! k) = MEMMAP_USABLE \<longrightarrow> cov (m ! k) \<subseteq> above_first_page keep))"

definition clip_kept :: "bool \<Rightarrow> memmap \<Rightarrow> memmap \<Rightarrow> bool" where
  "clip_kept keep m m' \<longleftrightarrow>
     (\<forall>t. t \<noteq> MEMMAP_USABLE \<longrightarrow> typed (set m') t = typed (set m) t)
     \<and> typed (set m') MEMMAP_USABLE \<inter> above_first_page keep =
        typed (set m) MEMMAP_USABLE \<inter> above_first_page keep"

lemma clip_kept_trans: "clip_kept k m m1 \<Longrightarrow> clip_kept k m1 m2 \<Longrightarrow> clip_kept k m m2"
  by (auto simp: clip_kept_def)

lemma clip_kept_refl [simp]: "clip_kept k m m"
  by (simp add: clip_kept_def)

lemma clip_kept_swap_remove:
  assumes "i < length m" and "cov (m ! i) = {} \<or>
    me_type (m ! i) = MEMMAP_USABLE \<and> cov (m ! i) \<inter> above_first_page keep = {}"
  shows "clip_kept keep m (swap_remove i m)"
  using assms
  by (auto simp: clip_kept_def set_swap_remove set_split_others [OF assms(1)] typed_insert)

lemma clip_kept_update:
  assumes "i < length m" and "me_type (m ! i) = MEMMAP_USABLE" and "me_type e = MEMMAP_USABLE"
    and "cov e \<inter> above_first_page keep = cov (m ! i) \<inter> above_first_page keep"
  shows "clip_kept keep m (m[i := e])"
  using assms
  by (auto simp: clip_kept_def set_update_others set_split_others [OF assms(1)] typed_insert)

text \<open>One round of the loop: entry \<open>i\<close> is dropped, clipped or passed over.\<close>

lemma sanitise_clip_cases:
  assumes i: "i < length m" and ok: "entry_ok (m ! i)"
  obtains
    (drop) "cov (m ! i) = {} \<or>
        me_type (m ! i) = MEMMAP_USABLE \<and> cov (m ! i) \<inter> above_first_page keep = {}"
      "sanitise_clip keep m i = sanitise_clip keep (swap_remove i m) i"
  | (clip) e where "me_type (m ! i) = MEMMAP_USABLE" "me_type e = MEMMAP_USABLE" "entry_ok e"
      "cov e = cov (m ! i) \<inter> above_first_page keep" "me_length e \<noteq> 0"
      "lo e = 4096" "lo (m ! i) < 4096" "hi e = hi (m ! i)"
      "sanitise_clip keep m i = sanitise_clip keep (m[i := e]) (Suc i)"
  | (pass) "me_length (m ! i) \<noteq> 0"
      "me_type (m ! i) = MEMMAP_USABLE \<Longrightarrow> cov (m ! i) \<subseteq> above_first_page keep"
      "sanitise_clip keep m i = sanitise_clip keep m (Suc i)"
proof -
  let ?e = "m ! i"
  note eq = sanitise_clip.simps [of keep m i, unfolded if_P [OF i] Let_def entry_top if_P [OF ok] option.case]
  have low: "me_base ?e < 0x1000 \<longleftrightarrow> lo ?e < 4096"
    by (simp add: word_less_nat_alt lo_def)
  have bound: "me_base ?e + me_length ?e \<le> 0x1000 \<longleftrightarrow> hi ?e \<le> 4096"
    using unat_entry_top [OF ok] by (simp add: word_le_nat_alt)
  show thesis
  proof (cases "me_type ?e = MEMMAP_USABLE \<and> \<not> keep \<and> me_base ?e < 0x1000")
    case True
    note eq = eq [unfolded if_P [OF True]]
    from True low have lowe: "lo ?e < 4096" by blast
    show thesis
    proof (cases "hi ?e \<le> 4096")
      case le: True
      then have "cov ?e \<inter> above_first_page keep = {}"
        using True by (auto simp: above_first_page_def cov_def)
      moreover from le bound have "me_base ?e + me_length ?e \<le> 0x1000" by blast
      note eq [unfolded if_P [OF this]]
      ultimately show thesis using True by (intro drop) simp_all
    next
      case False
      let ?f = "?e\<lparr>me_length := me_length ?e - (0x1000 - me_base ?e), me_base := 0x1000\<rparr>"
      from lowe have lb: "unat (me_base ?e) \<le> 4096" by (simp add: lo_def)
      then have d: "unat (0x1000 - me_base ?e) = 4096 - unat (me_base ?e)"
        by (simp add: unat_sub_exact)
      have l: "unat (me_length ?f) = hi ?e - 4096"
        using False d lb by (simp add: unat_sub_exact hi_def)
      have f: "lo ?f = 4096" "hi ?f = hi ?e"
        using l False by (simp_all add: lo_def hi_def [of ?f])
      have ne: "me_length ?f \<noteq> 0" using l False by (metis diff_is_0_eq unat_0)
      have "cov ?f = cov ?e \<inter> above_first_page keep"
        using f True lowe by (auto simp: cov_def above_first_page_def)
      moreover from False bound have nle: "\<not> me_base ?e + me_length ?e \<le> 0x1000" by blast
      note eq [unfolded if_not_P [OF nle] if_not_P [OF ne]]
      moreover have "entry_ok ?f" using ok f by (simp add: entry_ok_def)
      ultimately show thesis using True lowe f ne by (intro clip [of ?f]) simp_all
    qed
  next
    case False
    note eq = eq [unfolded if_not_P [OF False]]
    from False low have k: "me_type ?e = MEMMAP_USABLE \<Longrightarrow> cov ?e \<subseteq> above_first_page keep"
      by (auto simp: above_first_page_def cov_def)
    show thesis
    proof (cases "me_length ?e = 0")
      case True
      show thesis by (rule drop) (use True cov_empty_iff [of ?e] eq [unfolded if_P [OF True]] in simp_all)
    next
      case ne: False
      show thesis by (rule pass [OF ne k eq [unfolded if_not_P [OF ne]]])
    qed
  qed
qed

lemma usable_aligned_update:
  "usable_aligned m \<Longrightarrow> i < length m \<Longrightarrow>
    (me_type e = MEMMAP_USABLE \<Longrightarrow> 4096 dvd lo e \<and> 4096 dvd unat (me_length e)) \<Longrightarrow>
    usable_aligned (m[i := e])"
  by (auto simp: usable_aligned_def set_update_others set_split_others)

lemma usable_aligned_swap_remove:
  "usable_aligned m \<Longrightarrow> i < length m \<Longrightarrow> usable_aligned (swap_remove i m)"
  by (auto simp: usable_aligned_def set_swap_remove set_split_others)

lemma clipped_prefix:
  assumes "clipped keep m i" and "\<And>k. k < i \<Longrightarrow> k < length m' \<Longrightarrow> k < length m \<and> m' ! k = m ! k"
  shows "clipped keep m' i"
  using assms by (auto simp: clipped_def)

lemma clipped_Suc:
  assumes "clipped keep m i" and "me_length (m ! i) \<noteq> 0"
    and "me_type (m ! i) = MEMMAP_USABLE \<Longrightarrow> cov (m ! i) \<subseteq> above_first_page keep"
  shows "clipped keep m (Suc i)"
  using assms unfolding clipped_def less_Suc_eq by blast

lemma sanitise_clip_correct:
  assumes "all_ok m" and "clipped keep m i"
  shows "all_ok (sanitise_clip keep m i) \<and> clip_kept keep m (sanitise_clip keep m i)
    \<and> clipped keep (sanitise_clip keep m i) (length (sanitise_clip keep m i))
    \<and> (usable_apart m \<longrightarrow> usable_apart (sanitise_clip keep m i))
    \<and> (usable_aligned m \<longrightarrow> usable_aligned (sanitise_clip keep m i))"
  using assms
proof (induction "length m - i" arbitrary: m i rule: less_induct)
  case less
  note ok = less.prems(1) and cl = less.prems(2)
  show ?case
  proof (cases "i < length m")
    case False
    then have "sanitise_clip keep m i = m" by (simp add: sanitise_clip.simps [of keep m i])
    moreover have "clipped keep m (length m)" using cl False by (simp add: clipped_def)
    ultimately show ?thesis using ok by simp
  next
    case i: True
    from i all_ok_nth [OF ok i] show ?thesis
    proof (cases rule: sanitise_clip_cases [of i m keep])
      case drop
      let ?m = "swap_remove i m"
      have "clipped keep ?m i"
        by (rule clipped_prefix [OF cl]) (use i in \<open>auto simp: swap_remove_nth\<close>)
      with less.hyps [of ?m i] i all_ok_swap_remove [OF ok i] drop
      show ?thesis
        using clip_kept_trans [OF clip_kept_swap_remove [OF i drop(1)]]
          usable_apart_swap_remove [OF _ i] usable_aligned_swap_remove [OF _ i]
        by simp
    next
      case (clip e)
      let ?m = "m[i := e]"
      have "clipped keep ?m i" by (rule clipped_prefix [OF cl]) simp
      then have "clipped keep ?m (Suc i)"
        using clip i by (intro clipped_Suc) auto
      moreover have "usable_aligned m \<longrightarrow> usable_aligned ?m"
      proof
        assume al: "usable_aligned m"
        then have "4096 dvd lo (m ! i)" "4096 dvd unat (me_length (m ! i))"
          using clip(1) i by (simp_all add: usable_aligned_def)
        then have "4096 dvd hi e - lo e"
          using clip(6-8) by (simp add: hi_def [of "m ! i"] lo_def [of "m ! i"])
        with al clip i show "usable_aligned ?m"
          by (intro usable_aligned_update) (simp_all add: unat_me_length)
      qed
      moreover have "clip_kept keep m ?m" using clip by (intro clip_kept_update [OF i]) auto
      ultimately show ?thesis
        using less.hyps [of ?m "Suc i"] i all_ok_update [OF ok clip(3)] clip
          clip_kept_trans [of keep m ?m] usable_apart_update [OF _ i, of e] by simp
    next
      case pass
      with cl have "clipped keep m (Suc i)" by (intro clipped_Suc)
      with less.hyps [of m "Suc i"] i ok pass show ?thesis by simp
    qed
  qed
qed

text \<open>In terms of the denotation: usable bytes of the first page go, nothing else does.\<close>

lemma mem_of_clip:
  assumes kept: "clip_kept keep m m'" and "clipped keep m' (length m')"
  shows "mem_of m' t =
    (if t = MEMMAP_USABLE then mem_of m t \<inter> above_first_page keep else mem_of m t)"
proof -
  have "typed (set m') MEMMAP_USABLE \<subseteq> above_first_page keep"
    using assms(2) by (auto simp: typed_def clipped_def in_set_conv_nth)
  moreover have "claimed (set m') = claimed (set m)"
    using kept by (simp add: claimed_typed clip_kept_def)
  ultimately show ?thesis
    using kept by (auto simp: mem_of_def clip_kept_def)
qed

subsection \<open>Sorting\<close>

lemma sort_min_index_correct:
  assumes "k < length m" and "mn = me_base (m ! k)"
  shows "sort_min_index m i mn k < length m"
    and "sort_min_index m i mn k = k \<or> i \<le> sort_min_index m i mn k"
    and "me_base (m ! sort_min_index m i mn k) \<le> mn"
    and "\<forall>l. i \<le> l \<longrightarrow> l < length m \<longrightarrow> me_base (m ! sort_min_index m i mn k) \<le> me_base (m ! l)"
proof -
  let ?P = "\<lambda>i mn r. r < length m \<and> (r = k \<or> i \<le> r) \<and> me_base (m ! r) \<le> mn \<and>
    (\<forall>l. i \<le> l \<longrightarrow> l < length m \<longrightarrow> me_base (m ! r) \<le> me_base (m ! l))"
  have "?P i mn (sort_min_index m i mn k)"
    using assms
  proof (induction m i mn k rule: sort_min_index.induct)
    case (1 m i mn k)
    show ?case
    proof (cases "i < length m")
      case True
      have ge: "\<forall>l. i \<le> l \<longrightarrow> l < length m \<longrightarrow> b \<le> me_base (m ! l)"
        if "b \<le> me_base (m ! i)" "\<forall>l. Suc i \<le> l \<longrightarrow> l < length m \<longrightarrow> b \<le> me_base (m ! l)" for b
        using that by (metis le_eq_less_or_eq Suc_leI)
      show ?thesis
      proof (cases "me_base (m ! i) < mn")
        case less: True
        note ih = "1.IH"(1) [OF True this True refl]
        let ?r = "sort_min_index m (Suc i) (me_base (m ! i)) i"
        have r: "sort_min_index m i mn k = ?r"
          using True less by (simp add: sort_min_index.simps [of m i mn k])
        have "\<forall>l. i \<le> l \<longrightarrow> l < length m \<longrightarrow> me_base (m ! ?r) \<le> me_base (m ! l)"
          using ih by (intro ge) simp_all
        then show ?thesis unfolding r using ih less by auto
      next
        case False
        note ih = "1.IH"(2) [OF True this "1.prems"]
        let ?r = "sort_min_index m (Suc i) mn k"
        have r: "sort_min_index m i mn k = ?r"
          using True False by (simp add: sort_min_index.simps [of m i mn k])
        have "\<forall>l. i \<le> l \<longrightarrow> l < length m \<longrightarrow> me_base (m ! ?r) \<le> me_base (m ! l)"
          using ih False by (intro ge) (auto intro: order_trans)
        then show ?thesis unfolding r using ih by auto
      qed
    next
      case False
      then have "sort_min_index m i mn k = k" by (simp add: sort_min_index.simps [of m i mn k])
      then show ?thesis using "1.prems" False by auto
    qed
  qed
  then show "sort_min_index m i mn k < length m"
    and "sort_min_index m i mn k = k \<or> i \<le> sort_min_index m i mn k"
    and "me_base (m ! sort_min_index m i mn k) \<le> mn"
    and "\<forall>l. i \<le> l \<longrightarrow> l < length m \<longrightarrow> me_base (m ! sort_min_index m i mn k) \<le> me_base (m ! l)"
    by blast+
qed

lemma mset_swap_at: "k < length xs \<Longrightarrow> p < length xs \<Longrightarrow> mset (swap_at xs k p) = mset xs"
  by (simp add: swap_at_def mset_swap)

definition sorted_from_below :: "memmap \<Rightarrow> nat \<Rightarrow> bool" where
  "sorted_from_below m p \<longleftrightarrow>
     (\<forall>a<p. \<forall>b<length m. a < b \<longrightarrow> me_base (m ! a) \<le> me_base (m ! b))"

lemma sanitise_sort_correct:
  assumes "sorted_from_below m p"
  shows "mset (sanitise_sort m p) = mset m \<and> sorted (map me_base (sanitise_sort m p))
    \<and> (usable_apart m \<longrightarrow> usable_apart (sanitise_sort m p))"
  using assms
proof (induction m p rule: sanitise_sort.induct)
  case (1 m p)
  show ?case
  proof (cases "p + 1 < length m")
    case True
    let ?k = "sort_min_index m p (me_base (m ! p)) p"
    let ?m = "swap_at m ?k p"
    have p: "p < length m" using True by simp
    note k = sort_min_index_correct [OF p refl, of p]
    have "sorted_from_below ?m (Suc p)"
      unfolding sorted_from_below_def
    proof (intro allI impI)
      fix a b assume ab: "a < Suc p" "b < length ?m" "a < b"
      have kp: "p \<le> ?k" using k(2) by auto
      show "me_base (?m ! a) \<le> me_base (?m ! b)"
      proof (cases "a = p")
        case True
        then show ?thesis using k ab p by (auto simp: swap_at_def nth_list_update)
      next
        case False
        then show ?thesis
          using "1.prems" ab kp k(1) p
          by (auto simp: sorted_from_below_def swap_at_def nth_list_update)
      qed
    qed
    from "1.IH" [OF True this] True k(1) p show ?thesis
      using usable_apart_swap_at [OF _ k(1) p]
      by (simp add: sanitise_sort.simps [of m p] mset_swap_at)
  next
    case False
    then have "sorted (map me_base m)"
      using "1.prems" by (auto simp: sorted_iff_nth_mono_less sorted_from_below_def)
    then show ?thesis using False by (simp add: sanitise_sort.simps [of m p])
  qed
qed

subsection \<open>Merging\<close>

text \<open>Two neighbours the code would still join.\<close>

definition joinable :: "memmap \<Rightarrow> nat \<Rightarrow> bool" where
  "joinable m k \<longleftrightarrow>
     mergeable (me_type (m ! k)) \<and> me_type (m ! (k + 1)) = me_type (m ! k) \<and> lo (m ! (k + 1)) = hi (m ! k)"

definition join_at :: "memmap \<Rightarrow> nat \<Rightarrow> memmap" where
  "join_at m i =
     take i m @ [(m ! i)\<lparr>me_length := me_length (m ! i) + me_length (m ! (i + 1))\<rparr>] @ drop (i + 2) m"

lemma sanitise_merge_unfold:
  assumes "all_ok m"
  shows "sanitise_merge m i =
    (if i + 1 < length m then
       if joinable m i then sanitise_merge (join_at m i) i else sanitise_merge m (Suc i)
     else m)"
proof (cases "i + 1 < length m")
  case True
  have ok: "entry_ok (m ! i)" "entry_ok (m ! (i + 1))"
    using assms True by (auto intro: all_ok_nth)
  have "me_base (m ! (i + 1)) = me_base (m ! i) + me_length (m ! i) \<longleftrightarrow> lo (m ! (i + 1)) = hi (m ! i)"
    using unat_entry_top [OF ok(1)] by (simp add: lo_def word_unat_eq_iff)
  moreover have "CHECKED_ADD (me_length (m ! i)) (me_length (m ! (i + 1))) =
      Some (me_length (m ! i) + me_length (m ! (i + 1)))" if "lo (m ! (i + 1)) = hi (m ! i)"
    using ok that by (simp add: CHECKED_ADD_def extent)
  ultimately show ?thesis
    using True ok by (simp add: sanitise_merge.simps [of m i] entry_top joinable_def join_at_def)
qed (simp add: sanitise_merge.simps [of m i])

lemma length_join_at: "i + 1 < length m \<Longrightarrow> length (join_at m i) = length m - 1"
  by (simp add: join_at_def)

lemma nth_join_at:
  assumes "i + 1 < length m" and "k < length m - 1"
  shows "join_at m i ! k =
    (if k < i then m ! k
     else if k = i then (m ! i)\<lparr>me_length := me_length (m ! i) + me_length (m ! (i + 1))\<rparr>
     else m ! (k + 1))"
proof -
  consider "k < i" | "k = i" | n where "k = i + Suc n"
    by (metis add_Suc_right less_iff_Suc_add linorder_cases)
  then show ?thesis by cases (use assms in \<open>auto simp: join_at_def nth_append\<close>)
qed

lemma joined_extent:
  assumes "entry_ok e" and "entry_ok f" and "lo f = hi e"
  shows "lo (e\<lparr>me_length := me_length e + me_length f\<rparr>) = lo e"
    and "hi (e\<lparr>me_length := me_length e + me_length f\<rparr>) = hi f"
    and "cov (e\<lparr>me_length := me_length e + me_length f\<rparr>) = cov e \<union> cov f"
    and "entry_ok (e\<lparr>me_length := me_length e + me_length f\<rparr>)"
    and "unat (me_length e + me_length f) = unat (me_length e) + unat (me_length f)"
proof -
  show u: "unat (me_length e + me_length f) = unat (me_length e) + unat (me_length f)"
    using assms by (intro unat_add_exact) (simp add: extent)
  show lo: "lo (e\<lparr>me_length := me_length e + me_length f\<rparr>) = lo e" by (simp add: lo_def)
  show hi: "hi (e\<lparr>me_length := me_length e + me_length f\<rparr>) = hi f"
    using u assms(3) by (simp add: extent)
  show "entry_ok (e\<lparr>me_length := me_length e + me_length f\<rparr>)"
    using hi assms(2) by (simp add: entry_ok_def)
  show "cov (e\<lparr>me_length := me_length e + me_length f\<rparr>) = cov e \<union> cov f"
    using lo hi assms(3) lo_le_hi [of e] lo_le_hi [of f] by (auto simp: cov_def simp del: lo_le_hi)
qed

lemma set_join_at:
  assumes "i + 1 < length m"
  shows "set m = {m ! i, m ! (i + 1)} \<union> (set (take i m) \<union> set (drop (i + 2) m))"
    and "set (join_at m i) =
      insert ((m ! i)\<lparr>me_length := me_length (m ! i) + me_length (m ! (i + 1))\<rparr>)
        (set (take i m) \<union> set (drop (i + 2) m))"
proof -
  have "m = take i m @ m ! i # m ! (i + 1) # drop (i + 2) m"
    using assms by (metis Cons_nth_drop_Suc Suc_eq_plus1 add_2_eq_Suc' add_lessD1 append_take_drop_id)
  then have "set m = set (take i m @ m ! i # m ! (i + 1) # drop (i + 2) m)" by simp
  then show "set m = {m ! i, m ! (i + 1)} \<union> (set (take i m) \<union> set (drop (i + 2) m))" by auto
qed (auto simp: join_at_def)

lemma join_at_kept:
  assumes i: "i + 1 < length m" and ok: "all_ok m" and j: "joinable m i"
  shows "all_ok (join_at m i)" and "mem_of (join_at m i) = mem_of m"
    and "usable_apart m \<Longrightarrow> usable_apart (join_at m i)"
    and "usable_aligned m \<Longrightarrow> usable_aligned (join_at m i)"
    and "sorted (map me_base m) \<Longrightarrow> sorted (map me_base (join_at m i))"
    and "\<forall>e\<in>set m. me_length e \<noteq> 0 \<Longrightarrow> \<forall>e\<in>set (join_at m i). me_length e \<noteq> 0"
proof -
  let ?e = "m ! i" and ?f = "m ! (i + 1)"
  let ?g = "?e\<lparr>me_length := me_length ?e + me_length ?f\<rparr>"
  have oke: "entry_ok ?e" "entry_ok ?f" using i ok by (auto intro: all_ok_nth)
  have ty: "me_type ?f = me_type ?e" and adj: "lo ?f = hi ?e" using j by (auto simp: joinable_def)
  note g = joined_extent [OF oke adj] and st = set_join_at [OF i]
  show "all_ok (join_at m i)"
    using ok g(4) st by (auto simp: all_ok_def list_all_iff)
  have "typed (set (join_at m i)) t = typed (set m) t" for t
    using g(3) ty by (auto simp: st typed_insert)
  then show "mem_of (join_at m i) = mem_of m"
    by (simp add: mem_of_def claimed_typed fun_eq_iff)
  show "usable_aligned m \<Longrightarrow> usable_aligned (join_at m i)"
    using ty g(1,5) by (auto simp: usable_aligned_def st)
  show "\<forall>e\<in>set m. me_length e \<noteq> 0 \<Longrightarrow> \<forall>e\<in>set (join_at m i). me_length e \<noteq> 0"
    using g(5) by (auto simp: st simp flip: unat_eq_0)
  have nth: "join_at m i ! k = (if k < i then m ! k else if k = i then ?g else m ! (k + 1))"
    if "k < length m - 1" for k using nth_join_at [OF i that] .
  show "sorted (map me_base m) \<Longrightarrow> sorted (map me_base (join_at m i))"
    using i by (auto simp: sorted_iff_nth_mono_less nth length_join_at)
  show "usable_apart (join_at m i)" if ap: "usable_apart m"
    unfolding usable_apart_def
  proof (intro allI impI)
    fix k l assume kl: "k < length (join_at m i)" "l < length (join_at m i)" "k \<noteq> l"
      "me_type (join_at m i ! k) = MEMMAP_USABLE"
    let ?p = "\<lambda>k. if k \<le> i then k else k + 1"
    have cv: "cov (join_at m i ! k) \<subseteq> cov (m ! ?p k) \<union> (if k = i then cov ?f else {})
        \<and> me_type (join_at m i ! k) = me_type (m ! ?p k)"
      if "k < length (join_at m i)" for k
      using that i g(3) by (auto simp: nth length_join_at)
    have apart: "cov (m ! a) \<inter> cov (m ! b) = {}"
      if "a < length m" "b < length m" "a \<noteq> b" "me_type (m ! a) = MEMMAP_USABLE" for a b
      using ap that unfolding usable_apart_def by blast
    have kl': "?p k < length m" "?p l < length m" "?p k \<noteq> ?p l" "?p k \<noteq> i + 1" "?p l \<noteq> i + 1"
      using kl i by (auto simp: length_join_at)
    have use: "me_type (m ! ?p k) = MEMMAP_USABLE" using cv [OF kl(1)] kl(4) by simp
    have "cov (m ! ?p k) \<inter> cov ?f = {}" using apart [of "?p k" "i + 1"] kl' use i by simp
    moreover have "k = i \<Longrightarrow> cov ?f \<inter> cov (m ! ?p l) = {}"
      using apart [of "i + 1" "?p l"] kl' use i ty by simp
    moreover have "cov (m ! ?p k) \<inter> cov (m ! ?p l) = {}" using apart kl' use by simp
    ultimately show "cov (join_at m i ! k) \<inter> cov (join_at m i ! l) = {}"
      using cv [OF kl(1)] cv [OF kl(2)] kl(3) by (cases "k = i"; cases "l = i"; simp; blast)
  qed
qed

lemma sanitise_merge_correct:
  assumes "all_ok m" and "\<forall>k<i. k + 1 < length m \<longrightarrow> \<not> joinable m k"
  shows "all_ok (sanitise_merge m i) \<and> mem_of (sanitise_merge m i) = mem_of m
    \<and> (usable_apart m \<longrightarrow> usable_apart (sanitise_merge m i))
    \<and> (usable_aligned m \<longrightarrow> usable_aligned (sanitise_merge m i))
    \<and> (sorted (map me_base m) \<longrightarrow> sorted (map me_base (sanitise_merge m i)))
    \<and> ((\<forall>e\<in>set m. me_length e \<noteq> 0) \<longrightarrow> (\<forall>e\<in>set (sanitise_merge m i). me_length e \<noteq> 0))
    \<and> (\<forall>k. k + 1 < length (sanitise_merge m i) \<longrightarrow> \<not> joinable (sanitise_merge m i) k)"
  using assms
proof (induction "length m - i" arbitrary: m i rule: less_induct)
  case less
  note ok = less.prems(1) and nj = less.prems(2)
  show ?case
  proof (cases "i + 1 < length m")
    case False
    have "k < i" if "k + 1 < length m" for k using that False by simp
    moreover have "sanitise_merge m i = m" using sanitise_merge_unfold [OF ok, of i] False by simp
    ultimately show ?thesis using ok nj by simp
  next
    case i: True
    show ?thesis
    proof (cases "joinable m i")
      case True
      let ?m = "join_at m i"
      note j = join_at_kept [OF i ok True]
      have oke: "entry_ok (m ! i)" "entry_ok (m ! (i + 1))" using i ok by (auto intro: all_ok_nth)
      have adj: "lo (m ! (i + 1)) = hi (m ! i)" using True by (simp add: joinable_def)
      have "\<forall>k<i. k + 1 < length ?m \<longrightarrow> \<not> joinable ?m k"
      proof (intro allI impI)
        fix k assume k: "k < i" "k + 1 < length ?m"
        then have "\<not> joinable m k" using nj i by simp
        then show "\<not> joinable ?m k"
          using k i joined_extent(1) [OF oke adj]
          by (cases "Suc k = i") (auto simp: joinable_def nth_join_at length_join_at)
      qed
      moreover have "length ?m - i < length m - i" using i by (simp add: length_join_at)
      moreover have eq: "sanitise_merge m i = sanitise_merge ?m i"
        using sanitise_merge_unfold [OF ok, of i] i True by simp
      ultimately show ?thesis using less.hyps [of ?m i] j(1,3-) unfolding eq j(2) by blast
    next
      case False
      with nj have "\<forall>k<Suc i. k + 1 < length m \<longrightarrow> \<not> joinable m k" by (simp add: less_Suc_eq)
      moreover have "length m - Suc i < length m - i" using i by simp
      moreover have eq: "sanitise_merge m i = sanitise_merge m (Suc i)"
        using sanitise_merge_unfold [OF ok, of i] i False by simp
      ultimately show ?thesis using less.hyps [of m "Suc i"] ok unfolding eq by blast
    qed
  qed
qed

section \<open>The sanitiser\<close>

text \<open>
  The memory map the rest of the loader works on: every entry ends within the address
  space, is not empty, lies apart from all others if it is usable, and the entries are
  sorted by base.
\<close>

definition memmap_wf :: "memmap \<Rightarrow> bool" where
  "memmap_wf m \<longleftrightarrow>
     all_ok m \<and> usable_apart m \<and> sorted (map me_base m) \<and> (\<forall>e\<in>set m. me_length e \<noteq> 0)"

lemma mem_of_mset: "mset m = mset m' \<Longrightarrow> mem_of m = mem_of m'"
  by (metis mem_of_set_cong set_mset_mset)

lemma all_ok_mset: "mset m = mset m' \<Longrightarrow> all_ok m = all_ok m'"
  unfolding all_ok_def list_all_iff by (metis set_mset_mset)

text \<open>The three later loops together.\<close>

lemma sanitise_tail_correct:
  fixes keep m
  defines "r \<equiv> sanitise_merge (sanitise_sort (sanitise_clip keep m 0) 0) 0"
  assumes ok: "all_ok m"
  shows "all_ok r" and "sorted (map me_base r)" and "\<forall>e\<in>set r. me_length e \<noteq> 0"
    and "usable_apart m \<Longrightarrow> usable_apart r" and "usable_aligned m \<Longrightarrow> usable_aligned r"
    and "\<forall>k. k + 1 < length r \<longrightarrow> \<not> joinable r k"
    and "mem_of r t = (if t = MEMMAP_USABLE then mem_of m t \<inter> above_first_page keep else mem_of m t)"
proof -
  let ?c = "sanitise_clip keep m 0"
  let ?s = "sanitise_sort ?c 0"
  have "clipped keep m 0" by (simp add: clipped_def)
  note c = sanitise_clip_correct [OF ok this]
  have "sorted_from_below ?c 0" by (simp add: sorted_from_below_def)
  note s = sanitise_sort_correct [OF this]
  have oks: "all_ok ?s" using c s all_ok_mset by blast
  have ss: "set ?s = set ?c" using s by (metis set_mset_mset)
  note g = sanitise_merge_correct [OF oks, of 0, simplified, folded r_def]
  have ne: "\<forall>e\<in>set ?s. me_length e \<noteq> 0"
    using c unfolding ss clipped_def by (metis in_set_conv_nth)
  show "all_ok r" and "\<forall>k. k + 1 < length r \<longrightarrow> \<not> joinable r k" using g by auto
  show "sorted (map me_base r)" using g s by simp
  show "\<forall>e\<in>set r. me_length e \<noteq> 0" using g ne by simp
  show "usable_apart m \<Longrightarrow> usable_apart r" using g s c by simp
  show "usable_aligned m \<Longrightarrow> usable_aligned r"
    using g c ss by (simp add: usable_aligned_def)
  have "mem_of r = mem_of ?s" using g by simp
  also have "\<dots> = mem_of ?c" using s mem_of_mset by blast
  finally show "mem_of r t =
      (if t = MEMMAP_USABLE then mem_of m t \<inter> above_first_page keep else mem_of m t)"
    using mem_of_clip [of keep m ?c t] c by simp
qed

text \<open>The contract of the sanitiser, for any table the firmware hands over.\<close>

lemma pmm_sanitise_entries_Inr:
  assumes "pmm_sanitise_entries mx keep m al = Inr r" and "all_ok m"
  shows "memmap_wf r" and "\<forall>k. k + 1 < length r \<longrightarrow> \<not> joinable r k"
    and "t \<noteq> MEMMAP_USABLE \<Longrightarrow> mem_of r t = mem_of m t"
    and "\<not> al \<Longrightarrow> mem_of r MEMMAP_USABLE = mem_of m MEMMAP_USABLE \<inter> above_first_page keep"
    and "mem_of r MEMMAP_USABLE \<subseteq> mem_of m MEMMAP_USABLE \<inter> above_first_page keep"
    and "al \<Longrightarrow> usable_aligned r"
proof -
  obtain m1 where m1: "sanitise_outer mx al m 0 = Inr m1"
    and r: "r = sanitise_merge (sanitise_sort (sanitise_clip keep m1 0) 0) 0"
    using assms(1) by (auto simp: pmm_sanitise_entries_def res_bind_eq_Inr)
  have "settled al m 0" by (simp add: settled_def)
  note o = sanitise_outer_correct [OF m1 assms(2) this]
  then have ok1: "all_ok m1" and st: "settled al m1 (length m1)" and k: "mem_kept al m m1" by auto
  note t = sanitise_tail_correct [OF ok1, of keep, folded r]
  show "memmap_wf r" using t settled_apart [OF st] by (simp add: memmap_wf_def)
  show "\<forall>k. k + 1 < length r \<longrightarrow> \<not> joinable r k" by (rule t(6))
  show "t \<noteq> MEMMAP_USABLE \<Longrightarrow> mem_of r t = mem_of m t" using t(7) k by (simp add: mem_kept_def)
  show "\<not> al \<Longrightarrow> mem_of r MEMMAP_USABLE = mem_of m MEMMAP_USABLE \<inter> above_first_page keep"
    and "mem_of r MEMMAP_USABLE \<subseteq> mem_of m MEMMAP_USABLE \<inter> above_first_page keep"
    using t(7) k by (auto simp: mem_kept_def split: if_splits)
  show "al \<Longrightarrow> usable_aligned r" using t(5) settled_aligned st by simp
qed

text \<open>
  C1. Whatever table the firmware hands over, as long as each of its entries ends within the
  address space: when \<open>pmm_sanitise_entries\<close> returns, the table is well formed (sorted by
  base, no empty entry, every usable entry apart from all others), no two neighbours of a
  mergeable type are left unmerged, the memory of every other type is exactly what it was, and
  the usable memory is the memory that was usable and not claimed by an entry of another type,
  less the first page unless it is kept. With alignment the usable memory may only shrink, and
  every usable entry starts and ends on a page boundary.
\<close>

theorem sanitise_contract:
  assumes "all_ok m" and "pmm_sanitise_entries mx keep m al = Inr r"
  shows "memmap_wf r \<and> (\<forall>k. k + 1 < length r \<longrightarrow> \<not> joinable r k)
    \<and> (\<forall>t. t \<noteq> MEMMAP_USABLE \<longrightarrow> mem_of r t = mem_of m t)
    \<and> (if al
       then mem_of r MEMMAP_USABLE \<subseteq> mem_of m MEMMAP_USABLE \<inter> above_first_page keep \<and> usable_aligned r
       else mem_of r MEMMAP_USABLE = mem_of m MEMMAP_USABLE \<inter> above_first_page keep)"
  using pmm_sanitise_entries_Inr [OF assms(2,1)] by auto

theorem sanitise_contract_witness:
  "let m = [\<lparr>me_base = 0x5000, me_length = 0x3000, me_type = MEMMAP_USABLE\<rparr>,
            \<lparr>me_base = 0x6000, me_length = 0x1000, me_type = MEMMAP_RESERVED\<rparr>];
       r = [\<lparr>me_base = 0x5000, me_length = 0x1000, me_type = MEMMAP_USABLE\<rparr>,
            \<lparr>me_base = 0x6000, me_length = 0x1000, me_type = MEMMAP_RESERVED\<rparr>,
            \<lparr>me_base = 0x7000, me_length = 0x1000, me_type = MEMMAP_USABLE\<rparr>]
   in all_ok m \<and> pmm_sanitise_entries 256 False m True = Inr r \<and> memmap_wf r \<and> usable_aligned r"
proof -
  let ?m = "[\<lparr>me_base = 0x5000, me_length = 0x3000, me_type = MEMMAP_USABLE\<rparr>,
             \<lparr>me_base = 0x6000, me_length = 0x1000, me_type = MEMMAP_RESERVED\<rparr>]"
  let ?r = "[\<lparr>me_base = 0x5000, me_length = 0x1000, me_type = MEMMAP_USABLE\<rparr>,
             \<lparr>me_base = 0x6000, me_length = 0x1000, me_type = MEMMAP_RESERVED\<rparr>,
             \<lparr>me_base = 0x7000, me_length = 0x1000, me_type = MEMMAP_USABLE\<rparr>]"
  have "all_ok ?m" by (simp add: all_ok_def entry_ok_def hi_def lo_def)
  moreover have "pmm_sanitise_entries 256 False ?m True = Inr ?r"
    by (simp add: model_eval cong: let_weak_cong)
  ultimately show ?thesis using sanitise_contract [of ?m 256 False True ?r] by (simp add: Let_def)
qed

end
