(* ===== verification/Pmm_Range.thy ===== *)
theory Pmm_Range
  imports Pmm_Sanitise_Proof
begin

text \<open>
  Changing the type of a range of memory: \<^verbatim>\<open>pmm_new_entry\<close>,
  \<^verbatim>\<open>pmm_check_type\<close> and \<^verbatim>\<open>memmap_alloc_range_in\<close> of
  \<^verbatim>\<open>common/mm/pmm.s2.c\<close>. On what a memory map denotes, assigning a range to a type
  takes the range away from every type and gives it to that one; nothing else changes.
\<close>

section \<open>pmm_new_entry\<close>

function new_entry_loop :: "nat \<Rightarrow> u64 \<Rightarrow> u64 \<Rightarrow> memmap \<Rightarrow> nat \<Rightarrow> memmap res" where
  "new_entry_loop max_entries base rtop m i =
     (if i < length m then
        case CHECKED_ADD (me_base (m ! i)) (me_length (m ! i)) of
          None \<Rightarrow> new_entry_loop max_entries base rtop m (Suc i)
        | Some entry_top \<Rightarrow>
            if base \<le> me_base (m ! i) \<and> rtop \<ge> entry_top
            then new_entry_loop max_entries base rtop (swap_remove i m) i
            else if base \<le> me_base (m ! i) \<and> rtop < entry_top \<and> rtop > me_base (m ! i)
            then new_entry_loop max_entries base rtop
                   (m[i := (m ! i)\<lparr>me_base := me_base (m ! i) + (rtop - me_base (m ! i)),
                                   me_length := me_length (m ! i) - (rtop - me_base (m ! i))\<rparr>]) (Suc i)
            else if base > me_base (m ! i) \<and> base < entry_top \<and> rtop \<ge> entry_top
            then new_entry_loop max_entries base rtop
                   (m[i := (m ! i)\<lparr>me_length := me_length (m ! i) - (entry_top - base)\<rparr>]) (Suc i)
            else if base > me_base (m ! i) \<and> rtop < entry_top
            then
              if length m \<ge> max_entries then Inl (Panic ''Memory map exhausted.'')
              else new_entry_loop max_entries base rtop
                     (m[i := (m ! i)\<lparr>me_length := me_length (m ! i) - (entry_top - base)\<rparr>]
                      @ [\<lparr>me_base = rtop, me_length = entry_top - rtop, me_type = me_type (m ! i)\<rparr>])
                     (Suc i)
            else new_entry_loop max_entries base rtop m (Suc i)
      else Inr m)"
  by pat_completeness auto
termination
  by (relation "measures [\<lambda>(mx, b, t, m, i). length m - i, \<lambda>(mx, b, t, m, i). mx - length m]")
    (auto simp: swap_remove_def)

declare new_entry_loop.simps [simp del]

definition pmm_new_entry :: "nat \<Rightarrow> memmap \<Rightarrow> u64 \<Rightarrow> u64 \<Rightarrow> u32 \<Rightarrow> memmap res" where
  "pmm_new_entry max_entries m base len type =
     (case CHECKED_ADD base len of
        None \<Rightarrow> Inl (Panic ''pmm: Integer overflow in memory range calculation'')
      | Some rtop \<Rightarrow>
          res_bind (new_entry_loop max_entries base rtop m 0)
            (\<lambda>m'. if length m' \<ge> max_entries then Inl (Panic ''Memory map exhausted.'')
                  else Inr (m' @ [\<lparr>me_base = base, me_length = len, me_type = type\<rparr>])))"

section \<open>pmm_check_type\<close>

fun pmm_check_type :: "memmap \<Rightarrow> u64 \<Rightarrow> u64" where
  "pmm_check_type [] addr = -1"
| "pmm_check_type (e # m) addr =
     (case CHECKED_ADD (me_base e) (me_length e) of
        None \<Rightarrow> pmm_check_type m addr
      | Some entry_top \<Rightarrow>
          if addr \<ge> me_base e \<and> addr < entry_top then ucast (me_type e)
          else pmm_check_type m addr)"

section \<open>memmap_alloc_range_in\<close>

text \<open>
  The condition of the search loop on one entry: it may be overlaid and holds the whole range.
\<close>

definition holds_range :: "u32 \<Rightarrow> u64 \<Rightarrow> u64 \<Rightarrow> memmap_entry \<Rightarrow> bool" where
  "holds_range overlay_type base rtop e \<longleftrightarrow>
     \<not> (overlay_type \<noteq> 0 \<and> me_type e \<noteq> overlay_type) \<and>
     (case CHECKED_ADD (me_base e) (me_length e) of
        None \<Rightarrow> False
      | Some entry_top \<Rightarrow> base \<ge> me_base e \<and> base < entry_top \<and> rtop \<le> entry_top)"

text \<open>
  \<^verbatim>\<open>pmm_new_entry\<close> returns true or panics, so the first entry that holds the range
  ends the search, and the false branches after a call of it are never taken. The table is
  written back only on success.
\<close>

definition memmap_alloc_range_in ::
    "nat \<Rightarrow> bool \<Rightarrow> memmap \<Rightarrow> u64 \<Rightarrow> u64 \<Rightarrow> u32 \<Rightarrow> u32 \<Rightarrow> bool \<Rightarrow> bool \<Rightarrow> bool \<Rightarrow> (bool \<times> memmap) res" where
  "memmap_alloc_range_in max_entries keep_first_page m base len type overlay_type
       do_panic simulation new_entry =
     (if len = 0 then Inr (True, m)
      else if simulation \<and> new_entry then Inr (True, m)
      else case CHECKED_ADD base len of
        None \<Rightarrow> if do_panic then Inl (Panic ''Memory allocation overflow.'') else Inr (False, m)
      | Some rtop \<Rightarrow>
          let found = list_ex (holds_range overlay_type base rtop) m in
          if found \<and> simulation then Inr (True, m)
          else if \<not> found \<and> \<not> new_entry then
            if do_panic then Inl (Panic ''Memory allocation failure.'') else Inr (False, m)
          else
            res_bind (pmm_new_entry max_entries m base len type)
              (\<lambda>m1. res_bind (pmm_sanitise_entries max_entries keep_first_page m1 False)
                (\<lambda>m2. Inr (True, m2))))"

lemmas range_eval [model_eval] =
  new_entry_loop.simps pmm_new_entry_def holds_range_def memmap_alloc_range_in_def

section \<open>What a new entry does to the memory map\<close>

text \<open>The denotation with a range assigned to a type.\<close>

definition assign :: "nat set \<Rightarrow> u32 \<Rightarrow> (u32 \<Rightarrow> nat set) \<Rightarrow> u32 \<Rightarrow> nat set" where
  "assign R ty A t = A t - R \<union> (if t = ty then R else {})"

definition clear_below :: "nat set \<Rightarrow> memmap \<Rightarrow> nat \<Rightarrow> bool" where
  "clear_below R m i \<longleftrightarrow> (\<forall>k<i. k < length m \<longrightarrow> cov (m ! k) \<inter> R = {})"

definition same_outside :: "nat set \<Rightarrow> memmap \<Rightarrow> memmap \<Rightarrow> bool" where
  "same_outside R m m' \<longleftrightarrow> (\<forall>t. typed (set m') t - R = typed (set m) t - R)"

lemma same_outside_refl: "same_outside R m m"
  by (simp add: same_outside_def)

lemma same_outside_trans: "same_outside R m m' \<Longrightarrow> same_outside R m' m'' \<Longrightarrow> same_outside R m m''"
  by (simp add: same_outside_def)

lemma typed_split: "i < length m \<Longrightarrow>
    typed (set m) t = typed (others i m) t \<union> (if me_type (m ! i) = t then cov (m ! i) else {})"
  by (subst set_split_others [of i m]) (auto simp: typed_def)

text \<open>One round, in terms of the extents of the entry.\<close>

lemma new_entry_loop_step:
  fixes m :: memmap and i :: nat
  defines "e \<equiv> m ! i"
  defines "t \<equiv> me_base e + me_length e"
  assumes "i < length m" and "entry_ok e"
  shows "new_entry_loop mx base rtop m i =
    (if unat base \<le> lo e \<and> hi e \<le> unat rtop then new_entry_loop mx base rtop (swap_remove i m) i
     else if unat base \<le> lo e \<and> unat rtop < hi e \<and> lo e < unat rtop
     then new_entry_loop mx base rtop (m[i := cut_entry e rtop t]) (Suc i)
     else if lo e < unat base \<and> unat base < hi e \<and> hi e \<le> unat rtop
     then new_entry_loop mx base rtop (m[i := cut_entry e (me_base e) base]) (Suc i)
     else if lo e < unat base \<and> unat rtop < hi e
     then if mx \<le> length m then Inl (Panic ''Memory map exhausted.'')
          else new_entry_loop mx base rtop
                 (m[i := cut_entry e (me_base e) base] @ [cut_entry e rtop t]) (Suc i)
     else new_entry_loop mx base rtop m (Suc i))"
proof -
  have u1: "e\<lparr>me_base := me_base e + (rtop - me_base e), me_length := me_length e - (rtop - me_base e)\<rparr>
      = cut_entry e rtop t"
    and u2: "e\<lparr>me_length := me_length e - (t - base)\<rparr> = cut_entry e (me_base e) base"
    and u3: "\<lparr>me_base = rtop, me_length = t - rtop, me_type = me_type e\<rparr> = cut_entry e rtop t"
    by (simp_all add: cut_entry_def t_def)
  have ext: "unat t = hi e" "unat (me_base e) = lo e"
    using assms(4) by (simp_all add: unat_entry_top lo_def t_def)
  show ?thesis
    using assms(3,4)
    by (subst new_entry_loop.simps)
      (simp only: e_def [symmetric] entry_top t_def [symmetric] u1 u2 u3 word_le_nat_alt
        word_less_nat_alt ext if_True option.case)
qed

lemma clear_below_update:
  "clear_below R m i \<Longrightarrow> cov e \<inter> R = {} \<Longrightarrow> clear_below R (m[i := e]) (Suc i)"
  "clear_below R m i \<Longrightarrow> cov e = A - R \<Longrightarrow> clear_below R (m[i := e]) (Suc i)"
  by (auto simp: clear_below_def nth_list_update less_Suc_eq)

lemma clear_below_append:
  "clear_below R m n \<Longrightarrow> n \<le> length m \<Longrightarrow> clear_below R (m @ m') n"
  by (auto simp: clear_below_def nth_append)

lemma clear_below_swap_remove:
  "clear_below R m i \<Longrightarrow> i < length m \<Longrightarrow> clear_below R (swap_remove i m) i"
  by (auto simp: clear_below_def swap_remove_def nth_butlast)

lemma same_outside_update:
  assumes "i < length m" and "me_type e = me_type (m ! i)" and "cov e - R = cov (m ! i) - R"
  shows "same_outside R m (m[i := e])"
  using assms unfolding same_outside_def
  by (auto simp: typed_split [OF assms(1)] set_update_others typed_insert)

lemma same_outside_split:
  assumes "i < length m" and "me_type e = me_type (m ! i)" and "me_type f = me_type (m ! i)"
    and "cov e \<union> cov f - R = cov (m ! i) - R"
  shows "same_outside R m (m[i := e] @ [f])"
proof -
  have s: "set (m[i := e] @ [f]) = insert f (insert e (others i m))"
    using assms(1) by (simp add: set_update_others)
  show ?thesis
    using assms(2-) unfolding same_outside_def s typed_split [OF assms(1)] typed_insert by auto
qed

lemma same_outside_remove:
  assumes "i < length m" and "cov (m ! i) \<subseteq> R"
  shows "same_outside R m (swap_remove i m)"
  using assms unfolding same_outside_def
  by (auto simp: typed_split [OF assms(1)] set_swap_remove)

text \<open>
  One round leads to a table that is the same outside the range and holds nothing of it
  before the next index, and comes closer to the end of the loop.
\<close>

lemma new_entry_loop_progress:
  fixes base rtop :: u64
  defines "R \<equiv> {unat base..<unat rtop}"
  assumes i: "i < length m" and ok: "all_ok m" and le: "unat base \<le> unat rtop"
    and cl: "clear_below R m i"
  obtains (full) "new_entry_loop mx base rtop m i = Inl (Panic ''Memory map exhausted.'')"
      "mx \<le> length m" "lo (m ! i) < unat base" "unat rtop < hi (m ! i)"
  | (onward) n j where "new_entry_loop mx base rtop m i = new_entry_loop mx base rtop n j"
      "all_ok n" "clear_below R n j" "same_outside R m n"
      "((n, j), (m, i)) \<in> measures [\<lambda>(m, i). length m - i, \<lambda>(m, i). mx - length m]"
proof -
  let ?e = "m ! i"
  let ?t = "me_base ?e + me_length ?e"
  let ?lo = "cut_entry ?e (me_base ?e) base" and ?hi = "cut_entry ?e rtop ?t"
  have oke: "entry_ok ?e" using ok i by (rule all_ok_nth)
  have ut: "unat ?t = hi ?e" "unat (me_base ?e) = lo ?e" using oke by (simp_all add: unat_entry_top lo_def)
  note step = new_entry_loop_step [of i m mx base rtop, OF i oke]
  note hi = cut_entry_extent [of rtop ?t ?e, unfolded ut]
    and lo = cut_entry_extent [of "me_base ?e" base ?e, unfolded ut]
  consider (all) "unat base \<le> lo ?e" "hi ?e \<le> unat rtop"
    | (bottom) "unat base \<le> lo ?e" "unat rtop < hi ?e" "lo ?e < unat rtop"
    | (upper) "lo ?e < unat base" "unat base < hi ?e" "hi ?e \<le> unat rtop"
    | (nested) "lo ?e < unat base" "unat rtop < hi ?e" "length m < mx"
    | (exhausted) "lo ?e < unat base" "unat rtop < hi ?e" "mx \<le> length m"
    | (below) "unat base \<le> lo ?e" "unat rtop < hi ?e" "unat rtop \<le> lo ?e"
    | (above) "lo ?e < unat base" "hi ?e \<le> unat base" "hi ?e \<le> unat rtop"
    by linarith
  then show thesis
  proof cases
    case all
    then have "cov ?e \<subseteq> R" by (auto simp: cov_def R_def)
    then show thesis using step all i ok cl
      by (intro onward [of "swap_remove i m" i])
        (auto simp: same_outside_remove all_ok_swap_remove clear_below_swap_remove length_swap_remove)
  next
    case bottom
    then have "cov ?hi = cov ?e - R" using hi by (auto simp: cov_def R_def)
    then show thesis using step bottom i ok cl hi
      by (intro onward [of "m[i := ?hi]" "Suc i"])
        (auto simp: same_outside_update all_ok_update intro: clear_below_update(2))
  next
    case upper
    then have "cov ?lo = cov ?e - R" using lo by (auto simp: cov_def R_def)
    then show thesis using step upper i ok cl lo
      by (intro onward [of "m[i := ?lo]" "Suc i"])
        (auto simp: same_outside_update all_ok_update intro: clear_below_update(2))
  next
    case nested
    then have c: "cov ?lo \<union> cov ?hi = cov ?e - R" "cov ?lo \<inter> R = {}"
      using lo hi le by (auto simp: cov_def R_def)
    have "all_ok (m[i := ?lo] @ [?hi])"
      using nested lo hi all_ok_update [OF ok, of ?lo i] by (simp add: all_ok_def)
    moreover have "clear_below R (m[i := ?lo] @ [?hi]) (Suc i)"
      using i clear_below_update(1) [OF cl c(2)] by (intro clear_below_append) auto
    moreover have "same_outside R m (m[i := ?lo] @ [?hi])"
      using c nested lo hi by (intro same_outside_split [OF i]) auto
    ultimately show thesis using step nested i
      by (intro onward [of "m[i := ?lo] @ [?hi]" "Suc i"]) auto
  next
    case exhausted
    then show thesis using step by (intro full) auto
  qed (use step i ok cl in \<open>auto intro!: onward [of m "Suc i"] same_outside_refl
         simp: clear_below_def less_Suc_eq cov_def R_def\<close>)
qed

lemma new_entry_loop_correct:
  fixes base rtop :: u64
  defines "R \<equiv> {unat base..<unat rtop}"
  assumes "new_entry_loop mx base rtop m i = Inr m'" and "all_ok m" and "unat base \<le> unat rtop"
    and "clear_below R m i"
  shows "all_ok m' \<and> clear_below R m' (length m') \<and> same_outside R m m'"
  using assms(2-)
proof (induction "(m, i)" arbitrary: m i
    rule: wf_induct_rule [OF wf_measures [of "[\<lambda>(m, i). length m - i, \<lambda>(m, i). mx - length m]"]])
  case 1
  show ?case
  proof (cases "i < length m")
    case False
    then have "m' = m" using "1.prems"(1) by (subst (asm) new_entry_loop.simps) simp
    moreover have "clear_below R m (length m)" using "1.prems"(4) False by (simp add: clear_below_def)
    ultimately show ?thesis using "1.prems"(2) by (simp add: same_outside_refl)
  next
    case True
    note c = "1.prems"(4) [unfolded R_def]
    show ?thesis
    proof (cases rule: new_entry_loop_progress [OF True "1.prems"(2,3) c, of mx, case_names full onward])
      case (onward n j)
      then show ?thesis using "1.hyps" [of n j] "1.prems" same_outside_trans
        unfolding R_def by simp
    qed (use "1.prems" in simp)
  qed
qed

text \<open>
  On the denotation a new entry is an assignment of its range.
\<close>

lemma claimed_outside:
  assumes "\<And>t. typed E' t = typed E t - R"
  shows "claimed E' = claimed E - R"
  by (auto simp: claimed_typed assms)

lemma pmm_new_entry_Inr:
  assumes run: "pmm_new_entry mx m base len ty = Inr m'" and ok: "all_ok m"
  defines "R \<equiv> {unat base..<unat base + unat len}"
  shows "all_ok m'" and "mem_of m' t = assign R ty (mem_of m) t"
    and "unat base + unat len < 2 ^ 64" and "length m' \<le> mx"
proof -
  obtain rtop m1 where rt: "CHECKED_ADD base len = Some rtop"
    and l: "new_entry_loop mx base rtop m 0 = Inr m1" and lt: "length m1 < mx"
    and m': "m' = m1 @ [\<lparr>me_base = base, me_length = len, me_type = ty\<rparr>]"
    using run by (auto simp: pmm_new_entry_def split: option.splits if_splits)
  have top: "unat rtop = unat base + unat len" and fits: "unat base + unat len < 2 ^ 64"
    using rt CHECKED_ADD_unat [OF rt] by (auto simp: checked_simps)
  have R: "R = {unat base..<unat rtop}" by (simp add: R_def top)
  have c: "all_ok m1" "clear_below R m1 (length m1)" "same_outside R m m1"
    using new_entry_loop_correct [OF l ok] by (simp_all add: top R_def clear_below_def)
  let ?e = "\<lparr>me_base = base, me_length = len, me_type = ty\<rparr>"
  have e: "cov ?e = R" "entry_ok ?e" using fits by (simp_all add: cov_def extent R_def)
  show "all_ok m'" using c(1) e(2) by (simp add: m' all_ok_def)
  have "typed (set m1) t \<inter> R = {}" for t
    using c(2) by (auto simp: typed_def clear_below_def in_set_conv_nth)
  then have t1: "typed (set m1) t = typed (set m) t - R" for t
    using c(3) unfolding same_outside_def by blast
  have s: "set m' = insert ?e (set m1)" by (simp add: m')
  show "mem_of m' t = assign R ty (mem_of m) t"
    unfolding mem_of_def assign_def s typed_insert claimed_insert t1 claimed_outside [of "set m1" "set m" R, OF t1]
    using e(1) by auto
  show "unat base + unat len < 2 ^ 64" by (fact fits)
  show "length m' \<le> mx" using lt m' by simp
qed

section \<open>The contract of memmap_alloc_range_in\<close>

text \<open>
  The map between two calls: well formed, with the first page clipped unless it is kept.
\<close>

definition map_inv :: "bool \<Rightarrow> memmap \<Rightarrow> bool" where
  "map_inv keep m \<longleftrightarrow> memmap_wf m \<and> mem_of m MEMMAP_USABLE \<subseteq> above_first_page keep"

lemma map_inv_ok: "map_inv keep m \<Longrightarrow> all_ok m"
  by (simp add: map_inv_def memmap_wf_def)

text \<open>What the sanitiser makes of a denotation.\<close>

definition clip_usable :: "bool \<Rightarrow> (u32 \<Rightarrow> nat set) \<Rightarrow> u32 \<Rightarrow> nat set" where
  "clip_usable keep A t = (if t = MEMMAP_USABLE then A t \<inter> above_first_page keep else A t)"

lemma sanitise_inv:
  assumes "pmm_sanitise_entries mx keep m al = Inr r" and "all_ok m"
  shows "map_inv keep r"
  using pmm_sanitise_entries_Inr(1,5) [OF assms] by (simp add: map_inv_def)

lemma sanitise_mem_of:
  assumes "pmm_sanitise_entries mx keep m False = Inr r" and "all_ok m"
  shows "mem_of r t = clip_usable keep (mem_of m) t"
  using pmm_sanitise_entries_Inr(3,4) [OF assms] by (simp add: clip_usable_def)

lemma holds_range_iff:
  assumes "unat base < unat rtop"
  shows "holds_range ov base rtop e \<longleftrightarrow>
    (ov = 0 \<or> me_type e = ov) \<and> entry_ok e \<and> {unat base..<unat rtop} \<subseteq> cov e"
proof (cases "entry_ok e")
  case True
  then have "unat (me_base e + me_length e) = hi e" "unat (me_base e) = lo e"
    by (simp_all add: unat_entry_top lo_def)
  then show ?thesis using True assms
    by (auto simp: holds_range_def entry_top word_nat cov_def)
qed (auto simp: holds_range_def entry_top)

lemma memmap_alloc_range_in_Inr:
  assumes run: "memmap_alloc_range_in mx keep m base len ty ov dp False ne = Inr (b, m')"
    and inv: "map_inv keep m" and len: "len \<noteq> 0"
  defines "R \<equiv> {unat base..<unat base + unat len}"
  shows "map_inv keep m'" and "\<not> b \<Longrightarrow> m' = m \<and> \<not> dp"
    and "b \<Longrightarrow> mem_of m' t = clip_usable keep (assign R ty (mem_of m)) t"
    and "b \<Longrightarrow> unat base + unat len < 2 ^ 64"
    and "b \<Longrightarrow> \<not> ne \<Longrightarrow> \<exists>e\<in>set m. (ov = 0 \<or> me_type e = ov) \<and> R \<subseteq> cov e"
proof -
  have ok: "all_ok m" using inv by (rule map_inv_ok)
  consider (no) "\<not> b" "m' = m" "\<not> dp"
    | (yes) rtop m1 where "b" "CHECKED_ADD base len = Some rtop"
        "pmm_new_entry mx m base len ty = Inr m1" "pmm_sanitise_entries mx keep m1 False = Inr m'"
        "ne \<or> list_ex (holds_range ov base rtop) m"
    using run len by (auto simp: memmap_alloc_range_in_def Let_def split: option.splits if_splits)
  then have "map_inv keep m' \<and> (\<not> b \<longrightarrow> m' = m \<and> \<not> dp) \<and>
    (b \<longrightarrow> mem_of m' t = clip_usable keep (assign R ty (mem_of m)) t \<and> unat base + unat len < 2 ^ 64 \<and>
      (\<not> ne \<longrightarrow> (\<exists>e\<in>set m. (ov = 0 \<or> me_type e = ov) \<and> R \<subseteq> cov e)))"
  proof cases
    case no
    then show ?thesis using inv by simp
  next
    case yes
    note n = pmm_new_entry_Inr [OF yes(3) ok]
    have s: "map_inv keep m'" "mem_of m' t = clip_usable keep (mem_of m1) t"
      using sanitise_inv [OF yes(4) n(1)] sanitise_mem_of [OF yes(4) n(1)] by auto
    have "unat rtop = unat base + unat len" using yes(2) by (rule CHECKED_ADD_unat)
    moreover have "0 < unat len" using len by (simp add: unat_gt_0)
    ultimately have "\<not> ne \<longrightarrow> (\<exists>e\<in>set m. (ov = 0 \<or> me_type e = ov) \<and> R \<subseteq> cov e)"
      using yes(5) by (auto simp: list_ex_iff holds_range_iff R_def)
    then show ?thesis using s n(2,3) yes(1) by (simp add: clip_usable_def R_def)
  qed
  then show "map_inv keep m'" "\<not> b \<Longrightarrow> m' = m \<and> \<not> dp"
    "b \<Longrightarrow> mem_of m' t = clip_usable keep (assign R ty (mem_of m)) t"
    "b \<Longrightarrow> unat base + unat len < 2 ^ 64"
    "b \<Longrightarrow> \<not> ne \<Longrightarrow> \<exists>e\<in>set m. (ov = 0 \<or> me_type e = ov) \<and> R \<subseteq> cov e" by blast+
qed

section \<open>When the table has room\<close>

text \<open>
  On a table whose usable entries are apart the sanitiser splits nothing, so it cannot run
  out of entries.
\<close>

lemma sanitise_pair_apart:
  assumes "j \<noteq> i" and e: "entry_ok (m ! i)" and r: "entry_ok (m ! j)"
    and "cov (m ! i) \<inter> cov (m ! j) = {}"
  shows "sanitise_pair mx m i j = PCont m \<or> sanitise_pair mx m i j = PBreak m"
proof (cases "me_length (m ! j) = 0")
  case True
  then show ?thesis using assms(1) e r
    by (simp add: sanitise_pair_def entry_top Let_def split: option.split)
next
  case ne: False
  let ?e = "m ! i" and ?r = "m ! j"
  let ?t = "me_base ?e + me_length ?e" and ?rt = "me_base ?r + me_length ?r"
  have lt: "lo ?r < hi ?r" using ne cov_empty_iff [of ?r] by (simp add: cov_def)
  have dis: "hi ?e \<le> lo ?r \<or> hi ?r \<le> lo ?e \<or> lo ?e = hi ?e"
    using assms(4) lt lo_le_hi [of ?e] unfolding cov_disjoint_iff by (auto simp: cov_def)
  have same: "m[i := cut_entry ?e (me_base ?e) ?t] = m" using e by (simp add: cut_entry_self)
  have eq: "?rt = me_base ?e" if "hi ?r = lo ?e"
    using that e r by (metis lo_def unat_entry_top word_unat_eq_iff)
  show ?thesis
  proof (cases "lo ?r \<le> lo ?e \<and> hi ?e \<le> hi ?r")
    case True
    then have "me_length ?e = 0" using dis lt cov_empty_iff [of ?e] by (auto simp: cov_def)
    then show ?thesis using same True by (simp add: sanitise_pair_eq [OF assms(1) e r ne] Let_def)
  next
    case False
    then have nn: "\<not> (lo ?e \<le> lo ?r \<and> lo ?r < hi ?e)" "lo ?e \<le> hi ?r \<and> hi ?r < hi ?e \<longrightarrow> hi ?r = lo ?e"
      using dis lt by auto
    then show ?thesis using False same eq unat_entry_top [OF e]
      by (auto simp: sanitise_pair_eq [OF assms(1) e r ne] Let_def)
  qed
qed

lemma sanitise_inner_apart:
  assumes "all_ok m" and "i < length m" and "me_type (m ! i) = MEMMAP_USABLE" and "usable_apart m"
  shows "sanitise_inner mx m i j = Inr (False, m)"
  using assms
proof (induction "length m - j" arbitrary: j rule: less_induct)
  case less
  have "sanitise_pair mx m i j = PCont m \<or> sanitise_pair mx m i j = PBreak m" if "j < length m"
  proof (cases "j = i")
    case False
    then show ?thesis using that less.prems
      by (intro sanitise_pair_apart) (auto simp: all_ok_nth usable_apart_def)
  qed (simp add: sanitise_pair_def)
  then show ?case using less by (subst sanitise_inner.simps) auto
qed

lemma sanitise_outer_apart:
  assumes "all_ok m" and "usable_apart m"
  shows "\<exists>m'. sanitise_outer mx al m i = Inr m'"
  using assms
proof (induction mx al m i rule: sanitise_outer.induct)
  case (1 mx al m i)
  show ?case
  proof (cases "i < length m \<and> me_type (m ! i) = MEMMAP_USABLE")
    case False
    then show ?thesis using 1 by (subst sanitise_outer.simps) auto
  next
    case True
    then have inner: "sanitise_inner mx m i 0 = Inr (False, m)"
      using 1 by (intro sanitise_inner_apart) auto
    let ?b = "me_base (m ! i)" and ?l = "me_length (m ! i)"
    note IH = "1.IH"(2-5) [OF _ _ inner refl]
    have rm: "all_ok (swap_remove i m)" "usable_apart (swap_remove i m)"
      using 1 True by (auto intro: all_ok_swap_remove usable_apart_swap_remove)
    have al: "all_ok (m[i := (m ! i)\<lparr>me_base := b, me_length := l\<rparr>])
        \<and> usable_apart (m[i := (m ! i)\<lparr>me_base := b, me_length := l\<rparr>])"
      if "align_entry ?b ?l = Some (b, l)" for b l
    proof -
      note a = align_entry_Some(1,2) [OF that]
      let ?e = "(m ! i)\<lparr>me_base := b, me_length := l\<rparr>"
      have "entry_ok (m ! i)" using 1 True by (simp add: all_ok_nth)
      then have "entry_ok ?e" "cov ?e \<subseteq> cov (m ! i)" using a by (auto simp: extent cov_def)
      then show ?thesis using 1 True by (simp add: all_ok_update usable_apart_update)
    qed
    consider (zero) "?l = 0" | (drop) "?l \<noteq> 0" "al" "align_entry ?b ?l = None"
      | (aligned) b l where "?l \<noteq> 0" "al" "align_entry ?b ?l = Some (b, l)" | (plain) "?l \<noteq> 0" "\<not> al"
      by (metis not_None_eq surj_pair)
    then show ?thesis
    proof cases
      case zero
      then show ?thesis using True inner IH(1) rm by (subst sanitise_outer.simps) simp
    next
      case drop
      then show ?thesis using True inner IH(2) rm by (subst sanitise_outer.simps) simp
    next
      case aligned
      then show ?thesis using True inner IH(3) al by (subst sanitise_outer.simps) simp
    next
      case plain
      then show ?thesis using True inner IH(4) "1.prems" by (subst sanitise_outer.simps) simp
    qed
  qed
qed

lemma sanitise_apart:
  assumes "all_ok m" and "usable_apart m"
  shows "\<exists>r. pmm_sanitise_entries mx keep m al = Inr r"
  using sanitise_outer_apart [OF assms] by (auto simp: pmm_sanitise_entries_def)

lemma usable_apart_append:
  assumes "usable_apart m"
    and "\<And>f. f \<in> set m \<Longrightarrow> me_type f = MEMMAP_USABLE \<or> me_type e = MEMMAP_USABLE \<Longrightarrow> cov f \<inter> cov e = {}"
  shows "usable_apart (m @ [e])"
  unfolding usable_apart_def
proof (intro allI impI)
  fix k l assume kl: "k < length (m @ [e])" "l < length (m @ [e])" "k \<noteq> l"
    "me_type ((m @ [e]) ! k) = MEMMAP_USABLE"
  then consider (old) "k < length m" "l < length m" | (newk) "k = length m" "l < length m"
    | (newl) "k < length m" "l = length m" by fastforce
  then show "cov ((m @ [e]) ! k) \<inter> cov ((m @ [e]) ! l) = {}"
  proof cases
    case old
    then show ?thesis using assms(1) kl by (simp add: usable_apart_def nth_append)
  next
    case newk
    then show ?thesis using assms(2) [of "m ! l"] kl by (simp add: nth_append Int_commute)
  next
    case newl
    then show ?thesis using assms(2) [of "m ! k"] kl by (simp add: nth_append)
  qed
qed

lemma new_entry_loop_skip:
  assumes "unat base < unat rtop" and "i < length m" and "all_ok m"
    and "me_length (m ! i) \<noteq> 0" and "cov (m ! i) \<inter> {unat base..<unat rtop} = {}"
  shows "new_entry_loop mx base rtop m i = new_entry_loop mx base rtop m (Suc i)"
proof -
  have lt: "lo (m ! i) < hi (m ! i)" using assms(4) cov_empty_iff [of "m ! i"] by (simp add: cov_def)
  then have "hi (m ! i) \<le> unat base \<or> unat rtop \<le> lo (m ! i)"
    using assms(1,5) by (auto simp: cov_def)
  then show ?thesis using assms(1-3) lt by (subst new_entry_loop_step) (auto simp: all_ok_nth)
qed

lemma new_entry_loop_apart:
  assumes "unat base < unat rtop" and "all_ok m"
    and "\<And>e. e \<in> set m \<Longrightarrow> me_length e \<noteq> 0 \<and> cov e \<inter> {unat base..<unat rtop} = {}"
  shows "new_entry_loop mx base rtop m i = Inr m"
  using assms
proof (induction "length m - i" arbitrary: i rule: less_induct)
  case less
  show ?case
  proof (cases "i < length m")
    case True
    then show ?thesis using less by (simp add: new_entry_loop_skip)
  qed (subst new_entry_loop.simps, simp)
qed

text \<open>A range within one usable entry of a table that is apart: at most one more entry.\<close>

lemma new_entry_loop_within:
  fixes base rtop :: u64
  defines "R \<equiv> {unat base..<unat rtop}"
  assumes lt: "unat base < unat rtop" and ok: "all_ok m" and ap: "usable_apart m"
    and ne: "\<And>e. e \<in> set m \<Longrightarrow> me_length e \<noteq> 0"
    and k: "k < length m" "me_type (m ! k) = MEMMAP_USABLE" "R \<subseteq> cov (m ! k)" and mx: "length m < mx"
  shows "\<exists>n. new_entry_loop mx base rtop m k = Inr n \<and> length n \<le> Suc (length m) \<and> usable_apart n"
proof -
  let ?e = "m ! k"
  let ?t = "me_base ?e + me_length ?e"
  let ?lo = "cut_entry ?e (me_base ?e) base" and ?hi = "cut_entry ?e rtop ?t"
  have oke: "entry_ok ?e" using ok k by (simp add: all_ok_nth)
  have ut: "unat ?t = hi ?e" "unat (me_base ?e) = lo ?e" using oke by (simp_all add: unat_entry_top lo_def)
  note hi = cut_entry_extent [of rtop ?t ?e, unfolded ut]
    and lo = cut_entry_extent [of "me_base ?e" base ?e, unfolded ut]
  have in_e: "lo ?e \<le> unat base" "unat rtop \<le> hi ?e" using k(3) lt by (auto simp: R_def cov_def)
  have oth: "cov f \<inter> cov ?e = {}" "me_length f \<noteq> 0" "entry_ok f" if "f \<in> others k m" for f
    using that ap k ne ok by (auto simp: others_def usable_apart_def all_ok_nth Int_commute)
  have fin: "new_entry_loop mx base rtop n j = Inr n"
    if "set n \<subseteq> others k m \<union> {f. entry_ok f \<and> lo f < hi f \<and> cov f \<inter> R = {}}" for n j
  proof (rule new_entry_loop_apart [OF lt])
    have pos: "me_length f \<noteq> 0" if "lo f < hi f" for f using that cov_empty_iff [of f] by (simp add: cov_def)
    show "all_ok n" using that oth by (auto simp: all_ok_def list_all_iff)
    show "\<And>f. f \<in> set n \<Longrightarrow> me_length f \<noteq> 0 \<and> cov f \<inter> {unat base..<unat rtop} = {}"
      using that oth pos k(3) unfolding R_def by blast
  qed
  note step = new_entry_loop_step [OF k(1) oke, of mx base rtop]
  consider (all) "unat base = lo ?e" "unat rtop = hi ?e" | (bottom) "unat base = lo ?e" "unat rtop < hi ?e"
    | (upper) "lo ?e < unat base" "unat rtop = hi ?e" | (nested) "lo ?e < unat base" "unat rtop < hi ?e"
    using in_e by linarith
  then show ?thesis
  proof cases
    case all
    then show ?thesis using step fin [of "swap_remove k m" k] k ap
      by (auto simp: set_swap_remove usable_apart_swap_remove)
  next
    case bottom
    then show ?thesis using step lt hi k ap fin [of "m[k := ?hi]" "Suc k"]
      by (auto simp: set_update_others cov_def R_def intro!: usable_apart_update)
  next
    case upper
    then show ?thesis using step lt lo k ap fin [of "m[k := ?lo]" "Suc k"]
      by (auto simp: set_update_others cov_def R_def intro!: usable_apart_update)
  next
    case nested
    let ?n = "m[k := ?lo] @ [?hi]"
    have c: "cov ?lo \<subseteq> cov ?e" "cov ?hi \<subseteq> cov ?e" "cov ?lo \<inter> cov ?hi = {}"
      using nested lt lo hi by (auto simp: cov_def)
    have "usable_apart ?n"
    proof (rule usable_apart_append)
      show "usable_apart (m[k := ?lo])" using c(1) lo nested k ap by (intro usable_apart_update) auto
      show "\<And>f. f \<in> set (m[k := ?lo]) \<Longrightarrow> cov f \<inter> cov ?hi = {}"
        using c oth(1) k(1) by (auto simp: set_update_others) blast
    qed
    moreover have "new_entry_loop mx base rtop ?n (Suc k) = Inr ?n"
      using nested lt lo hi k(1) by (intro fin) (auto simp: set_update_others cov_def R_def)
    ultimately show ?thesis using step nested lt mx by auto
  qed
qed

lemma new_entry_loop_total:
  assumes lt: "unat base < unat rtop" and ok: "all_ok m" and ap: "usable_apart m"
    and ne: "\<And>e. e \<in> set m \<Longrightarrow> me_length e \<noteq> 0"
    and k: "k < length m" "me_type (m ! k) = MEMMAP_USABLE" "{unat base..<unat rtop} \<subseteq> cov (m ! k)"
    and mx: "length m < mx" and "i \<le> k"
  shows "\<exists>n. new_entry_loop mx base rtop m i = Inr n \<and> length n \<le> Suc (length m) \<and> usable_apart n"
  using \<open>i \<le> k\<close>
proof (induction "k - i" arbitrary: i)
  case 0
  then show ?case using new_entry_loop_within [OF lt ok ap ne k mx] by simp
next
  case (Suc d)
  then have i: "i < length m" "i \<noteq> k" using k by auto
  then have "cov (m ! i) \<inter> cov (m ! k) = {}" using ap k by (auto simp: usable_apart_def Int_commute)
  then have "cov (m ! i) \<inter> {unat base..<unat rtop} = {}" using k(3) by blast
  then have "new_entry_loop mx base rtop m i = new_entry_loop mx base rtop m (Suc i)"
    using new_entry_loop_skip [OF lt i(1) ok] ne i(1) by simp
  then show ?case using Suc(1) [of "Suc i"] Suc(2,3) by simp
qed

lemma pmm_new_entry_total:
  assumes "memmap_wf m" and e: "e \<in> set m" "me_type e = MEMMAP_USABLE"
    and R: "{unat base..<unat base + unat len} \<subseteq> cov e" and len: "len \<noteq> 0" and mx: "length m + 1 < mx"
  shows "\<exists>m'. pmm_new_entry mx m base len ty = Inr m' \<and> usable_apart m'"
proof -
  have wf: "all_ok m" "usable_apart m" "\<And>e. e \<in> set m \<Longrightarrow> me_length e \<noteq> 0"
    using assms(1) by (auto simp: memmap_wf_def)
  have pos: "0 < unat len" using len by (simp add: unat_gt_0)
  have "hi e < 2 ^ 64" using wf(1) e(1) by (auto simp: all_ok_def list_all_iff entry_ok_def)
  moreover have "unat base + unat len \<le> hi e" using R pos by (auto simp: cov_def)
  ultimately have rt: "CHECKED_ADD base len = Some (base + len)" by (simp add: checked_simps)
  note top = CHECKED_ADD_unat [OF rt]
  obtain k where k: "k < length m" "m ! k = e" using e(1) by (auto simp: in_set_conv_nth)
  obtain n where n: "new_entry_loop mx base (base + len) m 0 = Inr n" "length n \<le> Suc (length m)"
    "usable_apart n"
    using new_entry_loop_total [of base "base + len" m k mx 0] wf k e R pos mx by (auto simp: top)
  have c: "clear_below {unat base..<unat base + unat len} n (length n)"
    using new_entry_loop_correct [OF n(1) wf(1)] by (simp add: top clear_below_def)
  let ?t = "\<lparr>me_base = base, me_length = len, me_type = ty\<rparr>"
  have "usable_apart (n @ [?t])"
    using c n(3) by (intro usable_apart_append) (auto simp: clear_below_def in_set_conv_nth cov_def extent)
  then show ?thesis using n(1,2) mx by (simp add: pmm_new_entry_def rt)
qed

lemma memmap_alloc_range_in_total:
  assumes inv: "map_inv keep m" and e: "e \<in> set m" "me_type e = MEMMAP_USABLE"
    and R: "{unat base..<unat base + unat len} \<subseteq> cov e" and len: "len \<noteq> 0" and mx: "length m + 1 < mx"
  shows "\<exists>m'. memmap_alloc_range_in mx keep m base len ty MEMMAP_USABLE dp False ne = Inr (True, m')"
proof -
  have wf: "memmap_wf m" and ok: "all_ok m" using inv map_inv_ok by (auto simp: map_inv_def)
  obtain m1 where m1: "pmm_new_entry mx m base len ty = Inr m1" "usable_apart m1"
    using pmm_new_entry_total [OF wf e R len mx] by blast
  note n = pmm_new_entry_Inr [OF m1(1) ok]
  obtain m2 where m2: "pmm_sanitise_entries mx keep m1 False = Inr m2"
    using sanitise_apart [OF n(1) m1(2)] by blast
  have rt: "CHECKED_ADD base len = Some (base + len)" using n(3) by (simp add: checked_simps)
  have "unat base < unat (base + len)" using CHECKED_ADD_unat [OF rt] len by (simp add: unat_gt_0)
  then have "list_ex (holds_range MEMMAP_USABLE base (base + len)) m"
    using e R ok CHECKED_ADD_unat [OF rt]
    by (auto simp: list_ex_iff holds_range_iff all_ok_def list_all_iff)
  then show ?thesis using m1 m2 len by (simp add: memmap_alloc_range_in_def rt)
qed

text \<open>\<^verbatim>\<open>pmm_check_type\<close> answers with a type that the address has, or with all ones.\<close>

lemma ucast_type_neq: "(ucast (t :: u32) :: u64) \<noteq> -1"
proof
  assume "(ucast t :: u64) = -1"
  then have "unat (ucast t :: u64) = unat (-1 :: u64)" by simp
  moreover have "unat (ucast t :: u64) < 2 ^ 32"
    using unat_bound [of t] by (simp add: unsigned_ucast_eq take_bit_nat_eq_self)
  ultimately show False by (simp add: unsigned_minus_1_eq_mask mask_eq_exp_minus_1)
qed

lemma pmm_check_type_eq:
  assumes "all_ok m"
  shows "if \<exists>t. unat a \<in> typed (set m) t
    then \<exists>t. pmm_check_type m a = ucast t \<and> unat a \<in> typed (set m) t
    else pmm_check_type m a = -1"
  using assms
proof (induction m)
  case (Cons e m)
  have "entry_ok e" "all_ok m" using Cons.prems by (simp_all add: all_ok_def)
  moreover have "unat a \<in> cov e \<longleftrightarrow> me_base e \<le> a \<and> a < me_base e + me_length e"
    using unat_entry_top [OF calculation(1)] by (auto simp: cov_def word_nat lo_def)
  ultimately show ?case using Cons by (auto simp: entry_top typed_insert split: if_splits)
qed (simp add: typed_def)

end
