(* ===== verification/Libc_Mem.thy ===== *)
theory Libc_Mem
  imports Limine_Prelude
begin

text \<open>
  The byte routines of \<^verbatim>\<open>common/lib/memory.s2.c\<close> and \<^verbatim>\<open>memchr\<close> of
  \<^verbatim>\<open>common/lib/libc.c\<close>, on a byte-addressed memory. Each routine is the loop of
  the source; the lemmas give the memory it leaves in closed form.
\<close>

section \<open>Memory\<close>

text \<open>
  Memory is a function from addresses to bytes. A \<^verbatim>\<open>size_t\<close> count is read as a
  natural number; the address of a byte is computed in the 64 bits of a pointer.
\<close>

type_synonym mem = "u64 \<Rightarrow> u8"

text \<open>The range of \<open>n\<close> bytes at \<open>a\<close>, on the address circle.\<close>

definition in_range :: "u64 \<Rightarrow> nat \<Rightarrow> u64 \<Rightarrow> bool" where
  "in_range a n x \<longleftrightarrow> unat (x - a) < n"

lemma of_nat_unat_diff: "a + of_nat (unat (x - a)) = (x :: 'a::len word)"
  by simp

lemma in_range_0 [simp]: "\<not> in_range a 0 x"
  by (simp add: in_range_def)

lemma in_range_index:
  assumes "n \<le> 2 ^ 64"
  shows "in_range a n x \<longleftrightarrow> (\<exists>i<n. x = a + of_nat i)"
proof
  assume "in_range a n x"
  then show "\<exists>i<n. x = a + of_nat i" unfolding in_range_def by (intro exI [of _ "unat (x - a)"]) simp
next
  assume "\<exists>i<n. x = a + of_nat i"
  then obtain i where "i < n" "x = a + of_nat i" by blast
  then show "in_range a n x" using assms by (simp add: in_range_def unat_of_nat)
qed

lemma in_range_Suc:
  assumes "i < 2 ^ 64"
  shows "in_range a (Suc i) x \<longleftrightarrow> in_range a i x \<or> x = a + of_nat i"
proof -
  have "unat (of_nat i :: u64) = i" using assms by (simp add: unat_of_nat)
  then have "unat (x - a) = i \<longleftrightarrow> x = a + of_nat i"
    by (metis add_diff_cancel_left' of_nat_unat_diff)
  then show ?thesis by (auto simp: in_range_def less_Suc_eq)
qed

lemma in_range_nat:
  assumes "unat a + n \<le> 2 ^ 64"
  shows "in_range a n x \<longleftrightarrow> unat a \<le> unat x \<and> unat x < unat a + n"
proof (cases "a \<le> x")
  case True
  then show ?thesis using assms by (auto simp: in_range_def unat_sub_if' word_le_nat_alt)
next
  case False
  then have "unat (x - a) = unat x + 2 ^ 64 - unat a"
    by (simp add: unat_sub_if' word_le_nat_alt)
  then show ?thesis using False assms by (auto simp: in_range_def word_le_nat_alt)
qed

section \<open>memset\<close>

function memset_loop :: "mem \<Rightarrow> u64 \<Rightarrow> u8 \<Rightarrow> nat \<Rightarrow> nat \<Rightarrow> mem" where
  "memset_loop M s c n i =
     (if i < n then memset_loop (M(s + of_nat i := c)) s c n (Suc i) else M)"
  by pat_completeness auto
termination by (relation "measure (\<lambda>(M, s, c, n, i). n - i)") auto

declare memset_loop.simps [simp del]

definition memset :: "mem \<Rightarrow> u64 \<Rightarrow> u8 \<Rightarrow> nat \<Rightarrow> mem" where
  "memset M s c n = memset_loop M s c n 0"

lemma memset_loop_eq:
  assumes "n \<le> 2 ^ 64" and "i \<le> n"
    and "M = (\<lambda>x. if in_range s i x then c else M0 x)"
  shows "memset_loop M s c n i = (\<lambda>x. if in_range s n x then c else M0 x)"
  using assms
proof (induction M s c n i rule: memset_loop.induct)
  case (1 M s c n i)
  show ?case
  proof (cases "i < n")
    case True
    have "M(s + of_nat i := c) = (\<lambda>x. if in_range s (Suc i) x then c else M0 x)"
      using True "1.prems" by (auto simp: fun_eq_iff in_range_Suc)
    from "1.IH" [OF True "1.prems"(1) _ this] True show ?thesis
      by (subst memset_loop.simps) (simp add: fun_upd_def)
  next
    case False
    then show ?thesis using "1.prems" by (subst memset_loop.simps) simp
  qed
qed

lemma memset_eq:
  "n \<le> 2 ^ 64 \<Longrightarrow> memset M s c n = (\<lambda>x. if in_range s n x then c else M x)"
  unfolding memset_def by (rule memset_loop_eq) auto

section \<open>memcpy and memmove\<close>

text \<open>The ascending loop, shared by \<^verbatim>\<open>memcpy\<close> and one branch of \<^verbatim>\<open>memmove\<close>.\<close>

function copy_up :: "mem \<Rightarrow> u64 \<Rightarrow> u64 \<Rightarrow> nat \<Rightarrow> nat \<Rightarrow> mem" where
  "copy_up M dest src n i =
     (if i < n then copy_up (M(dest + of_nat i := M (src + of_nat i))) dest src n (Suc i) else M)"
  by pat_completeness auto
termination by (relation "measure (\<lambda>(M, d, s, n, i). n - i)") auto

declare copy_up.simps [simp del]

primrec copy_down :: "mem \<Rightarrow> u64 \<Rightarrow> u64 \<Rightarrow> nat \<Rightarrow> mem" where
  "copy_down M dest src 0 = M"
| "copy_down M dest src (Suc i) =
     copy_down (M(dest + of_nat i := M (src + of_nat i))) dest src i"

definition memcpy :: "mem \<Rightarrow> u64 \<Rightarrow> u64 \<Rightarrow> nat \<Rightarrow> mem" where
  "memcpy M dest src n = copy_up M dest src n 0"

definition memmove :: "mem \<Rightarrow> u64 \<Rightarrow> u64 \<Rightarrow> nat \<Rightarrow> mem" where
  "memmove M dest src n =
     (if src > dest then copy_up M dest src n 0
      else if src < dest then copy_down M dest src n
      else M)"

text \<open>What a copy should leave: the bytes that were at \<open>src\<close>, at \<open>dest\<close>.\<close>

definition copied :: "mem \<Rightarrow> u64 \<Rightarrow> u64 \<Rightarrow> nat \<Rightarrow> mem" where
  "copied M dest src n = (\<lambda>x. if in_range dest n x then M (src + (x - dest)) else M x)"

text \<open>
  Going up is right when no byte is overwritten before it is read: a source byte at index
  \<open>j\<close> is no destination byte at a lower index.
\<close>

lemma copy_up_eq:
  assumes "n \<le> 2 ^ 64" and "i \<le> n"
    and "\<And>j k. j < n \<Longrightarrow> k < j \<Longrightarrow> src + of_nat j \<noteq> dest + of_nat k"
    and "M = copied M0 dest src i"
  shows "copy_up M dest src n i = copied M0 dest src n"
  using assms
proof (induction M dest src n i rule: copy_up.induct)
  case (1 M dest src n i)
  note le = "1.prems"(1,2) and fresh = "1.prems"(3) and M = "1.prems"(4)
  show ?case
  proof (cases "i < n")
    case True
    have "\<not> in_range dest i (src + of_nat i)"
      using fresh [of i] True le by (auto simp: in_range_index)
    then have "M (src + of_nat i) = M0 (src + of_nat i)" by (simp add: M copied_def)
    then have "M(dest + of_nat i := M (src + of_nat i)) = copied M0 dest src (Suc i)"
      using True le by (auto simp: M copied_def fun_eq_iff in_range_Suc)
    from "1.IH" [OF True le(1) _ fresh this] True show ?thesis
      by (subst copy_up.simps) (simp add: fun_upd_def)
  next
    case False
    then show ?thesis using le M by (subst copy_up.simps) simp
  qed
qed

text \<open>Going down is right when no source byte is a destination byte at a higher index.\<close>

lemma copy_down_eq:
  assumes "n \<le> 2 ^ 64"
    and "\<And>j k. j < k \<Longrightarrow> k < n \<Longrightarrow> src + of_nat j \<noteq> dest + of_nat k"
    and inj: "\<And>j k. j < n \<Longrightarrow> k < n \<Longrightarrow> dest + of_nat j = dest + of_nat k \<Longrightarrow> j = k"
  shows "copy_down M dest src n = copied M dest src n"
  using assms
proof (induction n arbitrary: M)
  case 0
  then show ?case by (simp add: copied_def)
next
  case (Suc n)
  let ?M = "M(dest + of_nat n := M (src + of_nat n))"
  have ih: "copy_down ?M dest src n = copied ?M dest src n" using Suc by simp
  have "?M (src + (x - dest)) = M (src + (x - dest))" if r: "in_range dest n x" for x
  proof -
    obtain i where i: "i < n" "x = dest + of_nat i" using r Suc.prems(1) by (auto simp: in_range_index)
    then show ?thesis using Suc.prems(2) [of i n] by simp
  qed
  moreover have "\<not> in_range dest n (dest + of_nat n)"
    using Suc.prems(1) Suc.prems(3) [of n] unfolding in_range_index [OF Suc_leD [OF Suc.prems(1)]]
    by (metis lessI less_SucI less_irrefl)
  ultimately have "copied ?M dest src n = copied M dest src (Suc n)"
    using Suc.prems(1) by (auto simp: copied_def fun_eq_iff in_range_Suc)
  with ih show ?case by simp
qed

lemma unat_add_of_nat:
  assumes "unat (a :: u64) + n \<le> 2 ^ 64" and "i < n"
  shows "unat (a + of_nat i) = unat a + i"
  using assms by (simp add: unat_word_ariths unat_of_nat)

lemma memcpy_eq:
  assumes "n \<le> 2 ^ 64" and "\<And>x. \<not> (in_range src n x \<and> in_range dest n x)"
  shows "memcpy M dest src n = copied M dest src n"
  unfolding memcpy_def
proof (rule copy_up_eq [OF assms(1)])
  fix j k assume "j < n" "k < j"
  then show "src + of_nat j \<noteq> dest + of_nat k"
    using assms(2) [of "src + of_nat j"] unfolding in_range_index [OF assms(1)]
    by (metis less_trans)
qed (simp_all add: copied_def)

lemma memmove_eq:
  assumes "unat dest + n \<le> 2 ^ 64" and "unat src + n \<le> 2 ^ 64"
  shows "memmove M dest src n = copied M dest src n"
proof -
  have n: "n \<le> 2 ^ 64" using assms by simp
  note un = unat_add_of_nat [OF assms(1)] unat_add_of_nat [OF assms(2)]
  consider "src > dest" | "src < dest" | "src = dest" by fastforce
  then show ?thesis
  proof cases
    case 1
    have "copy_up M dest src n 0 = copied M dest src n"
    proof (rule copy_up_eq [OF n])
      fix j k assume "j < n" "k < j"
      then have "unat (src + of_nat j) \<noteq> unat (dest + of_nat k)"
        using 1 un by (simp add: word_less_nat_alt)
      then show "src + of_nat j \<noteq> dest + of_nat k" by metis
    qed (simp_all add: copied_def)
    then show ?thesis using 1 by (simp add: memmove_def)
  next
    case 2
    have "copy_down M dest src n = copied M dest src n"
    proof (rule copy_down_eq [OF n])
      fix j k assume "j < k" "k < n"
      then have "unat (src + of_nat j) \<noteq> unat (dest + of_nat k)"
        using 2 un by (simp add: word_less_nat_alt)
      then show "src + of_nat j \<noteq> dest + of_nat k" by metis
    next
      fix j k assume "j < n" "k < n" "dest + of_nat j = dest + of_nat k"
      then show "j = k" using un(1) by (metis add_left_cancel)
    qed
    then show ?thesis using 2 by (auto simp: memmove_def)
  qed (auto simp: memmove_def copied_def fun_eq_iff)
qed

section \<open>memcmp and memchr\<close>

function memcmp_loop :: "mem \<Rightarrow> u64 \<Rightarrow> u64 \<Rightarrow> nat \<Rightarrow> nat \<Rightarrow> int" where
  "memcmp_loop M s1 s2 n i =
     (if i < n then
        if M (s1 + of_nat i) \<noteq> M (s2 + of_nat i)
        then (if M (s1 + of_nat i) < M (s2 + of_nat i) then -1 else 1)
        else memcmp_loop M s1 s2 n (Suc i)
      else 0)"
  by pat_completeness auto
termination by (relation "measure (\<lambda>(M, s1, s2, n, i). n - i)") auto

declare memcmp_loop.simps [simp del]

definition memcmp :: "mem \<Rightarrow> u64 \<Rightarrow> u64 \<Rightarrow> nat \<Rightarrow> int" where
  "memcmp M s1 s2 n = memcmp_loop M s1 s2 n 0"

function memchr_loop :: "mem \<Rightarrow> u64 \<Rightarrow> int \<Rightarrow> nat \<Rightarrow> nat \<Rightarrow> u64 option" where
  "memchr_loop M ptr ch n i =
     (if i < n then
        if uint (M (ptr + of_nat i)) = ch then Some (ptr + of_nat i)
        else memchr_loop M ptr ch n (Suc i)
      else None)"
  by pat_completeness auto
termination by (relation "measure (\<lambda>(M, p, c, n, i). n - i)") auto

declare memchr_loop.simps [simp del]

text \<open>A \<^verbatim>\<open>NULL\<close> result is \<^term>\<open>None\<close>.\<close>

definition memchr :: "mem \<Rightarrow> u64 \<Rightarrow> int \<Rightarrow> nat \<Rightarrow> u64 option" where
  "memchr M ptr ch n = memchr_loop M ptr ch n 0"

text \<open>The bytes of a range, as a list.\<close>

definition bytes_at :: "mem \<Rightarrow> u64 \<Rightarrow> nat \<Rightarrow> u8 list" where
  "bytes_at M a n = map (\<lambda>i. M (a + of_nat i)) [0..<n]"

lemma length_bytes_at [simp]: "length (bytes_at M a n) = n"
  by (simp add: bytes_at_def)

lemma nth_bytes_at [simp]: "i < n \<Longrightarrow> bytes_at M a n ! i = M (a + of_nat i)"
  by (simp add: bytes_at_def)

lemma memcmp_loop_eq:
  assumes "\<forall>k<i. M (s1 + of_nat k) = M (s2 + of_nat k)" and "i \<le> n"
  shows "memcmp_loop M s1 s2 n i =
    (if bytes_at M s1 n = bytes_at M s2 n then 0
     else let k = (LEAST k. M (s1 + of_nat k) \<noteq> M (s2 + of_nat k)) in
       if M (s1 + of_nat k) < M (s2 + of_nat k) then -1 else 1)"
  using assms
proof (induction M s1 s2 n i rule: memcmp_loop.induct)
  case (1 M s1 s2 n i)
  note eq = "1.prems"(1)
  consider (stop) "i = n" | (differ) "i < n" "M (s1 + of_nat i) \<noteq> M (s2 + of_nat i)"
    | (same) "i < n" "M (s1 + of_nat i) = M (s2 + of_nat i)" using "1.prems"(2) by force
  then show ?case
  proof cases
    case stop
    then have "bytes_at M s1 n = bytes_at M s2 n" using eq by (simp add: bytes_at_def)
    then show ?thesis using stop by (simp add: memcmp_loop.simps [of M s1 s2 n n])
  next
    case differ
    have k: "(LEAST k. M (s1 + of_nat k) \<noteq> M (s2 + of_nat k)) = i"
      using differ(2) eq by (intro Least_equality) (auto simp: not_less [symmetric])
    have "bytes_at M s1 n \<noteq> bytes_at M s2 n"
      using differ by (metis nth_bytes_at)
    then show ?thesis using differ by (simp add: memcmp_loop.simps [of M s1 s2 n i] k)
  next
    case same
    then have "\<forall>k<Suc i. M (s1 + of_nat k) = M (s2 + of_nat k)" using eq by (simp add: less_Suc_eq)
    from "1.IH" [OF same(1) _ this] same show ?thesis by (simp add: memcmp_loop.simps [of M s1 s2 n i])
  qed
qed

lemma memcmp_zero: "memcmp M s1 s2 n = 0 \<longleftrightarrow> bytes_at M s1 n = bytes_at M s2 n"
  by (simp add: memcmp_def memcmp_loop_eq [of 0] Let_def)

lemma memchr_loop_eq:
  assumes "\<forall>k<i. uint (M (p + of_nat k)) \<noteq> ch" and "i \<le> n"
  shows "case memchr_loop M p ch n i of
      None \<Rightarrow> \<forall>k<n. uint (M (p + of_nat k)) \<noteq> ch
    | Some a \<Rightarrow> \<exists>j<n. a = p + of_nat j \<and> uint (M a) = ch \<and> (\<forall>k<j. uint (M (p + of_nat k)) \<noteq> ch)"
  using assms
proof (induction M p ch n i rule: memchr_loop.induct)
  case (1 M p ch n i)
  show ?case
  proof (cases "i < n \<and> uint (M (p + of_nat i)) \<noteq> ch")
    case True
    then have "\<forall>k<Suc i. uint (M (p + of_nat k)) \<noteq> ch" using "1.prems" by (simp add: less_Suc_eq)
    from "1.IH" [OF _ _ this] True show ?thesis by (simp add: memchr_loop.simps [of M p ch n i])
  next
    case False
    then show ?thesis using "1.prems" by (auto simp: memchr_loop.simps [of M p ch n i])
  qed
qed

end
