(* ===== verification/Pmm_Alloc.thy ===== *)
theory Pmm_Alloc
  imports Pmm_Range Libc_Mem
begin

text \<open>
  The physical memory allocator of \<^verbatim>\<open>common/mm/pmm.s2.c\<close> on top of the memory map:
  the conventional memory allocator, the top-down allocator with its wrappers, the allocator
  below a limit, \<^verbatim>\<open>pmm_free\<close> and \<^verbatim>\<open>pmm_realloc\<close>.
\<close>

section \<open>State\<close>

text \<open>
  The globals of the file and the memory it clears and copies. \<open>conv_base\<close> is the static
  variable of \<^verbatim>\<open>conv_mem_alloc\<close>; \<open>phys\<close> is physical memory.
\<close>

record pmm =
  memmap :: memmap
  memmap_max_entries :: nat
  allocations_disallowed :: bool
  pmm_sanitiser_keep_first_page :: bool
  conv_base :: u64
  phys :: mem

text \<open>
  The results of the allocators. On i386 an allocation that may lie high is returned as a
  pointer to the static \<^verbatim>\<open>above64_ret\<close>, which holds the address.
\<close>

datatype alloc_ptr = Null | Ptr u64 | Above64 u64

fun ptr_addr :: "alloc_ptr \<Rightarrow> u64" where
  "ptr_addr Null = 0"
| "ptr_addr (Ptr a) = a"
| "ptr_addr (Above64 a) = a"

section \<open>Operations on the map\<close>

definition memmap_alloc_range ::
    "pmm \<Rightarrow> u64 \<Rightarrow> u64 \<Rightarrow> u32 \<Rightarrow> u32 \<Rightarrow> bool \<Rightarrow> bool \<Rightarrow> bool \<Rightarrow> (bool \<times> pmm) res" where
  "memmap_alloc_range s base len type overlay_type do_panic simulation new_entry =
     res_bind (memmap_alloc_range_in (memmap_max_entries s) (pmm_sanitiser_keep_first_page s) (memmap s)
                 base len type overlay_type do_panic simulation new_entry)
       (\<lambda>(b, m). Inr (b, s\<lparr>memmap := m\<rparr>))"

definition sanitise_map :: "pmm \<Rightarrow> bool \<Rightarrow> pmm res" where
  "sanitise_map s align_entries =
     res_bind (pmm_sanitise_entries (memmap_max_entries s) (pmm_sanitiser_keep_first_page s) (memmap s)
                 align_entries)
       (\<lambda>m. Inr (s\<lparr>memmap := m\<rparr>))"

text \<open>\<^verbatim>\<open>memset(ptr, 0, count)\<close>; its closed form is what the loop of memset computes.\<close>

definition zero_mem :: "pmm \<Rightarrow> u64 \<Rightarrow> u64 \<Rightarrow> pmm" where
  "zero_mem s ptr cnt = s\<lparr>phys := (\<lambda>x. if in_range ptr (unat cnt) x then 0 else phys s x)\<rparr>"

lemma zero_mem_memset: "zero_mem s ptr cnt = s\<lparr>phys := memset (phys s) ptr 0 (unat cnt)\<rparr>"
  using unat_bound [of cnt] by (simp add: zero_mem_def memset_eq)

section \<open>conv_mem_alloc\<close>

text \<open>The loop runs from the static base upwards in steps of a page until a range is free.\<close>

function conv_loop :: "pmm \<Rightarrow> u64 \<Rightarrow> u64 \<Rightarrow> (u64 \<times> pmm) res" where
  "conv_loop s base cnt =
     (if base + cnt > 0x100000 then Inl (Panic ''Conventional memory allocation failed'')
      else case memmap_alloc_range s base cnt MEMMAP_BOOTLOADER_RECLAIMABLE MEMMAP_USABLE False False False of
        Inl e \<Rightarrow> Inl e
      | Inr (True, s1) \<Rightarrow>
          res_bind (sanitise_map ((zero_mem s1 base cnt)\<lparr>conv_base := base + cnt\<rparr>) False)
            (\<lambda>s2. Inr (base, s2))
      | Inr (False, s1) \<Rightarrow> conv_loop s1 (base + 4096) cnt)"
  by pat_completeness auto
termination
proof (relation "measure (\<lambda>(s, base, cnt). 0x100001 - unat (base + cnt))")
  fix base cnt :: u64
  assume "\<not> 0x100000 < base + cnt"
  then have "unat (base + cnt) \<le> 0x100000" by (simp add: word_nat)
  moreover have "base + 4096 + cnt = (base + cnt) + 4096" by simp
  ultimately have "unat (base + 4096 + cnt) = unat (base + cnt) + 4096"
    by (simp only: unat_word_ariths) simp
  then show "((s1, base + 4096, cnt), s, base, cnt)
      \<in> measure (\<lambda>(s, base, cnt). 0x100001 - unat (base + cnt))" for s s1 :: pmm
    using \<open>unat (base + cnt) \<le> 0x100000\<close> by simp
qed simp

declare conv_loop.simps [simp del]

definition conv_mem_alloc :: "pmm \<Rightarrow> u64 \<Rightarrow> (u64 \<times> pmm) res" where
  "conv_mem_alloc s cnt =
     (if allocations_disallowed s then Inl (Panic ''Memory allocations disallowed'')
      else case ALIGN_UP (if cnt = 0 then 1 else cnt) 4096 of
        None \<Rightarrow> Inl (Panic ''Alignment overflow'')
      | Some c \<Rightarrow> conv_loop s (conv_base s) c)"

section \<open>The top-down allocator\<close>

text \<open>
  What the loop body finds in one entry: the base of the allocation and the length of the
  range to reserve, which runs up to the top of the entry or to the limit.
\<close>

definition high_fit :: "u64 \<Rightarrow> u64 \<Rightarrow> u64 \<Rightarrow> memmap_entry \<Rightarrow> (u64 \<times> u64) option" where
  "high_fit limit cnt alignment e =
     (if me_type e \<noteq> 1 then None
      else case CHECKED_ADD (me_base e) (me_length e) of
        None \<Rightarrow> None
      | Some top0 \<Rightarrow>
          let entry_base = me_base e;
              entry_top = (if top0 > limit then limit else top0) in
          if top0 > limit \<and> entry_base \<ge> entry_top then None
          else if entry_top - entry_base < cnt then None
          else
            let alloc_base = ALIGN_DOWN (entry_top - cnt) alignment in
            if alloc_base < entry_base then None
            else Some (alloc_base, entry_top - alloc_base))"

text \<open>The loop, from the last entry to the first.\<close>

primrec high_search :: "memmap \<Rightarrow> u64 \<Rightarrow> u64 \<Rightarrow> u64 \<Rightarrow> nat \<Rightarrow> (u64 \<times> u64) option" where
  "high_search m limit cnt alignment 0 = None"
| "high_search m limit cnt alignment (Suc i) =
     (case high_fit limit cnt alignment (m ! i) of
        Some r \<Rightarrow> Some r
      | None \<Rightarrow> high_search m limit cnt alignment i)"

text \<open>Both rounds: below 4GiB first on x86, then anywhere if high allocations are allowed.\<close>

definition high_find :: "arch \<Rightarrow> memmap \<Rightarrow> u64 \<Rightarrow> u64 \<Rightarrow> bool \<Rightarrow> (u64 \<times> u64) option" where
  "high_find arch m cnt alignment allow_high =
     (if arch = Other_Arch then high_search m (-1) cnt alignment (length m)
      else case high_search m 0x100000000 cnt alignment (length m) of
        Some r \<Rightarrow> Some r
      | None \<Rightarrow> if allow_high then high_search m (-1) cnt alignment (length m) else None)"

text \<open>
  The whole function. \<open>alignment\<close> is not zero, as the macros divide by it. On i386 without
  high allocations the address fits 32 bits, so the cast to a pointer keeps it.
\<close>

definition ext_mem_alloc_impl ::
    "arch \<Rightarrow> pmm \<Rightarrow> u64 \<Rightarrow> u32 \<Rightarrow> u64 \<Rightarrow> bool \<Rightarrow> bool \<Rightarrow> (alloc_ptr \<times> pmm) res" where
  "ext_mem_alloc_impl arch s cnt type alignment allow_high do_panic =
     (case CHECKED_ADD (if cnt = 0 then 1 else cnt) (alignment - 1) of
        None \<Rightarrow> Inl (Panic ''ext_mem_alloc: count overflows when aligning'')
      | Some c0 \<Rightarrow>
          let c = ALIGN_DOWN c0 alignment in
          if allocations_disallowed s then Inl (Panic ''Memory allocations disallowed'')
          else case high_find arch (memmap s) c alignment allow_high of
            None \<Rightarrow>
              if do_panic then Inl (Panic ''High memory allocator: Out of memory'') else Inr (Null, s)
          | Some (alloc_base, aligned_length) \<Rightarrow>
              res_bind (memmap_alloc_range s alloc_base aligned_length type MEMMAP_USABLE True False False)
                (\<lambda>(_, s1).
                   let high = (arch = I386 \<and> allow_high);
                       s2 = (if high then s1 else zero_mem s1 alloc_base c)
                   in res_bind (sanitise_map s2 False)
                        (\<lambda>s3. Inr (if high then Above64 alloc_base else Ptr alloc_base, s3))))"

definition ext_mem_alloc_type_aligned_mode ::
    "arch \<Rightarrow> pmm \<Rightarrow> u64 \<Rightarrow> u32 \<Rightarrow> u64 \<Rightarrow> bool \<Rightarrow> (alloc_ptr \<times> pmm) res" where
  "ext_mem_alloc_type_aligned_mode arch s cnt type alignment allow_high =
     ext_mem_alloc_impl arch s cnt type alignment allow_high True"

definition ext_mem_alloc_nopanic :: "arch \<Rightarrow> pmm \<Rightarrow> u64 \<Rightarrow> (alloc_ptr \<times> pmm) res" where
  "ext_mem_alloc_nopanic arch s cnt =
     ext_mem_alloc_impl arch s cnt MEMMAP_BOOTLOADER_RECLAIMABLE 4096 False False"

definition ext_mem_alloc_type_aligned :: "arch \<Rightarrow> pmm \<Rightarrow> u64 \<Rightarrow> u32 \<Rightarrow> u64 \<Rightarrow> (alloc_ptr \<times> pmm) res" where
  "ext_mem_alloc_type_aligned arch s cnt type alignment =
     ext_mem_alloc_type_aligned_mode arch s cnt type alignment False"

definition ext_mem_alloc_type :: "arch \<Rightarrow> pmm \<Rightarrow> u64 \<Rightarrow> u32 \<Rightarrow> (alloc_ptr \<times> pmm) res" where
  "ext_mem_alloc_type arch s cnt type = ext_mem_alloc_type_aligned arch s cnt type 4096"

definition ext_mem_alloc :: "arch \<Rightarrow> pmm \<Rightarrow> u64 \<Rightarrow> (alloc_ptr \<times> pmm) res" where
  "ext_mem_alloc arch s cnt = ext_mem_alloc_type arch s cnt MEMMAP_BOOTLOADER_RECLAIMABLE"

definition ext_mem_alloc_counted :: "arch \<Rightarrow> pmm \<Rightarrow> u64 \<Rightarrow> u64 \<Rightarrow> (alloc_ptr \<times> pmm) res" where
  "ext_mem_alloc_counted arch s cnt elem_size =
     (case CHECKED_MUL cnt elem_size of
        None \<Rightarrow> Inl (Panic ''ext_mem_alloc_counted: allocation size overflow'')
      | Some n \<Rightarrow> ext_mem_alloc arch s n)"

section \<open>The allocator below a limit\<close>

definition below_fit :: "u64 \<Rightarrow> u64 \<Rightarrow> u64 \<Rightarrow> bool \<Rightarrow> memmap_entry \<Rightarrow> u64 option" where
  "below_fit limit cnt alignment bottom_up e =
     (if me_type e \<noteq> MEMMAP_USABLE then None
      else case CHECKED_ADD (me_base e) (me_length e) of
        None \<Rightarrow> None
      | Some top0 \<Rightarrow>
          let entry_base = me_base e;
              entry_top = (if top0 > limit then limit else top0) in
          if entry_base \<ge> entry_top \<or> entry_top - entry_base < cnt then None
          else if bottom_up then
            (case ALIGN_UP entry_base alignment of
               None \<Rightarrow> None
             | Some alloc_base \<Rightarrow> if alloc_base > entry_top - cnt then None else Some alloc_base)
          else
            let alloc_base = ALIGN_DOWN (entry_top - cnt) alignment in
            if alloc_base < entry_base then None else Some alloc_base)"

function below_search :: "memmap \<Rightarrow> u64 \<Rightarrow> u64 \<Rightarrow> u64 \<Rightarrow> bool \<Rightarrow> nat \<Rightarrow> u64 option" where
  "below_search m limit cnt alignment bottom_up n =
     (if n < length m then
        (case below_fit limit cnt alignment bottom_up
                (m ! (if bottom_up then n else length m - 1 - n)) of
           Some a \<Rightarrow> Some a
         | None \<Rightarrow> below_search m limit cnt alignment bottom_up (Suc n))
      else None)"
  by pat_completeness auto
termination by (relation "measure (\<lambda>(m, l, c, a, b, n). length m - n)") auto

declare below_search.simps [simp del]

definition ext_mem_alloc_type_aligned_below ::
    "pmm \<Rightarrow> u64 \<Rightarrow> u32 \<Rightarrow> u64 \<Rightarrow> u64 \<Rightarrow> bool \<Rightarrow> (u64 \<times> pmm) res" where
  "ext_mem_alloc_type_aligned_below s cnt type alignment limit bottom_up =
     (case CHECKED_ADD (if cnt = 0 then 1 else cnt) (alignment - 1) of
        None \<Rightarrow> Inl (Panic ''ext_mem_alloc: count overflows when aligning'')
      | Some c0 \<Rightarrow>
          let c = ALIGN_DOWN c0 alignment in
          if allocations_disallowed s then Inl (Panic ''Memory allocations disallowed'')
          else case below_search (memmap s) limit c alignment bottom_up 0 of
            None \<Rightarrow> Inl (Panic ''High memory allocator: Out of memory'')
          | Some alloc_base \<Rightarrow>
              res_bind (memmap_alloc_range s alloc_base c type MEMMAP_USABLE True False False)
                (\<lambda>(_, s1). res_bind (sanitise_map (zero_mem s1 alloc_base c) False)
                   (\<lambda>s2. Inr (alloc_base, s2))))"

section \<open>Freeing and reallocating\<close>

definition pmm_free :: "pmm \<Rightarrow> u64 \<Rightarrow> u64 \<Rightarrow> pmm res" where
  "pmm_free s ptr cnt =
     (if ptr = 0 then Inr s
      else if ptr mod 4096 \<noteq> 0 then Inl (Panic ''pmm_free: Unaligned pointer %p'')
      else case ALIGN_UP (if cnt = 0 then 1 else cnt) 4096 of
        None \<Rightarrow> Inl (Panic ''Alignment overflow'')
      | Some c \<Rightarrow>
          if allocations_disallowed s then Inl (Panic ''Memory allocations disallowed'')
          else res_bind (memmap_alloc_range s ptr c MEMMAP_USABLE 0 False False True) (\<lambda>(_, s1). Inr s1))"

definition copy_phys :: "pmm \<Rightarrow> u64 \<Rightarrow> u64 \<Rightarrow> u64 \<Rightarrow> pmm" where
  "copy_phys s dest src n = s\<lparr>phys := memcpy (phys s) dest src (unat n)\<rparr>"

definition pmm_realloc :: "arch \<Rightarrow> pmm \<Rightarrow> u64 \<Rightarrow> u64 \<Rightarrow> u64 \<Rightarrow> (alloc_ptr \<times> pmm) res" where
  "pmm_realloc arch s old_ptr old_size new_size =
     (if old_ptr = 0 then ext_mem_alloc arch s new_size
      else res_bind (ext_mem_alloc arch s new_size)
        (\<lambda>(new_ptr, s1).
           res_bind (pmm_free (copy_phys s1 (ptr_addr new_ptr) old_ptr (C_MIN new_size old_size)) old_ptr old_size)
             (\<lambda>s2. Inr (new_ptr, s2))))"

lemmas alloc_eval [model_eval] =
  memmap_alloc_range_def sanitise_map_def zero_mem_def conv_loop.simps conv_mem_alloc_def
  high_fit_def high_find_def ext_mem_alloc_impl_def ext_mem_alloc_type_aligned_mode_def
  ext_mem_alloc_nopanic_def ext_mem_alloc_type_aligned_def ext_mem_alloc_type_def ext_mem_alloc_def
  ext_mem_alloc_counted_def below_fit_def below_search.simps ext_mem_alloc_type_aligned_below_def
  pmm_free_def copy_phys_def pmm_realloc_def

end
