(* ===== verification/Pmm_Alloc_Proof.thy ===== *)
theory Pmm_Alloc_Proof
  imports Pmm_Alloc
begin

text \<open>
  What the allocators guarantee: the memory they hand out was usable, is aligned, lies below
  the limit, is cleared and now has the requested type, and nothing else of the memory map or
  of memory changes. When an entry can hold the request and the table has two slots left,
  they succeed. Successive allocations never overlap.
\<close>

section \<open>The state invariant\<close>

definition pmm_inv :: "pmm \<Rightarrow> bool" where
  "pmm_inv s \<longleftrightarrow> map_inv (pmm_sanitiser_keep_first_page s) (memmap s) \<and> 4096 dvd unat (conv_base s)"

definition mem_types :: "pmm \<Rightarrow> u32 \<Rightarrow> nat set" where
  "mem_types s = mem_of (memmap s)"

text \<open>Everything but the map and the contents of memory.\<close>

definition same_setup :: "pmm \<Rightarrow> pmm \<Rightarrow> bool" where
  "same_setup s s' \<longleftrightarrow>
     memmap_max_entries s' = memmap_max_entries s
     \<and> allocations_disallowed s' = allocations_disallowed s
     \<and> pmm_sanitiser_keep_first_page s' = pmm_sanitiser_keep_first_page s"

lemma usable_cov:
  assumes "memmap_wf m" and "e \<in> set m" and "me_type e = MEMMAP_USABLE"
  shows "cov e \<subseteq> mem_of m MEMMAP_USABLE"
proof -
  obtain k where k: "k < length m" "e = m ! k" using assms(2) by (auto simp: in_set_conv_nth)
  have "cov e \<inter> cov f = {}" if f: "f \<in> set m" "me_type f \<noteq> MEMMAP_USABLE" for f
  proof -
    obtain l where "l < length m" "f = m ! l" using f(1) by (auto simp: in_set_conv_nth)
    then show ?thesis using assms k f(2) by (auto simp: memmap_wf_def usable_apart_def)
  qed
  then show ?thesis using assms(2,3) by (auto simp: mem_of_def typed_def claimed_def)
qed

lemma clip_usable_id:
  "A MEMMAP_USABLE \<subseteq> above_first_page keep \<Longrightarrow> clip_usable keep A t = A t"
  by (auto simp: clip_usable_def)

lemma clip_usable_assign:
  assumes "A MEMMAP_USABLE \<subseteq> above_first_page keep" and "R \<subseteq> A MEMMAP_USABLE"
  shows "clip_usable keep (assign R ty A) t = assign R ty A t"
  using assms by (intro clip_usable_id) (auto simp: assign_def)

text \<open>
  Reserving a range of usable memory and sanitising once more, as every allocator does.
\<close>

lemma reserve_correct:
  assumes r: "memmap_alloc_range s base len ty MEMMAP_USABLE dp False False = Inr (b, s1)" and b: "b \<or> dp"
    and z: "s2 = s1\<lparr>phys := M, conv_base := cb\<rparr>" and san: "sanitise_map s2 False = Inr s3"
    and inv: "pmm_inv s" and len: "len \<noteq> 0" and cb: "4096 dvd unat cb"
  defines "R \<equiv> {unat base..<unat base + unat len}"
  shows "pmm_inv s3" and "R \<subseteq> mem_types s MEMMAP_USABLE" and "mem_types s3 t = assign R ty (mem_types s) t"
    and "phys s3 = M" and "same_setup s s3" and "phys s1 = phys s" and "conv_base s1 = conv_base s"
    and "conv_base s3 = cb"
proof -
  let ?mx = "memmap_max_entries s" and ?keep = "pmm_sanitiser_keep_first_page s"
  obtain m1 where m1: "memmap_alloc_range_in ?mx ?keep (memmap s) base len ty MEMMAP_USABLE dp False False
      = Inr (b, m1)" and s1: "s1 = s\<lparr>memmap := m1\<rparr>"
    using r by (auto simp: memmap_alloc_range_def)
  have mi: "map_inv ?keep (memmap s)" using inv by (simp add: pmm_inv_def)
  note c = memmap_alloc_range_in_Inr [OF m1 mi len]
  have b: "b" using c(2) b by blast
  obtain m3 where m3: "pmm_sanitise_entries ?mx ?keep m1 False = Inr m3"
    and s3: "s3 = s\<lparr>memmap := m3, phys := M, conv_base := cb\<rparr>"
    using san by (auto simp: sanitise_map_def z s1)
  have inv3: "map_inv ?keep m3" using sanitise_inv [OF m3 map_inv_ok [OF c(1)]] .
  have us: "mem_of (memmap s) MEMMAP_USABLE \<subseteq> above_first_page ?keep" using mi by (simp add: map_inv_def)
  have R: "R \<subseteq> mem_of (memmap s) MEMMAP_USABLE"
    using c(5) [OF b] usable_cov [of "memmap s"] mi by (force simp: R_def map_inv_def memmap_types)
  have "mem_of m3 t = clip_usable ?keep (mem_of m1) t"
    using sanitise_mem_of [OF m3 map_inv_ok [OF c(1)]] .
  also have "\<dots> = mem_of m1 t" using c(1) by (intro clip_usable_id) (simp add: map_inv_def)
  also have "\<dots> = assign R ty (mem_of (memmap s)) t"
    using c(3) [OF b, folded R_def] clip_usable_assign [of "mem_of (memmap s)", OF us R] by simp
  finally show "mem_types s3 t = assign R ty (mem_types s) t" by (simp add: mem_types_def s3)
  show "R \<subseteq> mem_types s MEMMAP_USABLE" using R by (simp add: mem_types_def)
  show "pmm_inv s3" using inv3 cb by (simp add: pmm_inv_def s3)
  show "phys s3 = M" "same_setup s s3" "phys s1 = phys s" "conv_base s1 = conv_base s" "conv_base s3 = cb"
    by (simp_all add: s1 s3 same_setup_def)
qed

text \<open>Reserving succeeds inside a usable entry, with two slots left in the table.\<close>

lemma reserve_total:
  assumes "pmm_inv s" and "\<exists>e\<in>set (memmap s). me_type e = MEMMAP_USABLE \<and>
      {unat base..<unat base + unat len} \<subseteq> cov e"
    and "len \<noteq> 0" and "length (memmap s) + 1 < memmap_max_entries s"
  shows "\<exists>s1. memmap_alloc_range s base len ty MEMMAP_USABLE dp False ne = Inr (True, s1)"
proof -
  obtain e where "e \<in> set (memmap s)" "me_type e = MEMMAP_USABLE"
    "{unat base..<unat base + unat len} \<subseteq> cov e" using assms(2) by blast
  then show ?thesis
    using memmap_alloc_range_in_total [of "pmm_sanitiser_keep_first_page s" "memmap s" e base len
        "memmap_max_entries s" ty dp ne] assms
    by (auto simp: memmap_alloc_range_def pmm_inv_def)
qed

lemma sanitise_map_total:
  assumes "memmap_alloc_range s base len ty ov dp False ne = Inr (b, s1)" and "pmm_inv s" and "len \<noteq> 0"
  shows "\<exists>s3. sanitise_map (s1\<lparr>phys := M, conv_base := cb\<rparr>) al = Inr s3"
proof -
  let ?keep = "pmm_sanitiser_keep_first_page s"
  obtain m1 where m1: "memmap_alloc_range_in (memmap_max_entries s) ?keep (memmap s) base len ty ov dp False ne
      = Inr (b, m1)" and s1: "s1 = s\<lparr>memmap := m1\<rparr>"
    using assms(1) by (auto simp: memmap_alloc_range_def)
  have "map_inv ?keep m1"
    using memmap_alloc_range_in_Inr(1) [OF m1 _ assms(3)] assms(2) by (simp add: pmm_inv_def)
  then show ?thesis
    using sanitise_apart [of m1 "memmap_max_entries s" ?keep al]
    by (auto simp: sanitise_map_def s1 map_inv_def memmap_wf_def)
qed

section \<open>The top-down allocator\<close>

text \<open>The size of an allocation: at least one byte, rounded up to the alignment.\<close>

definition rounded :: "u64 \<Rightarrow> u64 \<Rightarrow> nat" where
  "rounded alignment n =
     (max 1 (unat n) + (unat alignment - 1)) div unat alignment * unat alignment"

lemma rounded_word:
  assumes "CHECKED_ADD (if n = 0 then 1 else n) (alignment - 1) = Some c0" and "alignment \<noteq> 0"
  shows "unat (ALIGN_DOWN c0 alignment) = rounded alignment n"
proof -
  have "unat (alignment - 1) = unat alignment - 1" using assms(2) by (simp add: unat_minus_one)
  moreover have "unat (if n = 0 then 1 else n) = max 1 (unat n)"
    using unat_gt_0 [of n] by auto
  ultimately show ?thesis
    using CHECKED_ADD_unat [OF assms(1)] by (simp only: unat_ALIGN_DOWN rounded_def)
qed

lemma rounded_ge: "alignment \<noteq> 0 \<Longrightarrow> unat n \<le> rounded alignment n \<and> 0 < rounded alignment n"
proof -
  assume "alignment \<noteq> 0"
  then have a: "0 < unat alignment" by (simp add: unat_gt_0)
  let ?x = "max 1 (unat n) + (unat alignment - 1)"
  have "?x mod unat alignment < unat alignment" using a by simp
  then have "?x < rounded alignment n + unat alignment"
    unfolding rounded_def using div_mult_mod_eq [of ?x "unat alignment"] by linarith
  then show ?thesis by linarith
qed

lemma high_fit_Some:
  assumes "high_fit limit c al e = Some (a, l)" and al: "al \<noteq> 0"
  shows "me_type e = MEMMAP_USABLE" and "entry_ok e" and "unat al dvd unat a" and "unat c \<le> unat l"
    and "{unat a..<unat a + unat l} \<subseteq> cov e" and "unat a + unat l \<le> unat limit"
    and "unat a + unat l = min (hi e) (unat limit)"
proof -
  have ok: "entry_ok e" and ty: "me_type e = 1"
    using assms(1) by (auto simp: high_fit_def entry_top split: if_splits)
  let ?t = "me_base e + me_length e"
  let ?et = "if ?t > limit then limit else ?t"
  have ut: "unat ?t = hi e" "unat (me_base e) = lo e" using ok by (simp_all add: unat_entry_top lo_def)
  have et: "unat ?et = min (hi e) (unat limit)" using ut by (auto simp: word_nat)
  have c: "\<not> (?t > limit \<and> me_base e \<ge> ?et)" "\<not> ?et - me_base e < c"
    "a = ALIGN_DOWN (?et - c) al" "\<not> a < me_base e" "l = ?et - a"
    using assms(1) ok ty by (auto simp: high_fit_def entry_top Let_def split: if_splits)
  have le: "lo e \<le> unat ?et" using c(1) ut lo_le_hi [of e] by (auto simp: word_nat)
  have "unat (?et - me_base e) = unat ?et - lo e" using le ut by (simp only: unat_sub_exact)
  then have room: "unat c \<le> unat ?et - lo e" using c(2) by (simp only: word_nat not_less)
  then have uc: "unat (?et - c) = unat ?et - unat c" using le by (intro unat_sub_exact) linarith
  have ua: "unat a \<le> unat ?et - unat c" using c(3) uc ALIGN_DOWN_le by metis
  have ul: "unat l = unat ?et - unat a" unfolding c(5) using ua by (intro unat_sub_exact) linarith
  have sum: "unat a + unat l = unat ?et" using ul ua by linarith
  have low: "lo e \<le> unat a" using c(4) ut by (simp add: word_nat)
  show "me_type e = MEMMAP_USABLE" using ty by (simp add: memmap_types)
  show "entry_ok e" by (fact ok)
  show "unat al dvd unat a" unfolding c(3) by (rule ALIGN_DOWN_dvd)
  show "unat c \<le> unat l" using ul ua room le by linarith
  show "unat a + unat l = min (hi e) (unat limit)" using sum et by simp
  then show "unat a + unat l \<le> unat limit" "{unat a..<unat a + unat l} \<subseteq> cov e"
    using low by (auto simp: cov_def)
qed

text \<open>An entry that holds an aligned block below the limit is never passed over.\<close>

lemma high_fit_None:
  assumes none: "high_fit limit c al e = None" and al: "al \<noteq> 0" and ok: "entry_ok e"
    and ty: "me_type e = MEMMAP_USABLE" and c: "c \<noteq> 0"
    and b: "unat al dvd b" "lo e \<le> b" "b + unat c \<le> min (hi e) (unat limit)"
  shows False
proof -
  let ?t = "me_base e + me_length e"
  let ?et = "if ?t > limit then limit else ?t"
  have ut: "unat ?t = hi e" "unat (me_base e) = lo e" using ok by (simp_all add: unat_entry_top lo_def)
  have et: "unat ?et = min (hi e) (unat limit)" using ut by (auto simp: word_nat)
  have pos: "0 < unat c" using c by (simp add: unat_gt_0)
  have le: "lo e + unat c \<le> unat ?et" using b et by simp
  have g1: "\<not> (?t > limit \<and> me_base e \<ge> ?et)" using le pos ut by (auto simp: word_nat)
  have "unat (?et - me_base e) = unat ?et - lo e" using le ut by (simp add: unat_sub_exact)
  then have g2: "\<not> ?et - me_base e < c" using le by (simp only: word_nat)
  have uc: "unat (?et - c) = unat ?et - unat c" using le by (intro unat_sub_exact) linarith
  have "b \<le> unat ?et - unat c" unfolding et using b(3) by linarith
  then have "b div unat al * unat al \<le> unat (ALIGN_DOWN (?et - c) al)"
    unfolding unat_ALIGN_DOWN uc by (simp add: div_le_mono)
  then have "lo e \<le> unat (ALIGN_DOWN (?et - c) al)" using b(1,2) by simp
  then have "\<not> ALIGN_DOWN (?et - c) al < me_base e" using ut by (simp add: word_nat)
  then show False using none g1 g2 ok ty
    by (simp add: high_fit_def entry_top Let_def memmap_types split: if_splits)
qed

lemma high_search_Some:
  "high_search m limit c al n = Some r \<Longrightarrow> \<exists>i<n. high_fit limit c al (m ! i) = Some r"
  by (induction n) (auto split: option.splits intro: less_SucI)

lemma high_search_None:
  "high_search m limit c al n = None \<longleftrightarrow> (\<forall>i<n. high_fit limit c al (m ! i) = None)"
  by (induction n) (auto split: option.splits simp: less_Suc_eq)

text \<open>The end of the memory an allocation may come from.\<close>

definition alloc_limit :: "arch \<Rightarrow> bool \<Rightarrow> u64" where
  "alloc_limit arch allow_high = (if arch = Other_Arch \<or> allow_high then -1 else 0x100000000)"

lemma high_find_Some:
  assumes "high_find arch m c al high = Some (a, l)" and "al \<noteq> 0"
  shows "\<exists>e\<in>set m. me_type e = MEMMAP_USABLE \<and> {unat a..<unat a + unat l} \<subseteq> cov e"
    and "unat al dvd unat a" and "unat c \<le> unat l" and "unat a + unat l \<le> unat (alloc_limit arch high)"
proof -
  obtain limit where s: "high_search m limit c al (length m) = Some (a, l)"
    and lim: "unat limit \<le> unat (alloc_limit arch high)"
    using assms(1)
    by (auto simp: high_find_def alloc_limit_def unsigned_minus_1_eq_mask mask_eq_exp_minus_1
        split: if_splits option.splits)
  obtain i where i: "i < length m" "high_fit limit c al (m ! i) = Some (a, l)"
    using high_search_Some [OF s] by blast
  note f = high_fit_Some [OF i(2) assms(2)]
  show "\<exists>e\<in>set m. me_type e = MEMMAP_USABLE \<and> {unat a..<unat a + unat l} \<subseteq> cov e"
    using f(1,5) i(1) by (intro bexI [of _ "m ! i"]) auto
  show "unat al dvd unat a" "unat c \<le> unat l" "unat a + unat l \<le> unat (alloc_limit arch high)"
    using f lim by auto
qed

lemma high_find_exists:
  assumes "all_ok m" and e: "e \<in> set m" "me_type e = MEMMAP_USABLE" and "al \<noteq> 0" and "c \<noteq> 0"
    and "unat al dvd b" "lo e \<le> b" "b + unat c \<le> min (hi e) (unat (alloc_limit arch high))"
  shows "\<exists>r. high_find arch m c al high = Some r"
proof -
  obtain i where i: "i < length m" "e = m ! i" using e(1) by (auto simp: in_set_conv_nth)
  have "high_fit (alloc_limit arch high) c al (m ! i) \<noteq> None"
    using high_fit_None [of "alloc_limit arch high" c al e b] assms i all_ok_nth by blast
  then have "high_search m (alloc_limit arch high) c al (length m) \<noteq> None"
    using i(1) unfolding high_search_None by auto
  then show ?thesis
    by (auto simp: high_find_def alloc_limit_def split: if_splits option.splits)
qed

text \<open>
  The whole allocator: a null pointer only when it may not panic, and otherwise a reserved
  range of usable memory, at least as long as the rounded size.
\<close>

definition allocated :: "pmm \<Rightarrow> u64 \<Rightarrow> nat \<Rightarrow> nat \<Rightarrow> u32 \<Rightarrow> pmm \<Rightarrow> bool" where
  "allocated s a sz len ty s' \<longleftrightarrow>
     sz \<le> len \<and> {unat a..<unat a + len} \<subseteq> mem_types s MEMMAP_USABLE
     \<and> mem_types s' = assign {unat a..<unat a + len} ty (mem_types s)
     \<and> pmm_inv s' \<and> same_setup s s'"

definition cleared :: "mem \<Rightarrow> u64 \<Rightarrow> nat \<Rightarrow> mem" where
  "cleared M a sz = (\<lambda>x. if in_range a sz x then 0 else M x)"

lemma ext_mem_alloc_impl_Inr:
  assumes run: "ext_mem_alloc_impl arch s n ty al high dp = Inr (p, s')"
    and inv: "pmm_inv s" and al: "al \<noteq> 0"
  shows "p = Null \<and> s' = s \<and> \<not> dp \<or>
    (\<exists>a len. p = (if arch = I386 \<and> high then Above64 a else Ptr a)
      \<and> unat al dvd unat a \<and> unat a + len \<le> unat (alloc_limit arch high)
      \<and> allocated s a (rounded al n) len ty s'
      \<and> phys s' = (if arch = I386 \<and> high then phys s else cleared (phys s) a (rounded al n))
      \<and> conv_base s' = conv_base s)"
proof -
  obtain c0 where c0: "CHECKED_ADD (if n = 0 then 1 else n) (al - 1) = Some c0"
    using run by (auto simp: ext_mem_alloc_impl_def split: option.splits)
  let ?c = "ALIGN_DOWN c0 al"
  let ?high = "arch = I386 \<and> high"
  note uc = rounded_word [OF c0 al]
  have run': "\<not> allocations_disallowed s" using run c0 by (auto simp: ext_mem_alloc_impl_def Let_def split: if_splits)
  show ?thesis
  proof (cases "high_find arch (memmap s) ?c al high")
    case None
    then show ?thesis using run c0 run' by (simp add: ext_mem_alloc_impl_def Let_def split: if_splits)
  next
    case (Some r)
    obtain a l where r: "r = (a, l)" by (cases r)
    note f = high_find_Some [OF Some [unfolded r] al]
    obtain b s1 where r1: "memmap_alloc_range s a l ty MEMMAP_USABLE True False False = Inr (b, s1)"
      and san: "sanitise_map (if ?high then s1 else zero_mem s1 a ?c) False = Inr s'"
      and p: "p = (if ?high then Above64 a else Ptr a)"
      using run c0 run' Some r by (auto simp: ext_mem_alloc_impl_def Let_def)
    let ?M = "if ?high then phys s1 else cleared (phys s1) a (unat ?c)"
    have s2: "(if ?high then s1 else zero_mem s1 a ?c) = s1\<lparr>phys := ?M, conv_base := conv_base s1\<rparr>"
      by (simp add: zero_mem_def cleared_def)
    have "0 < unat l" using f(3) uc rounded_ge [OF al, of n] by linarith
    then have l: "l \<noteq> 0" by auto
    have cb: "4096 dvd unat (conv_base s1)"
      using r1 inv by (auto simp: memmap_alloc_range_def pmm_inv_def)
    note c = reserve_correct [OF r1 disjI2 [OF TrueI] s2 san inv l cb]
    have "allocated s a (rounded al n) (unat l) ty s'"
      unfolding allocated_def using c(1,2,5) f(3) uc by (auto simp: c(3))
    then show ?thesis using p f(2,4) c(4,6,7,8) uc by (intro disjI2 exI [of _ a] exI [of _ "unat l"]) simp
  qed
qed

lemma ext_mem_alloc_impl_total:
  assumes inv: "pmm_inv s" and al: "al \<noteq> 0" and en: "\<not> allocations_disallowed s"
    and fits: "unat n + unat al \<le> 2 ^ 64" and room: "length (memmap s) + 1 < memmap_max_entries s"
    and e: "e \<in> set (memmap s)" "me_type e = MEMMAP_USABLE"
    and b: "unat al dvd b" "lo e \<le> b" "b + rounded al n \<le> min (hi e) (unat (alloc_limit arch high))"
  shows "\<exists>p s'. ext_mem_alloc_impl arch s n ty al high dp = Inr (p, s') \<and> p \<noteq> Null"
proof -
  have mi: "map_inv (pmm_sanitiser_keep_first_page s) (memmap s)" using inv by (simp add: pmm_inv_def)
  have al1: "unat (al - 1) = unat al - 1" "0 < unat al" using al by (simp_all add: unat_minus_one unat_gt_0)
  have "unat (if n = 0 then 1 else n) + unat (al - 1) < 2 ^ 64"
    using fits al1 unat_bound [of al] by (cases "n = 0") auto
  then obtain c0 where c0: "CHECKED_ADD (if n = 0 then 1 else n) (al - 1) = Some c0"
    by (simp add: checked_simps)
  let ?c = "ALIGN_DOWN c0 al"
  have uc: "unat ?c = rounded al n" by (rule rounded_word [OF c0 al])
  then have "?c \<noteq> 0" using rounded_ge [OF al, of n] by (metis less_irrefl unat_0)
  then obtain a l where f: "high_find arch (memmap s) ?c al high = Some (a, l)"
    using high_find_exists [OF map_inv_ok [OF mi] e al, of ?c b arch high] b uc by auto
  note h = high_find_Some [OF f al]
  have "0 < unat l" using h(3) uc rounded_ge [OF al, of n] by linarith
  then have l: "l \<noteq> 0" by auto
  obtain s1 where s1: "memmap_alloc_range s a l ty MEMMAP_USABLE True False False = Inr (True, s1)"
    using reserve_total [OF inv h(1) l room] by blast
  let ?s2 = "if arch = I386 \<and> high then s1 else zero_mem s1 a ?c"
  have "s1\<lparr>phys := phys ?s2, conv_base := conv_base s1\<rparr> = ?s2" by (simp add: zero_mem_def)
  then have "\<exists>s3. sanitise_map ?s2 False = Inr s3"
    using sanitise_map_total [OF s1 inv l, where cb = "conv_base s1" and M = "phys ?s2"] by (simp only:)
  then obtain s3 where "sanitise_map ?s2 False = Inr s3" by blast
  then show ?thesis using c0 f s1 en by (simp add: ext_mem_alloc_impl_def Let_def)
qed

section \<open>The allocator below a limit\<close>

lemma below_fit_Some:
  assumes "below_fit limit c al up e = Some a" and al: "al \<noteq> 0"
  shows "me_type e = MEMMAP_USABLE" and "{unat a..<unat a + unat c} \<subseteq> cov e"
    and "unat al dvd unat a" and "unat a + unat c \<le> unat limit"
proof -
  have ok: "entry_ok e" and ty: "me_type e = MEMMAP_USABLE"
    using assms(1) by (auto simp: below_fit_def entry_top split: if_splits)
  let ?t = "me_base e + me_length e"
  let ?et = "if ?t > limit then limit else ?t"
  have ut: "unat ?t = hi e" "unat (me_base e) = lo e" using ok by (simp_all add: unat_entry_top lo_def)
  have et: "unat ?et = min (hi e) (unat limit)" using ut by (auto simp: word_nat)
  have c: "\<not> me_base e \<ge> ?et" "\<not> ?et - me_base e < c"
    "up \<Longrightarrow> ALIGN_UP (me_base e) al = Some a \<and> \<not> a > ?et - c"
    "\<not> up \<Longrightarrow> a = ALIGN_DOWN (?et - c) al \<and> \<not> a < me_base e"
    using assms(1) ok ty by (auto simp: below_fit_def entry_top Let_def split: if_splits option.splits)
  have le: "lo e \<le> unat ?et" using c(1) ut by (simp only: word_nat not_le)
  have "unat (?et - me_base e) = unat ?et - lo e" using le ut by (simp only: unat_sub_exact)
  then have room: "unat c \<le> unat ?et - lo e" using c(2) by (simp only: word_nat not_less)
  then have uc: "unat (?et - c) = unat ?et - unat c" using le by (intro unat_sub_exact) linarith
  have "unat al dvd unat a \<and> lo e \<le> unat a \<and> unat a \<le> unat ?et - unat c"
  proof (cases up)
    case True
    then show ?thesis
      using c(3) ALIGN_UP_Some [of "me_base e" al a] al uc ut by (simp only: word_nat not_less) simp
  next
    case False
    then have a: "a = ALIGN_DOWN (?et - c) al" "\<not> a < me_base e" using c(4) by auto
    show ?thesis using a(2) ut ALIGN_DOWN_dvd [of al "?et - c"] ALIGN_DOWN_le [of "?et - c" al] uc
      unfolding a(1) [symmetric] by (simp only: word_nat not_less simp_thms)
  qed
  moreover from this have "unat a + unat c \<le> unat ?et" using room le by linarith
  ultimately show "unat al dvd unat a" "unat a + unat c \<le> unat limit" "{unat a..<unat a + unat c} \<subseteq> cov e"
    unfolding et by (auto simp: cov_def)
  show "me_type e = MEMMAP_USABLE" by (fact ty)
qed

lemma below_search_Some:
  "below_search m limit c al up n = Some a \<Longrightarrow> \<exists>e\<in>set m. below_fit limit c al up e = Some a"
proof (induction m limit c al up n rule: below_search.induct)
  case (1 m limit c al up n)
  let ?i = "if up then n else length m - 1 - n"
  have n: "n < length m" using "1.prems" by (subst (asm) below_search.simps) (auto split: if_splits)
  show ?case
  proof (cases "below_fit limit c al up (m ! ?i)")
    case None
    then show ?thesis using 1 n by (subst (asm) (2) below_search.simps) simp
  next
    case (Some b)
    then have "a = b" using "1.prems" n by (subst (asm) below_search.simps) simp
    then show ?thesis using Some n by (intro bexI [of _ "m ! ?i"]) auto
  qed
qed

lemma ext_mem_alloc_below_Inr:
  assumes run: "ext_mem_alloc_type_aligned_below s n ty al limit up = Inr (a, s')"
    and inv: "pmm_inv s" and al: "al \<noteq> 0"
  shows "unat al dvd unat a \<and> unat a + rounded al n \<le> unat limit
    \<and> allocated s a (rounded al n) (rounded al n) ty s' \<and> phys s' = cleared (phys s) a (rounded al n)"
proof -
  obtain c0 where c0: "CHECKED_ADD (if n = 0 then 1 else n) (al - 1) = Some c0"
    using run by (auto simp: ext_mem_alloc_type_aligned_below_def split: option.splits)
  let ?c = "ALIGN_DOWN c0 al"
  note uc = rounded_word [OF c0 al]
  obtain b s1 where s: "below_search (memmap s) limit ?c al up 0 = Some a"
    and r1: "memmap_alloc_range s a ?c ty MEMMAP_USABLE True False False = Inr (b, s1)"
    and san: "sanitise_map (zero_mem s1 a ?c) False = Inr s'"
    using run c0 by (auto simp: ext_mem_alloc_type_aligned_below_def Let_def split: if_splits option.splits)
  obtain e where e: "e \<in> set (memmap s)" "below_fit limit ?c al up e = Some a"
    using below_search_Some [OF s] by blast
  note f = below_fit_Some [OF e(2) al]
  have z: "zero_mem s1 a ?c = s1\<lparr>phys := cleared (phys s1) a (unat ?c), conv_base := conv_base s1\<rparr>"
    by (simp add: zero_mem_def cleared_def)
  have "?c \<noteq> 0" using uc rounded_ge [OF al, of n] by (metis less_irrefl unat_0)
  moreover have "4096 dvd unat (conv_base s1)"
    using r1 inv by (auto simp: memmap_alloc_range_def pmm_inv_def)
  ultimately have c: "pmm_inv s'" "{unat a..<unat a + unat ?c} \<subseteq> mem_types s MEMMAP_USABLE"
    "\<And>t. mem_types s' t = assign {unat a..<unat a + unat ?c} ty (mem_types s) t"
    "phys s' = cleared (phys s1) a (unat ?c)" "same_setup s s'" "phys s1 = phys s"
    using reserve_correct [OF r1 disjI2 [OF TrueI] z san inv] by auto
  then show ?thesis using f(3,4) uc by (auto simp: allocated_def)
qed

section \<open>The conventional memory allocator\<close>

lemma dvd_unat_add: "4096 dvd unat a \<Longrightarrow> 4096 dvd unat b \<Longrightarrow> 4096 dvd unat (a + b :: u64)"
  by (simp add: unat_word_ariths dvd_mod)

lemma conv_loop_Inr:
  assumes "conv_loop s base cnt = Inr (a, s')" and "pmm_inv s" and "cnt \<noteq> 0"
    and "4096 dvd unat base" and "4096 dvd unat cnt"
  shows "4096 dvd unat a \<and> unat a + unat cnt \<le> 0x100000
    \<and> allocated s a (unat cnt) (unat cnt) MEMMAP_BOOTLOADER_RECLAIMABLE s'
    \<and> phys s' = cleared (phys s) a (unat cnt) \<and> conv_base s' = a + cnt"
  using assms
proof (induction s base cnt rule: conv_loop.induct)
  case (1 s base cnt)
  note run = "1.prems"(1) and inv = "1.prems"(2) and cnt = "1.prems"(3)
  let ?alloc = "memmap_alloc_range s base cnt MEMMAP_BOOTLOADER_RECLAIMABLE MEMMAP_USABLE False False False"
  have low: "\<not> base + cnt > 0x100000" using run by (subst (asm) conv_loop.simps) (auto split: if_splits)
  have mi: "map_inv (pmm_sanitiser_keep_first_page s) (memmap s)" using inv by (simp add: pmm_inv_def)
  obtain b s1 where r: "?alloc = Inr (b, s1)"
    using run low by (subst (asm) conv_loop.simps) (auto split: sum.splits)
  then obtain m1 where m1: "memmap_alloc_range_in (memmap_max_entries s) (pmm_sanitiser_keep_first_page s)
      (memmap s) base cnt MEMMAP_BOOTLOADER_RECLAIMABLE MEMMAP_USABLE False False False = Inr (b, m1)"
    and s1: "s1 = s\<lparr>memmap := m1\<rparr>" by (auto simp: memmap_alloc_range_def)
  note c = memmap_alloc_range_in_Inr [OF m1 mi cnt]
  show ?case
  proof (cases b)
    case False
    then have "s1 = s" using c(2) s1 by simp
    moreover have "conv_loop s1 (base + 4096) cnt = Inr (a, s')"
      using run low r False by (subst (asm) conv_loop.simps) simp
    moreover have "4096 dvd unat (base + 4096)" using "1.prems"(4) by (intro dvd_unat_add) auto
    ultimately show ?thesis
      using "1.IH" [OF low r refl] False inv cnt "1.prems"(5) by simp
  next
    case True
    let ?s2 = "(zero_mem s1 base cnt)\<lparr>conv_base := base + cnt\<rparr>"
    have san: "sanitise_map ?s2 False = Inr s'" and a: "a = base"
      using run low r True by (subst (asm) conv_loop.simps, auto)+
    have z: "?s2 = s1\<lparr>phys := cleared (phys s1) base (unat cnt), conv_base := base + cnt\<rparr>"
      by (simp add: zero_mem_def cleared_def)
    have cb: "4096 dvd unat (base + cnt)" using "1.prems"(4,5) by (rule dvd_unat_add)
    have "unat base + unat cnt \<le> 0x100000"
      using c(4) [OF True] low by (simp add: word_nat unat_word_ariths)
    then show ?thesis
      using reserve_correct [OF r _ z san inv cnt cb] True "1.prems"(4) by (auto simp: a allocated_def)
  qed
qed

lemma rounded_page:
  assumes "ALIGN_UP (if n = 0 then 1 else n) 4096 = Some c"
  shows "unat c = rounded 4096 n" and "c \<noteq> 0" and "4096 dvd unat c"
proof -
  have "unat (if n = 0 then 1 else n) = max 1 (unat n)" using unat_gt_0 [of n] by auto
  then show uc: "unat c = rounded 4096 n"
    using ALIGN_UP_unat [OF assms] by (simp add: rounded_def)
  have "0 < rounded 4096 n" using rounded_ge [of 4096 n] by simp
  then show "c \<noteq> 0" using uc by auto
  show "4096 dvd unat c" by (simp add: uc rounded_def)
qed

lemma conv_mem_alloc_Inr:
  assumes run: "conv_mem_alloc s n = Inr (a, s')" and inv: "pmm_inv s"
  shows "4096 dvd unat a \<and> unat a + rounded 4096 n \<le> 0x100000
    \<and> allocated s a (rounded 4096 n) (rounded 4096 n) MEMMAP_BOOTLOADER_RECLAIMABLE s'
    \<and> phys s' = cleared (phys s) a (rounded 4096 n)"
proof -
  obtain c where c: "ALIGN_UP (if n = 0 then 1 else n) 4096 = Some c"
    and l: "conv_loop s (conv_base s) c = Inr (a, s')"
    using run by (auto simp: conv_mem_alloc_def split: if_splits option.splits)
  then show ?thesis
    using conv_loop_Inr [OF l inv] inv rounded_page [OF c] by (simp add: pmm_inv_def)
qed

section \<open>Freeing\<close>

lemma pmm_free_Inr:
  assumes run: "pmm_free s p n = Inr s'" and inv: "pmm_inv s" and p: "p \<noteq> 0"
    and fits: "unat p + rounded 4096 n < 2 ^ 64"
  defines "R \<equiv> {unat p..<unat p + rounded 4096 n}"
  shows "pmm_inv s'" and "mem_types s' t = clip_usable (pmm_sanitiser_keep_first_page s)
      (assign R MEMMAP_USABLE (mem_types s)) t"
    and "phys s' = phys s" and "same_setup s s'"
proof -
  obtain c b m1 where c: "ALIGN_UP (if n = 0 then 1 else n) 4096 = Some c"
    and m1: "memmap_alloc_range_in (memmap_max_entries s) (pmm_sanitiser_keep_first_page s) (memmap s)
      p c MEMMAP_USABLE 0 False False True = Inr (b, m1)" and s': "s' = s\<lparr>memmap := m1\<rparr>"
    using run p by (auto simp: pmm_free_def memmap_alloc_range_def split: if_splits option.splits)
  note uc = rounded_page [OF c]
  have mi: "map_inv (pmm_sanitiser_keep_first_page s) (memmap s)" using inv by (simp add: pmm_inv_def)
  note r = memmap_alloc_range_in_Inr [OF m1 mi uc(2)]
  have "CHECKED_ADD p c = Some (p + c)" using fits uc(1) by (simp add: checked_simps)
  then have b using m1 uc(2) by (auto simp: memmap_alloc_range_in_def)
  then show "mem_types s' t = clip_usable (pmm_sanitiser_keep_first_page s)
      (assign R MEMMAP_USABLE (mem_types s)) t"
    using r(3) uc(1) by (simp add: mem_types_def s' R_def)
  show "pmm_inv s'" using r(1) inv by (simp add: pmm_inv_def s')
  show "phys s' = phys s" "same_setup s s'" by (simp_all add: s' same_setup_def)
qed

section \<open>An example state\<close>

text \<open>One usable entry of 64KiB, on which the properties are evaluated.\<close>

definition example_pmm :: pmm where
  "example_pmm =
     \<lparr>memmap = [\<lparr>me_base = 0x10000, me_length = 0x10000, me_type = MEMMAP_USABLE\<rparr>],
      memmap_max_entries = 8, allocations_disallowed = False,
      pmm_sanitiser_keep_first_page = False, conv_base = 0x10000, phys = (\<lambda>_. 1)\<rparr>"

lemma example_pmm_inv: "pmm_inv example_pmm"
  by (auto simp: example_pmm_def pmm_inv_def map_inv_def memmap_wf_def all_ok_def usable_apart_def
      mem_of_def typed_def claimed_def above_first_page_def cov_def extent)

end
