(* ===== verification/Pmm_Heap.thy ===== *)
theory Pmm_Heap
  imports Pmm_Alloc_Proof
begin

text \<open>
  The allocators as one heap. A locale states the contract that all of them share, and what
  follows from it for a sequence of requests; it is interpreted for the top-down allocator, the
  allocator below a limit and the conventional memory allocator. A step relation then mixes
  allocations, frees and writes of the owners, and keeps the live blocks apart.
\<close>

section \<open>Bounds\<close>

lemma mem_types_bound: "pmm_inv s \<Longrightarrow> mem_types s t \<subseteq> {..<2 ^ 64 - 1}"
proof -
  assume "pmm_inv s"
  then have "all_ok (memmap s)" using map_inv_ok by (auto simp: pmm_inv_def)
  then show ?thesis
    unfolding mem_types_def mem_of_def typed_def all_ok_def list_all_iff entry_ok_def cov_def by auto
qed

lemma usable_disjoint: "t \<noteq> MEMMAP_USABLE \<Longrightarrow> mem_types s MEMMAP_USABLE \<inter> mem_types s t = {}"
  by (auto simp: mem_types_def mem_of_def claimed_def typed_def)

lemma in_range_block:
  assumes "pmm_inv s" and "{unat a..<unat a + len} \<subseteq> mem_types s t" and "k \<le> len"
  shows "in_range a k x \<longleftrightarrow> unat x \<in> {unat a..<unat a + k}"
proof (cases "len = 0")
  case False
  then have "unat a + len - 1 \<in> {unat a..<unat a + len}" by simp
  then have "unat a + len - 1 < 2 ^ 64 - 1" using assms(2) mem_types_bound [OF assms(1)] by blast
  then have "unat a + k \<le> 2 ^ 64" using assms(3) False by linarith
  then show ?thesis by (simp add: in_range_nat)
qed (use assms(3) in simp)

section \<open>The contract of an allocator\<close>

text \<open>A request of \<open>n\<close> bytes that returns a block of \<open>bsize n\<close> cleared bytes of type \<open>ty\<close>.\<close>

locale allocator =
  fixes alloc :: "pmm \<Rightarrow> u64 \<Rightarrow> (u64 \<times> pmm) res"
    and bsize :: "u64 \<Rightarrow> nat" and ty :: u32
  assumes alloc_spec: "alloc s n = Inr (a, s') \<Longrightarrow> pmm_inv s \<Longrightarrow>
      \<exists>len. allocated s a (bsize n) len ty s' \<and> phys s' = cleared (phys s) a (bsize n)"
    and bsize_ge: "unat n \<le> bsize n"
    and ty_reserved: "ty \<noteq> MEMMAP_USABLE"

text \<open>A list of requests, one after the other.\<close>

primrec alloc_seq ::
    "(pmm \<Rightarrow> u64 \<Rightarrow> (u64 \<times> pmm) res) \<Rightarrow> pmm \<Rightarrow> u64 list \<Rightarrow> (u64 list \<times> pmm) res" where
  "alloc_seq alloc s [] = Inr ([], s)"
| "alloc_seq alloc s (n # ns) =
     res_bind (alloc s n) (\<lambda>(a, s1).
       res_bind (alloc_seq alloc s1 ns) (\<lambda>(as, s2). Inr (a # as, s2)))"

context allocator
begin

lemma alloc_keeps:
  assumes "alloc s n = Inr (a, s')" and "pmm_inv s"
  shows "pmm_inv s'" and "same_setup s s'"
    and "{unat a..<unat a + bsize n} \<subseteq> mem_types s MEMMAP_USABLE"
    and "{unat a..<unat a + bsize n} \<subseteq> mem_types s' ty"
    and "t \<noteq> MEMMAP_USABLE \<Longrightarrow> t \<noteq> ty \<Longrightarrow> mem_types s' t = mem_types s t"
    and "mem_types s ty \<subseteq> mem_types s' ty"
    and "mem_types s' MEMMAP_USABLE \<subseteq> mem_types s MEMMAP_USABLE"
proof -
  obtain len where al: "allocated s a (bsize n) len ty s'"
    using alloc_spec [OF assms] by blast
  let ?R = "{unat a..<unat a + len}"
  have sub: "bsize n \<le> len" "?R \<subseteq> mem_types s MEMMAP_USABLE"
    and eq: "mem_types s' = assign ?R ty (mem_types s)" using al by (auto simp: allocated_def)
  show "pmm_inv s'" "same_setup s s'" using al by (auto simp: allocated_def)
  show "{unat a..<unat a + bsize n} \<subseteq> mem_types s MEMMAP_USABLE" using sub by auto
  have dis: "mem_types s t \<inter> ?R = {}" if "t \<noteq> MEMMAP_USABLE" for t
    using usable_disjoint [OF that, of s] sub(2) by blast
  show "{unat a..<unat a + bsize n} \<subseteq> mem_types s' ty" using sub(1) by (auto simp: eq assign_def)
  show "t \<noteq> MEMMAP_USABLE \<Longrightarrow> t \<noteq> ty \<Longrightarrow> mem_types s' t = mem_types s t"
    using dis by (auto simp: eq assign_def)
  show "mem_types s ty \<subseteq> mem_types s' ty" by (auto simp: eq assign_def)
  show "mem_types s' MEMMAP_USABLE \<subseteq> mem_types s MEMMAP_USABLE"
    using ty_reserved by (auto simp: eq assign_def)
qed

lemma alloc_clears:
  assumes "alloc s n = Inr (a, s')" and "pmm_inv s"
  shows "phys s' x = (if unat x \<in> {unat a..<unat a + bsize n} then 0 else phys s x)"
  using alloc_spec [OF assms] in_range_block [OF assms(2) alloc_keeps(3) [OF assms] order_refl, of x]
  by (auto simp: cleared_def)

text \<open>
  The blocks of a sequence lie in memory that was usable, are apart, and stay cleared.
\<close>

lemma alloc_seq_Inr:
  assumes "alloc_seq alloc s ns = Inr (as, s')" and "pmm_inv s"
  defines "block \<equiv> \<lambda>k. {unat (as ! k)..<unat (as ! k) + bsize (ns ! k)}"
  shows "length as = length ns" and "pmm_inv s'"
    and "k < length ns \<Longrightarrow> block k \<subseteq> mem_types s MEMMAP_USABLE \<inter> mem_types s' ty"
    and "k < length ns \<Longrightarrow> l < length ns \<Longrightarrow> k \<noteq> l \<Longrightarrow> block k \<inter> block l = {}"
    and "k < length ns \<Longrightarrow> unat x \<in> block k \<Longrightarrow> phys s' x = 0"
    and "mem_types s ty \<subseteq> mem_types s' ty" and "(\<forall>k<length ns. unat x \<notin> block k) \<Longrightarrow> phys s' x = phys s x"
proof -
  have "length as = length ns \<and> pmm_inv s' \<and> mem_types s ty \<subseteq> mem_types s' ty
    \<and> (\<forall>k<length ns. block k \<subseteq> mem_types s MEMMAP_USABLE \<inter> mem_types s' ty)
    \<and> (\<forall>k<length ns. \<forall>l<length ns. k \<noteq> l \<longrightarrow> block k \<inter> block l = {})
    \<and> (\<forall>x. phys s' x = (if \<exists>k<length ns. unat x \<in> block k then 0 else phys s x))"
    using assms(1,2) unfolding block_def
  proof (induction ns arbitrary: s as)
    case Nil
    then show ?case by simp
  next
    case (Cons n ns)
    obtain a s1 bs where a: "alloc s n = Inr (a, s1)" and r: "alloc_seq alloc s1 ns = Inr (bs, s')"
      and as: "as = a # bs" using Cons.prems(1) by auto
    note k = alloc_keeps [OF a Cons.prems(2)] and z = alloc_clears [OF a Cons.prems(2)]
    note ih = Cons.IH [OF r k(1)]
    let ?B = "\<lambda>k. {unat (bs ! k)..<unat (bs ! k) + bsize (ns ! k)}"
    let ?b = "{unat a..<unat a + bsize n}"
    have apart: "?b \<inter> ?B j = {}" if "j < length ns" for j
      using ih that k(4) usable_disjoint [OF ty_reserved, of s1] by blast
    have in_u: "?B j \<subseteq> mem_types s MEMMAP_USABLE" if "j < length ns" for j
      using ih that k(7) by blast
    have "?b \<subseteq> mem_types s' ty" using ih k(4) by blast
    moreover have "\<forall>j<length ns. ?b \<inter> ?B j = {} \<and> ?B j \<inter> ?b = {}" using apart by blast
    moreover have "phys s' x = (if unat x \<in> ?b \<or> (\<exists>j<length ns. unat x \<in> ?B j) then 0 else phys s x)" for x
      using ih z [of x] apart by auto
    ultimately show ?case using ih k(3,6) in_u unfolding as
      by (simp add: All_less_Suc2 Ex_less_Suc2) blast
  qed
  then show "length as = length ns" "pmm_inv s'"
    "k < length ns \<Longrightarrow> block k \<subseteq> mem_types s MEMMAP_USABLE \<inter> mem_types s' ty"
    "k < length ns \<Longrightarrow> l < length ns \<Longrightarrow> k \<noteq> l \<Longrightarrow> block k \<inter> block l = {}"
    "k < length ns \<Longrightarrow> unat x \<in> block k \<Longrightarrow> phys s' x = 0" "mem_types s ty \<subseteq> mem_types s' ty"
    "(\<forall>k<length ns. unat x \<notin> block k) \<Longrightarrow> phys s' x = phys s x"
    by auto
qed

end

section \<open>The allocators meet the contract\<close>

definition ext_alloc_addr :: "arch \<Rightarrow> pmm \<Rightarrow> u64 \<Rightarrow> (u64 \<times> pmm) res" where
  "ext_alloc_addr arch s n = res_bind (ext_mem_alloc arch s n) (\<lambda>(p, s'). Inr (ptr_addr p, s'))"

lemmas ext_mem_alloc_defs =
  ext_mem_alloc_def ext_mem_alloc_type_def ext_mem_alloc_type_aligned_def ext_mem_alloc_type_aligned_mode_def

lemma reserved_types: "MEMMAP_BOOTLOADER_RECLAIMABLE \<noteq> MEMMAP_USABLE"
  by (simp add: memmap_types)

interpretation ext: allocator "ext_alloc_addr arch" "rounded 4096" MEMMAP_BOOTLOADER_RECLAIMABLE
  for arch
proof
  fix s n a s' assume run: "ext_alloc_addr arch s n = Inr (a, s')" and inv: "pmm_inv s"
  then obtain p where p: "ext_mem_alloc_impl arch s n MEMMAP_BOOTLOADER_RECLAIMABLE 4096 False True = Inr (p, s')"
    "a = ptr_addr p" by (auto simp: ext_alloc_addr_def ext_mem_alloc_defs)
  show "\<exists>len. allocated s a (rounded 4096 n) len MEMMAP_BOOTLOADER_RECLAIMABLE s'
      \<and> phys s' = cleared (phys s) a (rounded 4096 n)"
    using ext_mem_alloc_impl_Inr [OF p(1) inv] p(2) by auto
qed (use rounded_ge [of 4096] reserved_types in auto)

interpretation below: allocator
  "\<lambda>s n. ext_mem_alloc_type_aligned_below s n MEMMAP_BOOTLOADER_RECLAIMABLE 4096 limit up"
  "rounded 4096" MEMMAP_BOOTLOADER_RECLAIMABLE for limit up
proof
  fix s n a s'
  assume "ext_mem_alloc_type_aligned_below s n MEMMAP_BOOTLOADER_RECLAIMABLE 4096 limit up = Inr (a, s')"
    and "pmm_inv s"
  from ext_mem_alloc_below_Inr [OF this]
  show "\<exists>len. allocated s a (rounded 4096 n) len MEMMAP_BOOTLOADER_RECLAIMABLE s'
      \<and> phys s' = cleared (phys s) a (rounded 4096 n)" by auto
qed (use rounded_ge [of 4096] reserved_types in auto)

interpretation conv: allocator conv_mem_alloc "rounded 4096" MEMMAP_BOOTLOADER_RECLAIMABLE
proof
  fix s n a s' assume "conv_mem_alloc s n = Inr (a, s')" and "pmm_inv s"
  from conv_mem_alloc_Inr [OF this]
  show "\<exists>len. allocated s a (rounded 4096 n) len MEMMAP_BOOTLOADER_RECLAIMABLE s'
      \<and> phys s' = cleared (phys s) a (rounded 4096 n)" by auto
qed (use rounded_ge [of 4096] reserved_types in auto)

section \<open>The heap as a transition system\<close>

text \<open>
  A configuration is the state with the set of live blocks, each an address, a size and a
  type. Requests of any type and alignment go through the top-down allocator or the allocator
  below a limit; a free gives back a whole block; the owner of a block may write to it.
\<close>

type_synonym block = "u64 \<times> nat \<times> u32"

definition block_range :: "block \<Rightarrow> nat set" where
  "block_range b = (case b of (a, k, ty) \<Rightarrow> {unat a..<unat a + k})"

datatype heap_op = Alloc | Free | Owner_Write block

inductive heap_step :: "arch \<Rightarrow> heap_op \<Rightarrow> pmm \<times> block set \<Rightarrow> pmm \<times> block set \<Rightarrow> bool" for arch where
  high: "ext_mem_alloc_type_aligned_mode arch s n ty al False = Inr (Ptr a, s') \<Longrightarrow>
    al \<noteq> 0 \<Longrightarrow> ty \<noteq> MEMMAP_USABLE \<Longrightarrow>
    heap_step arch Alloc (s, L) (s', insert (a, rounded al n, ty) L)"
| below: "ext_mem_alloc_type_aligned_below s n ty al limit up = Inr (a, s') \<Longrightarrow>
    al \<noteq> 0 \<Longrightarrow> ty \<noteq> MEMMAP_USABLE \<Longrightarrow>
    heap_step arch Alloc (s, L) (s', insert (a, rounded al n, ty) L)"
| conv: "conv_mem_alloc s n = Inr (a, s') \<Longrightarrow>
    heap_step arch Alloc (s, L) (s', insert (a, rounded 4096 n, MEMMAP_BOOTLOADER_RECLAIMABLE) L)"
| free: "(a, rounded 4096 n, ty) \<in> L \<Longrightarrow> a \<noteq> 0 \<Longrightarrow> pmm_free s a n = Inr s' \<Longrightarrow>
    heap_step arch Free (s, L) (s', L - {(a, rounded 4096 n, ty)})"
| owner: "b \<in> L \<Longrightarrow> (\<forall>x. unat x \<notin> block_range b \<longrightarrow> M x = phys s x) \<Longrightarrow>
    heap_step arch (Owner_Write b) (s, L) (s\<lparr>phys := M\<rparr>, L)"

inductive_cases heap_stepE: "heap_step arch op (s, L) (s', L')"

definition heap_ok :: "pmm \<times> block set \<Rightarrow> bool" where
  "heap_ok c \<longleftrightarrow> (case c of (s, L) \<Rightarrow>
     pmm_inv s
     \<and> (\<forall>(a, k, ty)\<in>L. ty \<noteq> MEMMAP_USABLE \<and> {unat a..<unat a + k} \<subseteq> mem_types s ty)
     \<and> (\<forall>b\<in>L. \<forall>b'\<in>L. b \<noteq> b' \<longrightarrow> block_range b \<inter> block_range b' = {}))"

lemma heap_okD:
  assumes "heap_ok (s, L)"
  shows "pmm_inv s" and "(a, k, ty) \<in> L \<Longrightarrow> ty \<noteq> MEMMAP_USABLE \<and> {unat a..<unat a + k} \<subseteq> mem_types s ty"
    and "b \<in> L \<Longrightarrow> b' \<in> L \<Longrightarrow> b \<noteq> b' \<Longrightarrow> block_range b \<inter> block_range b' = {}"
  using assms by (auto simp: heap_ok_def)

lemma block_bound:
  assumes ok: "heap_ok (s, L)" and b: "(a, k, ty) \<in> L" and k: "0 < k"
  shows "unat a + k < 2 ^ 64"
proof -
  have "unat a + k - 1 \<in> {unat a..<unat a + k}" using k by auto
  then have "unat a + k - 1 < 2 ^ 64 - 1"
    using heap_okD(2) [OF ok b] mem_types_bound [OF heap_okD(1) [OF ok]] by blast
  then show ?thesis by linarith
qed

text \<open>What an allocation of either kind does to the configuration.\<close>

lemma heap_ok_allocated:
  assumes ok: "heap_ok (s, L)" and al: "allocated s a k len ty s'" and ty: "ty \<noteq> MEMMAP_USABLE"
    and ph: "phys s' = cleared (phys s) a k"
  shows "heap_ok (s', insert (a, k, ty) L)"
    and "b \<in> L \<Longrightarrow> unat x \<in> block_range b \<Longrightarrow> phys s' x = phys s x"
proof -
  let ?R = "{unat a..<unat a + len}"
  have a: "k \<le> len" "?R \<subseteq> mem_types s MEMMAP_USABLE" "mem_types s' = assign ?R ty (mem_types s)" "pmm_inv s'"
    using al by (auto simp: allocated_def)
  note inv = heap_okD(1) [OF ok] and live = heap_okD(2) [OF ok]
  have apart: "block_range b \<inter> ?R = {}" if "b \<in> L" for b
  proof -
    obtain p n t where b: "b = (p, n, t)" by (cases b)
    then have "block_range b \<subseteq> mem_types s t" "t \<noteq> MEMMAP_USABLE" using live that by (auto simp: block_range_def)
    then show ?thesis using usable_disjoint [of t s] a(2) by blast
  qed
  have sub: "{unat a..<unat a + k} \<subseteq> ?R" using a(1) by auto
  show "heap_ok (s', insert (a, k, ty) L)"
    unfolding heap_ok_def
  proof (simp only: prod.case, intro conjI ballI impI)
    show "pmm_inv s'" by (fact a(4))
  next
    fix b assume b: "b \<in> insert (a, k, ty) L"
    show "case b of (a, k, ty) \<Rightarrow> ty \<noteq> MEMMAP_USABLE \<and> {unat a..<unat a + k} \<subseteq> mem_types s' ty"
    proof (cases "b = (a, k, ty)")
      case False
      then obtain p n t where "b = (p, n, t)" "b \<in> L" using b by (cases b) auto
      then show ?thesis using live [of p n t] apart [of b] by (auto simp: a(3) assign_def block_range_def)
    qed (use ty sub in \<open>auto simp: a(3) assign_def\<close>)
  next
    fix b b' assume bb: "b \<in> insert (a, k, ty) L" "b' \<in> insert (a, k, ty) L" "b \<noteq> b'"
    have new: "block_range (a, k, ty) \<subseteq> ?R" using sub by (simp add: block_range_def)
    note old = heap_okD(3) [OF ok]
    from bb consider "b \<in> L" "b' \<in> L" | "b = (a, k, ty)" "b' \<in> L" | "b \<in> L" "b' = (a, k, ty)" by blast
    then show "block_range b \<inter> block_range b' = {}"
      using apart [of b] apart [of b'] new old bb(3) by cases blast+
  qed
  show "b \<in> L \<Longrightarrow> unat x \<in> block_range b \<Longrightarrow> phys s' x = phys s x"
    using apart [of b] in_range_block [OF inv a(2,1), of x] sub by (auto simp: ph cleared_def)
qed

lemma heap_ok_free:
  assumes ok: "heap_ok (s, L)" and b: "(a, rounded 4096 n, ty) \<in> L" and a: "a \<noteq> 0"
    and run: "pmm_free s a n = Inr s'"
  shows "heap_ok (s', L - {(a, rounded 4096 n, ty)})" and "phys s' = phys s"
    and "mem_types s' MEMMAP_USABLE = mem_types s MEMMAP_USABLE
      \<union> {unat a..<unat a + rounded 4096 n} \<inter> above_first_page (pmm_sanitiser_keep_first_page s)"
proof -
  let ?k = "rounded 4096 n" and ?keep = "pmm_sanitiser_keep_first_page s"
  let ?R = "{unat a..<unat a + ?k}"
  note inv = heap_okD(1) [OF ok] and live = heap_okD(2) [OF ok] and apart = heap_okD(3) [OF ok]
  have "unat a + ?k < 2 ^ 64" using block_bound [OF ok b] rounded_ge [of 4096 n] by simp
  note f = pmm_free_Inr [OF run inv a this]
  show "phys s' = phys s" by (fact f(3))
  have us: "mem_types s MEMMAP_USABLE \<subseteq> above_first_page ?keep"
    using inv by (simp add: pmm_inv_def map_inv_def mem_types_def)
  show "mem_types s' MEMMAP_USABLE = mem_types s MEMMAP_USABLE \<union> ?R \<inter> above_first_page ?keep"
    using us unfolding f(2) clip_usable_def assign_def by auto
  have keep: "{unat p..<unat p + m} \<subseteq> mem_types s' t"
    if l: "(p, m, t) \<in> L" "(p, m, t) \<noteq> (a, ?k, ty)" for p m t
  proof -
    have "{unat p..<unat p + m} \<inter> ?R = {}" using apart [OF l(1) b l(2)] by (simp add: block_range_def)
    then show ?thesis using live [OF l(1)] by (auto simp: f(2) clip_usable_def assign_def)
  qed
  show "heap_ok (s', L - {(a, ?k, ty)})"
    unfolding heap_ok_def prod.case using f(1) live keep apart by blast
qed

text \<open>Every step keeps the invariant, and touches no block but the one it writes.\<close>

lemma heap_step_ok:
  assumes "heap_step arch op (s, L) (s', L')" and ok: "heap_ok (s, L)"
  shows "heap_ok (s', L') \<and>
    (\<forall>b\<in>L. op \<noteq> Owner_Write b \<longrightarrow> (\<forall>x. unat x \<in> block_range b \<longrightarrow> phys s' x = phys s x))"
  using assms(1)
proof (cases rule: heap_stepE [consumes 1, case_names high below conv free owner])
  case (high n ty al a)
  note inv = heap_okD(1) [OF ok]
  obtain len where "allocated s a (rounded al n) len ty s'" "phys s' = cleared (phys s) a (rounded al n)"
    using ext_mem_alloc_impl_Inr [OF high(3) [unfolded ext_mem_alloc_type_aligned_mode_def] inv high(4)] by auto
  then show ?thesis using heap_ok_allocated [OF ok _ high(5)] high(2) by blast
next
  case (below n ty al limit up a)
  note inv = heap_okD(1) [OF ok]
  show ?thesis
    using ext_mem_alloc_below_Inr [OF below(3) inv below(4)] heap_ok_allocated [OF ok _ below(5)] below(2) by blast
next
  case (conv n a)
  note inv = heap_okD(1) [OF ok]
  show ?thesis
    using conv_mem_alloc_Inr [OF conv(3) inv] heap_ok_allocated [OF ok _ reserved_types] conv(2) by blast
next
  case (free a n ty)
  then show ?thesis using heap_ok_free [OF ok] by simp
next
  case (owner b M)
  have "block_range b' \<inter> block_range b = {}" if "b' \<in> L" "b' \<noteq> b" for b'
    using heap_okD(3) [OF ok that(1) _ that(2)] owner(2,4) by simp
  then have "M x = phys s x" if "b' \<in> L" "b' \<noteq> b" "unat x \<in> block_range b'" for b' x
    using that owner(5) by blast
  moreover have "heap_ok (s\<lparr>phys := M\<rparr>, L)" using ok by (simp add: heap_ok_def pmm_inv_def mem_types_def)
  ultimately show ?thesis using owner(1-3) by auto
qed

section \<open>Reallocating\<close>

lemma heap_ok_phys: "heap_ok (s\<lparr>phys := M\<rparr>, L) \<longleftrightarrow> heap_ok (s, L)"
  by (simp add: heap_ok_def pmm_inv_def mem_types_def)

lemma block_in_range:
  assumes ok: "heap_ok (s, L)" and b: "(a, k, ty) \<in> L" and n: "n \<le> k"
  shows "in_range a n x \<longleftrightarrow> unat x \<in> {unat a..<unat a + n}"
  using in_range_block [OF heap_okD(1) [OF ok] conjunct2 [OF heap_okD(2) [OF ok b]] n] .

text \<open>Copying between two live blocks.\<close>

lemma copy_between_blocks:
  assumes ok: "heap_ok (s, L)" and d: "(d, k, ty) \<in> L" and f: "(f, j, ty') \<in> L"
    and ne: "(d, k, ty) \<noteq> (f, j, ty')" and n: "unat n \<le> k" "unat n \<le> j"
  shows "copy_phys s d f n = s\<lparr>phys := copied (phys s) d f (unat n)\<rparr>"
proof -
  have dis: "{unat d..<unat d + k} \<inter> {unat f..<unat f + j} = {}"
    using heap_okD(3) [OF ok d f ne] by (simp add: block_range_def)
  have "\<not> (in_range f (unat n) x \<and> in_range d (unat n) x)" for x
  proof -
    have "unat x \<notin> {unat d..<unat d + k} \<inter> {unat f..<unat f + j}" unfolding dis by simp
    then show ?thesis using n unfolding block_in_range [OF ok d n(1)] block_in_range [OF ok f n(2)] by auto
  qed
  then show ?thesis using unat_bound [of n] by (simp add: copy_phys_def memcpy_eq)
qed

lemma in_range_offset: "i < 2 ^ 64 \<Longrightarrow> in_range a n (a + of_nat i) \<longleftrightarrow> i < n"
  by (simp add: in_range_def unat_of_nat)

lemma fresh_block:
  assumes ok: "heap_ok (s, L)" and al: "allocated s a k len ty s'" and k: "0 < k"
  shows "(a, k, ty') \<notin> L"
proof
  assume l: "(a, k, ty') \<in> L"
  have "{unat a..<unat a + k} \<subseteq> mem_types s MEMMAP_USABLE" using al by (auto simp: allocated_def)
  then show False using heap_okD(2) [OF ok l] usable_disjoint [of ty' s] k by force
qed

lemma pmm_realloc_Inr:
  assumes run: "pmm_realloc arch s p osz nsz = Inr (q, s')" and ok: "heap_ok (s, L)" and p: "p \<noteq> 0"
    and b: "(p, rounded 4096 osz, ty) \<in> L"
  defines "b \<equiv> (p, rounded 4096 osz, ty)" and "n \<equiv> min (unat nsz) (unat osz)"
  shows "\<exists>a. q = Ptr a
    \<and> heap_ok (s', insert (a, rounded 4096 nsz, MEMMAP_BOOTLOADER_RECLAIMABLE) (L - {b}))
    \<and> (\<forall>i<n. phys s' (a + of_nat i) = phys s (p + of_nat i))
    \<and> (\<forall>i. n \<le> i \<and> i < rounded 4096 nsz \<longrightarrow> phys s' (a + of_nat i) = 0)
    \<and> (\<forall>b'\<in>L. \<forall>x. unat x \<in> block_range b' \<longrightarrow> phys s' x = phys s x)"
proof -
  obtain s1 where al: "ext_mem_alloc_impl arch s nsz MEMMAP_BOOTLOADER_RECLAIMABLE 4096 False True = Inr (q, s1)"
    and fr: "pmm_free (copy_phys s1 (ptr_addr q) p (C_MIN nsz osz)) p osz = Inr s'"
    using run p by (auto simp: pmm_realloc_def ext_mem_alloc_defs)
  obtain a len where q: "q = Ptr a"
    and a: "allocated s a (rounded 4096 nsz) len MEMMAP_BOOTLOADER_RECLAIMABLE s1"
    and ph: "phys s1 = cleared (phys s) a (rounded 4096 nsz)"
    using ext_mem_alloc_impl_Inr [OF al heap_okD(1) [OF ok]] by auto
  let ?new = "(a, rounded 4096 nsz, MEMMAP_BOOTLOADER_RECLAIMABLE)"
  note st = heap_ok_allocated [OF ok a reserved_types ph]
  have sz: "n \<le> rounded 4096 nsz" "n \<le> rounded 4096 osz" "0 < rounded 4096 nsz"
    using rounded_ge [of 4096 nsz] rounded_ge [of 4096 osz] by (auto simp: n_def)
  have n: "unat (C_MIN nsz osz) = n"
    by (simp add: n_def)
  have new: "?new \<notin> L" using fresh_block [OF ok a sz(3)] .
  let ?M = "copied (phys s1) a p n"
  have ne: "?new \<noteq> (p, rounded 4096 osz, ty)" using new b by metis
  have "copy_phys s1 a p (C_MIN nsz osz) = s1\<lparr>phys := ?M\<rparr>"
    using copy_between_blocks [OF st(1) insertI1 insertI2 [OF b] ne, of "C_MIN nsz osz"] sz(1,2)
    unfolding n by (simp only:)
  then have fr': "pmm_free (s1\<lparr>phys := ?M\<rparr>) p osz = Inr s'" using fr q by simp
  have okc: "heap_ok (s1\<lparr>phys := ?M\<rparr>, insert ?new L)" using st(1) by (simp only: heap_ok_phys)
  note f = heap_ok_free [OF okc _ p fr', of ty]
  have s': "phys s' = ?M" using f(2) b by simp
  have bnd: "rounded 4096 nsz \<le> 2 ^ 64" using block_bound [OF st(1) insertI1 sz(3)] by linarith
  have "insert ?new L - {b} = insert ?new (L - {b})" using ne unfolding b_def insert_Diff_if
    by (simp only: singleton_iff if_False)
  then have "heap_ok (s', insert ?new (L - {b}))"
    using f(1) [OF insertI2 [OF b]] by (simp only: b_def)
  moreover have "phys s' (a + of_nat i) = phys s (p + of_nat i)" if "i < n" for i
  proof -
    have i: "i < 2 ^ 64" using that bnd sz(1) by linarith
    have "in_range p n (p + of_nat i)" using that i by (simp add: in_range_offset)
    then have "unat (p + of_nat i) \<in> block_range b"
      unfolding block_in_range [OF ok b sz(2)] using sz(2) by (auto simp: b_def block_range_def)
    then have "phys s1 (p + of_nat i) = phys s (p + of_nat i)" using st(2) b by (auto simp: b_def)
    then show ?thesis using that i by (simp add: s' copied_def in_range_offset)
  qed
  moreover have "phys s' (a + of_nat i) = 0" if "n \<le> i" "i < rounded 4096 nsz" for i
  proof -
    have i: "i < 2 ^ 64" using that bnd by linarith
    then show ?thesis using that by (simp add: s' copied_def ph cleared_def in_range_offset)
  qed
  moreover have "phys s' x = phys s x" if "b' \<in> L" "unat x \<in> block_range b'" for b' x
  proof -
    have "block_range b' \<inter> block_range ?new = {}" using heap_okD(3) [OF st(1)] that new by blast
    then have "\<not> in_range a n x"
      using that(2) unfolding block_in_range [OF st(1) insertI1 sz(1)] using sz(1)
      by (auto simp: block_range_def)
    then show ?thesis using st(2) that by (auto simp: s' copied_def)
  qed
  ultimately show ?thesis using q by blast
qed

section \<open>Properties of the allocators\<close>

text \<open>
  C4. The top-down allocator: when it returns an address on any target, type and alignment, the
  address is aligned, the block ends below the limit (4GiB on x86 unless high allocations are
  allowed), it lay in usable memory, it and the slack above it now have the requested type and
  no other memory changed its type, and the block is cleared and no other byte of memory
  changed. It returns a null pointer only when it may not panic, and then changes nothing.
\<close>

theorem ext_mem_alloc_contract:
  assumes "ext_mem_alloc_impl arch s n ty al high dp = Inr (p, s')" and "pmm_inv s" and "al \<noteq> 0"
  shows "p = Null \<and> s' = s \<and> \<not> dp \<or>
    (\<exists>a len. p = (if arch = I386 \<and> high then Above64 a else Ptr a)
      \<and> unat al dvd unat a \<and> unat a + len \<le> unat (alloc_limit arch high)
      \<and> unat n \<le> rounded al n \<and> allocated s a (rounded al n) len ty s'
      \<and> phys s' = (if arch = I386 \<and> high then phys s else cleared (phys s) a (rounded al n)))"
  using ext_mem_alloc_impl_Inr [OF assms] rounded_ge [OF assms(3), of n] by blast

lemma example_alloc:
  "ext_mem_alloc_impl X86_64 example_pmm 100 MEMMAP_KERNEL_AND_MODULES 0x2000 False True =
    Inr (Ptr 0x1E000, example_pmm\<lparr>memmap :=
      [\<lparr>me_base = 0x10000, me_length = 0xE000, me_type = MEMMAP_USABLE\<rparr>,
       \<lparr>me_base = 0x1E000, me_length = 0x2000, me_type = MEMMAP_KERNEL_AND_MODULES\<rparr>],
      phys := (\<lambda>x. if in_range 0x1E000 0x2000 x then 0 else 1)\<rparr>)"
  by (simp add: example_pmm_def model_eval cong: let_weak_cong) (auto split: if_split)

theorem ext_mem_alloc_contract_witness:
  "\<exists>s'. ext_mem_alloc_impl X86_64 example_pmm 100 MEMMAP_KERNEL_AND_MODULES 0x2000 False True = Inr (Ptr 0x1E000, s')
     \<and> (\<exists>len. allocated example_pmm 0x1E000 0x2000 len MEMMAP_KERNEL_AND_MODULES s')"
  using ext_mem_alloc_contract [OF example_alloc example_pmm_inv] example_alloc
  by (auto simp: rounded_def)

text \<open>
  C5. The allocator does not give up early: whenever some usable entry of the map holds an
  aligned block of the rounded size below the limit, and the table has two slots left, the
  request succeeds, on every target and also when other entries had to be passed over.
\<close>

theorem ext_mem_alloc_succeeds:
  assumes "pmm_inv s" and "al \<noteq> 0" and "\<not> allocations_disallowed s"
    and "unat n + unat al \<le> 2 ^ 64" and "length (memmap s) + 1 < memmap_max_entries s"
    and "e \<in> set (memmap s)" and "me_type e = MEMMAP_USABLE"
    and "unat al dvd b" and "lo e \<le> b" and "b + rounded al n \<le> min (hi e) (unat (alloc_limit arch high))"
  shows "\<exists>p s'. ext_mem_alloc_impl arch s n ty al high dp = Inr (p, s') \<and> p \<noteq> Null"
  using assms by (rule ext_mem_alloc_impl_total)

theorem ext_mem_alloc_succeeds_witness:
  "\<exists>p s'. ext_mem_alloc_impl Other_Arch example_pmm 0x8000 MEMMAP_KERNEL_AND_MODULES 0x1000 False False = Inr (p, s')
     \<and> p \<noteq> Null"
  by (rule ext_mem_alloc_succeeds
      [where e = "\<lparr>me_base = 0x10000, me_length = 0x10000, me_type = MEMMAP_USABLE\<rparr>" and b = "0x10000"])
    (simp_all add: example_pmm_inv, simp_all add: example_pmm_def extent rounded_def alloc_limit_def
      unsigned_minus_1_eq_mask mask_eq_exp_minus_1)

text \<open>
  C6. Any number of requests to \<open>ext_mem_alloc\<close> in a row return blocks that lie in what was
  usable memory at the start, never overlap, and are still all cleared at the end; no other
  byte of memory has changed.
\<close>

theorem ext_mem_alloc_sequence:
  assumes "alloc_seq (ext_alloc_addr arch) s ns = Inr (as, s')" and "pmm_inv s"
  shows "pmm_inv s' \<and> length as = length ns
    \<and> (let block = (\<lambda>k. {unat (as ! k)..<unat (as ! k) + rounded 4096 (ns ! k)}) in
       (\<forall>k<length ns. block k \<subseteq> mem_types s MEMMAP_USABLE)
       \<and> (\<forall>k<length ns. \<forall>l<length ns. k \<noteq> l \<longrightarrow> block k \<inter> block l = {})
       \<and> (\<forall>x. phys s' x = (if \<exists>k<length ns. unat x \<in> block k then 0 else phys s x)))"
proof -
  note s = ext.alloc_seq_Inr [OF assms]
  have "phys s' x = (if \<exists>k<length ns. unat x \<in> {unat (as ! k)..<unat (as ! k) + rounded 4096 (ns ! k)}
      then 0 else phys s x)" for x
    using s(5) [of _ x] s(7) [of x] by auto
  then show ?thesis unfolding Let_def using s(1-4) by simp
qed

lemma example_seq: "\<exists>s'. alloc_seq (ext_alloc_addr X86_64) example_pmm [1, 0x1800] = Inr ([0x1F000, 0x1D000], s')"
  by (simp add: ext_alloc_addr_def example_pmm_def model_eval cong: let_weak_cong)

theorem ext_mem_alloc_sequence_witness:
  "\<exists>s'. alloc_seq (ext_alloc_addr X86_64) example_pmm [1, 0x1800] = Inr ([0x1F000, 0x1D000], s') \<and> pmm_inv s'"
  using ext_mem_alloc_sequence [OF _ example_pmm_inv] example_seq by blast

text \<open>
  C2. In every configuration reached by any interleaving of top-down, limited and conventional
  allocations, frees of whole blocks and writes of owners to their blocks, the live blocks are
  pairwise disjoint and still have the type they were allocated with, and the memory map is
  well formed.
\<close>

theorem heap_blocks_stay_apart:
  assumes "(\<lambda>c c'. \<exists>op. heap_step arch op c c')\<^sup>*\<^sup>* c c'" and "heap_ok c"
  shows "heap_ok c'"
  using assms
proof (induction rule: rtranclp_induct)
  case (step c1 c2)
  obtain s1 L1 s2 L2 where "c1 = (s1, L1)" "c2 = (s2, L2)" by (metis surj_pair)
  then show ?case using step heap_step_ok by blast
qed

lemma heap_ok_empty: "heap_ok (s, {}) \<longleftrightarrow> pmm_inv s"
  by (simp add: heap_ok_def)

theorem heap_blocks_stay_apart_witness:
  "\<exists>s'. (\<lambda>c c'. \<exists>op. heap_step X86_64 op c c')\<^sup>*\<^sup>* (example_pmm, {})
       (s', {(0x1E000, 0x2000, MEMMAP_KERNEL_AND_MODULES)})
     \<and> heap_ok (s', {(0x1E000, 0x2000, MEMMAP_KERNEL_AND_MODULES)})"
proof -
  have ty: "MEMMAP_KERNEL_AND_MODULES \<noteq> MEMMAP_USABLE" by (simp add: memmap_types)
  have sz: "rounded 0x2000 100 = 0x2000" by (simp add: rounded_def)
  obtain s' where s': "ext_mem_alloc_impl X86_64 example_pmm 100 MEMMAP_KERNEL_AND_MODULES 0x2000 False True
      = Inr (Ptr 0x1E000, s')" using example_alloc by blast
  then have "heap_step X86_64 Alloc (example_pmm, {}) (s', {(0x1E000, 0x2000, MEMMAP_KERNEL_AND_MODULES)})"
    using heap_step.high [of X86_64 example_pmm 100 MEMMAP_KERNEL_AND_MODULES "0x2000" "0x1E000" s' "{}"] ty sz
    by (simp add: ext_mem_alloc_type_aligned_mode_def)
  then have r: "(\<lambda>c c'. \<exists>op. heap_step X86_64 op c c')\<^sup>*\<^sup>* (example_pmm, {})
      (s', {(0x1E000, 0x2000, MEMMAP_KERNEL_AND_MODULES)})" by blast
  from heap_blocks_stay_apart [OF r] r show ?thesis using example_pmm_inv heap_ok_empty by blast
qed

text \<open>
  C3. No allocation, free or write to another block ever changes a byte of a live block: its
  contents change only by writes of its owner.
\<close>

theorem heap_block_contents_safe:
  assumes "heap_step arch op (s, L) (s', L')" and "heap_ok (s, L)"
    and "b \<in> L" and "op \<noteq> Owner_Write b" and "unat x \<in> block_range b"
  shows "phys s' x = phys s x"
  using heap_step_ok [OF assms(1,2)] assms(3-) by blast

definition example_heap :: pmm where
  "example_heap = example_pmm\<lparr>memmap :=
     [\<lparr>me_base = 0x10000, me_length = 0xE000, me_type = MEMMAP_USABLE\<rparr>,
      \<lparr>me_base = 0x1E000, me_length = 0x2000, me_type = MEMMAP_KERNEL_AND_MODULES\<rparr>],
     phys := (\<lambda>x. if in_range 0x1E000 0x2000 x then 0 else 1)\<rparr>"

lemma example_heap_ok: "heap_ok (example_heap, {(0x1E000, 0x2000, MEMMAP_KERNEL_AND_MODULES)})"
proof -
  have ty: "MEMMAP_KERNEL_AND_MODULES \<noteq> MEMMAP_USABLE" by (simp add: memmap_types)
  have sz: "rounded 0x2000 100 = 0x2000" by (simp add: rounded_def)
  have "heap_step X86_64 Alloc (example_pmm, {}) (example_heap, {(0x1E000, 0x2000, MEMMAP_KERNEL_AND_MODULES)})"
    using heap_step.high [of X86_64 example_pmm 100 MEMMAP_KERNEL_AND_MODULES "0x2000" "0x1E000" example_heap "{}"]
      ty sz example_alloc by (simp add: ext_mem_alloc_type_aligned_mode_def example_heap_def)
  then show ?thesis using heap_step_ok example_pmm_inv heap_ok_empty by blast
qed

lemma example_heap_alloc:
  "\<exists>s'. ext_mem_alloc_impl X86_64 example_heap 1 MEMMAP_KERNEL_AND_MODULES 0x1000 False True = Inr (Ptr 0x1D000, s')"
  by (simp add: example_heap_def example_pmm_def model_eval cong: let_weak_cong)

theorem heap_block_contents_safe_witness:
  "\<exists>s' L'. heap_step X86_64 Alloc (example_heap, {(0x1E000, 0x2000, MEMMAP_KERNEL_AND_MODULES)}) (s', L')
     \<and> phys s' 0x1F000 = phys example_heap 0x1F000"
proof -
  have ty: "MEMMAP_KERNEL_AND_MODULES \<noteq> MEMMAP_USABLE" by (simp add: memmap_types)
  obtain s' where s': "ext_mem_alloc_impl X86_64 example_heap 1 MEMMAP_KERNEL_AND_MODULES 0x1000 False True
      = Inr (Ptr 0x1D000, s')" using example_heap_alloc by blast
  let ?L = "{(0x1E000, 0x2000, MEMMAP_KERNEL_AND_MODULES)}"
  have st: "heap_step X86_64 Alloc (example_heap, ?L) (s', insert (0x1D000, rounded 0x1000 1, MEMMAP_KERNEL_AND_MODULES) ?L)"
    using heap_step.high [of X86_64 example_heap 1 MEMMAP_KERNEL_AND_MODULES "0x1000" "0x1D000" s' ?L] ty s'
    by (simp add: ext_mem_alloc_type_aligned_mode_def)
  from heap_block_contents_safe [OF this example_heap_ok, of "(0x1E000, 0x2000, MEMMAP_KERNEL_AND_MODULES)" "0x1F000"]
  have "phys s' 0x1F000 = phys example_heap 0x1F000" by (simp add: block_range_def)
  with st show ?thesis by blast
qed

text \<open>
  C9. \<open>pmm_realloc\<close> of a live block returns a new live block whose first bytes are those of
  the old one, as many as both sizes have, and whose other bytes are cleared; the old block is
  freed, and all remaining blocks keep their contents and stay apart.
\<close>

theorem realloc_keeps_contents:
  assumes "pmm_realloc arch s p osz nsz = Inr (q, s')" and "heap_ok (s, L)" and "p \<noteq> 0"
    and "(p, rounded 4096 osz, ty) \<in> L"
  shows "\<exists>a. q = Ptr a
    \<and> heap_ok (s', insert (a, rounded 4096 nsz, MEMMAP_BOOTLOADER_RECLAIMABLE) (L - {(p, rounded 4096 osz, ty)}))
    \<and> (\<forall>i<min (unat nsz) (unat osz). phys s' (a + of_nat i) = phys s (p + of_nat i))
    \<and> (\<forall>i. min (unat nsz) (unat osz) \<le> i \<and> i < rounded 4096 nsz \<longrightarrow> phys s' (a + of_nat i) = 0)
    \<and> (\<forall>b'\<in>L. \<forall>x. unat x \<in> block_range b' \<longrightarrow> phys s' x = phys s x)"
  using assms by (rule pmm_realloc_Inr)

lemma example_realloc: "\<exists>q s'. pmm_realloc X86_64 example_heap 0x1E000 0x2000 0x1000 = Inr (q, s')"
  by (simp add: example_heap_def example_pmm_def model_eval cong: let_weak_cong)

theorem realloc_keeps_contents_witness:
  "\<exists>a s'. pmm_realloc X86_64 example_heap 0x1E000 0x2000 0x1000 = Inr (Ptr a, s')
     \<and> (\<forall>i<0x1000. phys s' (a + of_nat i) = phys example_heap (0x1E000 + of_nat i))"
proof -
  obtain q s' where r: "pmm_realloc X86_64 example_heap 0x1E000 0x2000 0x1000 = Inr (q, s')"
    using example_realloc by blast
  have "(0x1E000, rounded 4096 0x2000, MEMMAP_KERNEL_AND_MODULES) \<in> {(0x1E000, 0x2000, MEMMAP_KERNEL_AND_MODULES)}"
    by (simp add: rounded_def)
  from realloc_keeps_contents [OF r example_heap_ok _ this] r show ?thesis by auto
qed

text \<open>
  C8. Freeing the block an allocation returned gives its memory back: the usable memory is what
  it was, except for the slack the allocator reserved above the block when the top of the entry
  was not aligned.
\<close>

theorem alloc_then_free:
  assumes "ext_mem_alloc arch s n = Inr (Ptr a, s1)" and "pmm_free s1 a n = Inr s2" and "pmm_inv s" and "a \<noteq> 0"
  shows "\<exists>len \<ge> rounded 4096 n.
    mem_types s2 MEMMAP_USABLE = mem_types s MEMMAP_USABLE - {unat a + rounded 4096 n..<unat a + len}"
proof -
  let ?k = "rounded 4096 n"
  obtain len where al: "allocated s a ?k len MEMMAP_BOOTLOADER_RECLAIMABLE s1"
    and ph: "phys s1 = cleared (phys s) a ?k"
    using ext_mem_alloc_impl_Inr [OF assms(1) [unfolded ext_mem_alloc_defs] assms(3)] by auto
  have "heap_ok (s, {})" using assms(3) by (simp add: heap_ok_empty)
  from heap_ok_allocated(1) [OF this al reserved_types ph]
  have ok1: "heap_ok (s1, {(a, ?k, MEMMAP_BOOTLOADER_RECLAIMABLE)})" .
  have keep: "pmm_sanitiser_keep_first_page s1 = pmm_sanitiser_keep_first_page s"
    using al by (simp add: allocated_def same_setup_def)
  have us: "mem_types s MEMMAP_USABLE \<subseteq> above_first_page (pmm_sanitiser_keep_first_page s)"
    using assms(3) by (simp add: pmm_inv_def map_inv_def mem_types_def)
  have a: "?k \<le> len" "{unat a..<unat a + len} \<subseteq> mem_types s MEMMAP_USABLE"
    "mem_types s1 MEMMAP_USABLE = mem_types s MEMMAP_USABLE - {unat a..<unat a + len}"
    using al reserved_types by (auto simp: allocated_def assign_def)
  have "mem_types s2 MEMMAP_USABLE = mem_types s1 MEMMAP_USABLE
      \<union> {unat a..<unat a + ?k} \<inter> above_first_page (pmm_sanitiser_keep_first_page s)"
    using heap_ok_free(3) [OF ok1 _ assms(4,2)] keep by simp
  also have "\<dots> = mem_types s MEMMAP_USABLE - {unat a + ?k..<unat a + len}"
    unfolding a(3) using a(1,2) us by fastforce
  finally show ?thesis using a(1) by blast
qed

theorem alloc_then_free_witness:
  "\<exists>s1 s2. ext_mem_alloc X86_64 example_pmm 1 = Inr (Ptr 0x1F000, s1) \<and> pmm_free s1 0x1F000 1 = Inr s2
     \<and> mem_types s2 MEMMAP_USABLE \<subseteq> mem_types example_pmm MEMMAP_USABLE"
proof -
  have "\<exists>s1 s2. ext_mem_alloc X86_64 example_pmm 1 = Inr (Ptr 0x1F000, s1) \<and> pmm_free s1 0x1F000 1 = Inr s2"
    by (simp add: example_pmm_def model_eval cong: let_weak_cong)
  then obtain s1 s2 where r: "ext_mem_alloc X86_64 example_pmm 1 = Inr (Ptr 0x1F000, s1)"
    "pmm_free s1 0x1F000 1 = Inr s2" by blast
  from alloc_then_free [OF r example_pmm_inv] r show ?thesis by auto
qed

text \<open>
  C7. The allocator below a limit, top down or bottom up, and the conventional memory
  allocator: the block is aligned, ends at or below the limit (1MiB for conventional memory),
  lay in usable memory, has exactly the rounded size, and is cleared.
\<close>

theorem limited_allocs_contract:
  assumes "pmm_inv s" and "al \<noteq> 0"
  shows "(ext_mem_alloc_type_aligned_below s n ty al limit up = Inr (a, s') \<longrightarrow>
      unat al dvd unat a \<and> unat a + rounded al n \<le> unat limit
      \<and> allocated s a (rounded al n) (rounded al n) ty s' \<and> phys s' = cleared (phys s) a (rounded al n))
    \<and> (conv_mem_alloc s n = Inr (a, s') \<longrightarrow>
      4096 dvd unat a \<and> unat a + rounded 4096 n \<le> 0x100000
      \<and> allocated s a (rounded 4096 n) (rounded 4096 n) MEMMAP_BOOTLOADER_RECLAIMABLE s'
      \<and> phys s' = cleared (phys s) a (rounded 4096 n))"
  using ext_mem_alloc_below_Inr [OF _ assms] conv_mem_alloc_Inr [OF _ assms(1)] by blast

theorem limited_allocs_contract_witness:
  "\<exists>s'. conv_mem_alloc example_pmm 1 = Inr (0x10000, s')
     \<and> allocated example_pmm 0x10000 0x1000 0x1000 MEMMAP_BOOTLOADER_RECLAIMABLE s'"
proof -
  have "\<exists>s'. conv_mem_alloc example_pmm 1 = Inr (0x10000, s')"
    by (simp add: example_pmm_def model_eval cong: let_weak_cong)
  moreover have "rounded 4096 1 = 0x1000" by (simp add: rounded_def)
  ultimately show ?thesis
    using limited_allocs_contract [OF example_pmm_inv, of 1 1 _ _ _ "0x10000"] by auto
qed

end
