(* ===== verification/Pmm_Info.thy ===== *)
theory Pmm_Info
  imports Pmm_Sanitise_Proof
begin

text \<open>
  \<^verbatim>\<open>mmap_get_info\<close> of \<^verbatim>\<open>common/mm/pmm.s2.c\<close>: the amount of lower and upper
  memory up to the first hole, for a table in any order.
\<close>

record meminfo =
  uppermem :: u64
  lowermem :: u64

text \<open>One entry of a pass, on the two frontiers and the progress flag.\<close>

definition info_entry :: "memmap_entry \<Rightarrow> u64 \<times> u64 \<times> bool \<Rightarrow> u64 \<times> u64 \<times> bool" where
  "info_entry e st =
     (case st of (lower_end, upper_end, progress) \<Rightarrow>
        if me_type e \<noteq> MEMMAP_USABLE then st
        else case CHECKED_ADD (me_base e) (me_length e) of
          None \<Rightarrow> st
        | Some etop \<Rightarrow>
            let base = me_base e;
                lower = (base \<le> lower_end \<and> etop > lower_end);
                upper = (base \<le> upper_end \<and> etop > upper_end)
            in (if lower then etop else lower_end, if upper then etop else upper_end,
                progress \<or> lower \<or> upper))"

definition info_pass :: "memmap \<Rightarrow> u64 \<Rightarrow> u64 \<Rightarrow> u64 \<times> u64 \<times> bool" where
  "info_pass m lower_end upper_end = fold info_entry m (lower_end, upper_end, False)"

text \<open>A pass never moves a frontier back, and progress means that one moved.\<close>

lemma info_entry_mono:
  assumes "info_entry e (l, u, p) = (l', u', p')"
  shows "unat l \<le> unat l' \<and> unat u \<le> unat u' \<and> (p \<longrightarrow> p')
    \<and> (p' \<longrightarrow> p \<or> unat l + unat u < unat l' + unat u') \<and> (p' = p \<and> \<not> p \<longrightarrow> l' = l \<and> u' = u)"
  using assms
  by (auto simp: info_entry_def Let_def word_nat split: if_splits option.splits)

lemma info_fold_mono:
  assumes "fold info_entry m (l, u, p) = (l', u', p')"
  shows "unat l \<le> unat l' \<and> unat u \<le> unat u' \<and> (p \<longrightarrow> p')
    \<and> (p' \<longrightarrow> p \<or> unat l + unat u < unat l' + unat u')"
  using assms
proof (induction m arbitrary: l u p)
  case (Cons e m)
  obtain l1 u1 p1 where e: "info_entry e (l, u, p) = (l1, u1, p1)" by (metis surj_pair)
  then have "fold info_entry m (l1, u1, p1) = (l', u', p')" using Cons.prems by simp
  from Cons.IH [OF this] info_entry_mono [OF e] show ?case by linarith
qed simp

text \<open>The do-while loop ends, as every pass but the last moves a frontier up.\<close>

function info_loop :: "memmap \<Rightarrow> u64 \<Rightarrow> u64 \<Rightarrow> u64 \<times> u64" where
  "info_loop m lower_end upper_end =
     (case info_pass m lower_end upper_end of
        (l, u, progress) \<Rightarrow> if progress then info_loop m l u else (l, u))"
  by pat_completeness auto
termination
proof (relation "measure (\<lambda>(m, l, u). 2 ^ 65 - (unat l + unat u))", goal_cases)
  case (2 m l u l' y u' p)
  then have "fold info_entry m (l, u, False) = (l', u', True)" by (simp add: info_pass_def)
  then have "unat l + unat u < unat l' + unat u'" using info_fold_mono by blast
  moreover have "unat l' + unat u' < 2 ^ 65" using unat_bound [of l'] unat_bound [of u'] by simp
  ultimately show ?case
    unfolding in_measure prod.case by (intro diff_less_mono2) linarith+
qed simp

declare info_loop.simps [simp del]

definition mmap_get_info :: "arch \<Rightarrow> memmap \<Rightarrow> meminfo" where
  "mmap_get_info arch m =
     (case info_loop m 0 0x100000 of
        (lower_end, upper_end) \<Rightarrow>
          \<lparr>uppermem = size_t_of arch (upper_end - 0x100000),
           lowermem = size_t_of arch (if lower_end > 0x100000 then 0x100000 else lower_end)\<rparr>)"

section \<open>The first hole\<close>

text \<open>The memory below a frontier, from where it started, is usable.\<close>

definition usable_mem :: "memmap \<Rightarrow> nat set" where
  "usable_mem m = (\<Union>e\<in>{e \<in> set m. me_type e = MEMMAP_USABLE \<and> entry_ok e}. cov e)"

lemma info_entry_eq:
  assumes "me_type e = MEMMAP_USABLE" and "entry_ok e"
  shows "\<exists>q. info_entry e (l, u, p) =
    (if lo e \<le> unat l \<and> unat l < hi e then me_base e + me_length e else l,
     if lo e \<le> unat u \<and> unat u < hi e then me_base e + me_length e else u, q)"
  using assms unat_entry_top [OF assms(2)]
  by (simp add: info_entry_def entry_top Let_def word_nat lo_def)

lemma frontier_extend:
  assumes "{a..<n} \<subseteq> S" and "{lo e..<hi e} \<subseteq> S" and "lo e \<le> n"
  shows "{a..<hi e} \<subseteq> S"
proof
  fix x assume "x \<in> {a..<hi e}"
  then have "x \<in> {a..<n} \<or> x \<in> {lo e..<hi e}" using assms(3) by auto
  then show "x \<in> S" using assms(1,2) by blast
qed

lemma info_entry_sound:
  assumes "info_entry e (l, u, p) = (l', u', p')" and "e \<in> set m"
    and "{0..<unat l} \<subseteq> usable_mem m" and "{0x100000..<unat u} \<subseteq> usable_mem m"
  shows "{0..<unat l'} \<subseteq> usable_mem m \<and> {0x100000..<unat u'} \<subseteq> usable_mem m"
proof (cases "me_type e = MEMMAP_USABLE \<and> entry_ok e")
  case True
  then have c: "{lo e..<hi e} \<subseteq> usable_mem m" using assms(2) by (auto simp: usable_mem_def cov_def)
  have t: "unat (me_base e + me_length e) = hi e" using True by (simp add: unat_entry_top)
  obtain q where "l' = (if lo e \<le> unat l \<and> unat l < hi e then me_base e + me_length e else l)"
    "u' = (if lo e \<le> unat u \<and> unat u < hi e then me_base e + me_length e else u)"
    using info_entry_eq [of e l u p] assms(1) True by auto
  then show ?thesis
    using frontier_extend [OF assms(3) c] frontier_extend [OF assms(4) c] assms(3,4) t by simp
next
  case False
  then have "info_entry e (l, u, p) = (l, u, p)" by (auto simp: info_entry_def entry_top)
  then show ?thesis using assms by simp
qed

lemma info_fold_sound:
  assumes "fold info_entry n (l, u, p) = (l', u', p')" and "set n \<subseteq> set m"
    and "{0..<unat l} \<subseteq> usable_mem m" and "{0x100000..<unat u} \<subseteq> usable_mem m"
  shows "{0..<unat l'} \<subseteq> usable_mem m \<and> {0x100000..<unat u'} \<subseteq> usable_mem m"
  using assms
proof (induction n arbitrary: l u p)
  case (Cons e n)
  obtain l1 u1 p1 where e: "info_entry e (l, u, p) = (l1, u1, p1)" by (metis surj_pair)
  then have f: "fold info_entry n (l1, u1, p1) = (l', u', p')" using Cons.prems by simp
  show ?case using Cons.IH [OF f] info_entry_sound [OF e] Cons.prems(2-) by simp
qed simp

text \<open>A pass without progress leaves the frontiers, and no entry reaches over them.\<close>

lemma info_fold_stuck:
  assumes "fold info_entry m (l, u, False) = (l', u', False)"
  shows "l' = l \<and> u' = u \<and> (\<forall>e\<in>set m. info_entry e (l, u, False) = (l, u, False))"
  using assms
proof (induction m)
  case (Cons e m)
  obtain l1 u1 p1 where e: "info_entry e (l, u, False) = (l1, u1, p1)" by (metis surj_pair)
  then have f: "fold info_entry m (l1, u1, p1) = (l', u', False)" using Cons.prems by simp
  then have "\<not> p1" using info_fold_mono by blast
  then show ?case using info_entry_mono [OF e] e Cons.IH Cons.prems by simp
qed simp

lemma stuck_not_usable:
  assumes "\<forall>e\<in>set m. info_entry e (l, u, False) = (l, u, False)"
  shows "unat l \<notin> usable_mem m \<and> unat u \<notin> usable_mem m"
proof -
  have "\<not> (lo e \<le> unat l \<and> unat l < hi e) \<and> \<not> (lo e \<le> unat u \<and> unat u < hi e)"
    if e: "e \<in> set m" "me_type e = MEMMAP_USABLE" "entry_ok e" for e
  proof -
    have "info_entry e (l, u, False) = (l, u, False)" using assms e(1) by blast
    then show ?thesis using e unat_entry_top [OF e(3)]
      by (auto simp: info_entry_def entry_top Let_def word_nat lo_def split: if_splits)
  qed
  then show ?thesis by (auto simp: usable_mem_def cov_def)
qed

lemma info_loop_correct:
  assumes "info_loop m l u = (l', u')"
    and "{0..<unat l} \<subseteq> usable_mem m" and "{0x100000..<unat u} \<subseteq> usable_mem m"
  shows "{0..<unat l'} \<subseteq> usable_mem m \<and> {0x100000..<unat u'} \<subseteq> usable_mem m
    \<and> unat l' \<notin> usable_mem m \<and> unat u' \<notin> usable_mem m \<and> unat u \<le> unat u'"
  using assms
proof (induction m l u rule: info_loop.induct)
  case (1 m l u)
  obtain l1 u1 p where p: "info_pass m l u = (l1, u1, p)" by (metis surj_pair)
  note f = p [unfolded info_pass_def]
  have s: "{0..<unat l1} \<subseteq> usable_mem m \<and> {0x100000..<unat u1} \<subseteq> usable_mem m"
    using info_fold_sound [OF f] "1.prems"(2,3) by blast
  show ?case
  proof (cases p)
    case True
    then have "info_loop m l1 u1 = (l', u')" using "1.prems"(1) p by (subst (asm) info_loop.simps) simp
    then show ?thesis using "1.IH" [OF p [symmetric] refl] True s info_fold_mono [OF f] by simp
  next
    case False
    then have "l' = l1" "u' = u1" using "1.prems"(1) p by (subst (asm) info_loop.simps, simp)+
    moreover have st: "l1 = l \<and> u1 = u \<and> (\<forall>e\<in>set m. info_entry e (l, u, False) = (l, u, False))"
      using info_fold_stuck [of m l u l1 u1] f False by simp
    ultimately show ?thesis using s stuck_not_usable by blast
  qed
qed

lemma least_gap:
  assumes "{a..<n} \<subseteq> S" and "n \<notin> S" and "a \<le> (n :: nat)"
  shows "(LEAST x. a \<le> x \<and> x \<notin> S) = n"
  using assms by (intro Least_equality) (auto simp: subset_iff not_le [symmetric])

text \<open>
  C15. For a table in any order, with overlaps or entries that wrap around,
  \<open>mmap_get_info\<close> returns, and its lower memory is the first address that is not usable,
  capped at 1MiB, and its upper memory is the distance from 1MiB to the first address from
  there on that is not usable, both as a \<^verbatim>\<open>size_t\<close> of the target.
\<close>

theorem mmap_get_info_first_hole:
  "unat (lowermem (mmap_get_info arch m)) = min 0x100000 (LEAST x. 0 \<le> x \<and> x \<notin> usable_mem m) \<and>
   unat (uppermem (mmap_get_info arch m)) =
     ((LEAST x. 0x100000 \<le> x \<and> x \<notin> usable_mem m) - 0x100000) mod 2 ^ size_t_bits arch"
proof -
  obtain l u where lu: "info_loop m 0 0x100000 = (l, u)" by (metis surj_pair)
  note c = info_loop_correct [OF lu, simplified]
  have l: "(LEAST x. 0 \<le> x \<and> x \<notin> usable_mem m) = unat l" using c by (intro least_gap) auto
  have u: "(LEAST x. 0x100000 \<le> x \<and> x \<notin> usable_mem m) = unat u" using c by (intro least_gap) auto
  have "unat (u - 0x100000) = unat u - 0x100000" using c by (simp add: unat_sub_exact)
  moreover have "unat (size_t_of arch (if l > 0x100000 then 0x100000 else l)) = min 0x100000 (unat l)"
    by (auto simp: size_t_of_small size_t_bits_def word_nat)
  ultimately show ?thesis unfolding l u by (simp add: mmap_get_info_def lu unat_size_t_of)
qed

end
