(* ===== verification/Pmm_Init.thy ===== *)
theory Pmm_Init
  imports Pmm_Alloc_Proof
begin

text \<open>
  Setting the memory map up and handing it over: \<^verbatim>\<open>init_memmap\<close> for both firmware
  kinds, claiming pages from UEFI and giving them back, reclaiming UEFI memory by the final UEFI
  map, \<^verbatim>\<open>get_memmap\<close> and \<^verbatim>\<open>get_raw_memmap\<close> of
  \<^verbatim>\<open>common/mm/pmm.s2.c\<close>, and \<^verbatim>\<open>check_usable_memory\<close> of
  \<^verbatim>\<open>common/mm/pmm.c\<close>.
\<close>

section \<open>BIOS\<close>

text \<open>
  One entry of the E820 map is copied to the end of the table, where usable memory between the
  EBDA and 1MiB is cut off. An entry that is skipped leaves the count, so its slot is reused.
\<close>

definition e820_entry :: "u64 \<Rightarrow> memmap_entry \<Rightarrow> memmap_entry option" where
  "e820_entry ebda e =
     (case CHECKED_ADD (me_base e) (me_length e) of
        None \<Rightarrow> None
      | Some etop \<Rightarrow>
          if me_type e \<noteq> MEMMAP_USABLE then Some e
          else if me_base e \<ge> ebda \<and> me_base e < 0x100000 \<and> etop \<le> 0x100000 then None
          else
            let e1 = (if me_base e \<ge> ebda \<and> me_base e < 0x100000
                      then e\<lparr>me_length := me_length e - (0x100000 - me_base e), me_base := 0x100000\<rparr>
                      else e)
            in Some (if etop > ebda \<and> etop \<le> 0x100000
                     then e1\<lparr>me_length := me_length e1 - (etop - ebda)\<rparr> else e1))"

fun e820_copy :: "nat \<Rightarrow> u64 \<Rightarrow> memmap \<Rightarrow> memmap \<Rightarrow> memmap res" where
  "e820_copy max_entries ebda [] m = Inr m"
| "e820_copy max_entries ebda (e # es) m =
     (if length m = max_entries then Inl (Panic ''Memory map exhausted.'')
      else case e820_entry ebda e of
        None \<Rightarrow> e820_copy max_entries ebda es m
      | Some e' \<Rightarrow> e820_copy max_entries ebda es (m @ [e']))"

definition init_memmap_bios :: "pmm \<Rightarrow> u64 \<Rightarrow> u64 \<Rightarrow> memmap \<Rightarrow> pmm res" where
  "init_memmap_bios s ebda bss_end e820_map =
     res_bind (e820_copy (memmap_max_entries s) ebda e820_map (memmap s)) (\<lambda>m.
     res_bind (sanitise_map (s\<lparr>memmap := m\<rparr>) False) (\<lambda>s1.
     case ALIGN_UP bss_end 4096 of
       None \<Rightarrow> Inl (Panic ''Alignment overflow'')
     | Some btop \<Rightarrow>
         res_bind (memmap_alloc_range s1 4096 (btop - 4096) MEMMAP_BOOTLOADER_RECLAIMABLE 0 True False False)
           (\<lambda>(_, s2). res_bind (sanitise_map s2 False)
              (\<lambda>s3. Inr (s3\<lparr>allocations_disallowed := False\<rparr>)))))"

definition get_memmap_bios :: "pmm \<Rightarrow> pmm res" where
  "get_memmap_bios s =
     res_bind (sanitise_map s True) (\<lambda>s1. Inr (s1\<lparr>allocations_disallowed := True\<rparr>))"

section \<open>UEFI\<close>

text \<open>
  Boot services are not part of the sources. \<^verbatim>\<open>AllocatePages\<close> is a parameter that
  takes the state of the firmware, an address and a number of pages, and tells whether it
  succeeded; the state of the firmware is of any type.
\<close>

type_synonym 'fw alloc_pages = "'fw \<Rightarrow> u64 \<Rightarrow> u64 \<Rightarrow> bool \<times> 'fw"

definition UEFI_ALLOC_MAX_PAGES :: u64 where "UEFI_ALLOC_MAX_PAGES = 0x40000000 div 4096"
definition UEFI_ALLOC_MIN_PAGES :: u64 where "UEFI_ALLOC_MIN_PAGES = 0x04000000 div 4096"
definition UEFI_ALLOC_FALLBACK_PAGES :: u64 where "UEFI_ALLOC_FALLBACK_PAGES = 0x00100000 div 4096"

definition pmm_mark_uefi_pages_unclaimed :: "pmm \<Rightarrow> u64 \<Rightarrow> u64 \<Rightarrow> pmm res" where
  "pmm_mark_uefi_pages_unclaimed s base page_count =
     res_bind (memmap_alloc_range s base (page_count * 4096) MEMMAP_EFI_RECLAIMABLE MEMMAP_USABLE
                 True False False) (\<lambda>(_, s'). Inr s')"

lemma chunk_progress:
  fixes page_count step :: u64
  assumes "page_count \<noteq> 0" and "C_MIN page_count step \<noteq> 0"
  shows "unat (page_count - C_MIN page_count step) < unat page_count"
    and "unat (C_MIN page_count step) \<le> unat page_count"
    and "unat (C_MIN page_count step) \<le> unat step"
proof -
  show le: "unat (C_MIN page_count step) \<le> unat page_count" "unat (C_MIN page_count step) \<le> unat step"
    by simp_all
  have "0 < unat (C_MIN page_count step)" using assms(2) by (simp only: unat_gt_0 simp_thms)
  then show "unat (page_count - C_MIN page_count step) < unat page_count"
    using le(1) unat_sub_exact [of "C_MIN page_count step" page_count] by simp
qed

text \<open>
  The loop of \<^verbatim>\<open>pmm_claim_uefi_pages_fallback\<close> with its locals \<open>fbase\<close> and
  \<open>fpages\<close>. A chunk of no pages would repeat forever, which is \<^term>\<open>None\<close>.
\<close>

function claim_fallback_loop ::
    "'fw alloc_pages \<Rightarrow> 'fw \<Rightarrow> pmm \<Rightarrow> u64 \<Rightarrow> u64 \<Rightarrow> u64 \<Rightarrow> u64 \<Rightarrow> u64 \<Rightarrow> ('fw \<times> pmm) res option" where
  "claim_fallback_loop ap fw s base page_count step_pages fbase fpages =
     (if page_count = 0 then
        Some (if fpages \<noteq> 0
              then res_bind (pmm_mark_uefi_pages_unclaimed s fbase fpages) (\<lambda>s'. Inr (fw, s'))
              else Inr (fw, s))
      else
        let chunk = C_MIN page_count step_pages in
        if chunk = 0 then None
        else case ap fw base chunk of
          (ok, fw1) \<Rightarrow>
            if \<not> ok \<and> chunk > 1 then
              (case claim_fallback_loop ap fw1 s base chunk 1 0 0 of
                 None \<Rightarrow> None
               | Some (Inl e) \<Rightarrow> Some (Inl e)
               | Some (Inr (fw2, s2)) \<Rightarrow>
                   claim_fallback_loop ap fw2 s2 (base + chunk * 4096) (page_count - chunk) step_pages fbase fpages)
            else if \<not> ok then
              claim_fallback_loop ap fw1 s (base + chunk * 4096) (page_count - chunk) step_pages
                (if fpages = 0 then base else fbase) (fpages + chunk)
            else if fpages \<noteq> 0 then
              (case pmm_mark_uefi_pages_unclaimed s fbase fpages of
                 Inl e \<Rightarrow> Some (Inl e)
               | Inr s1 \<Rightarrow>
                   claim_fallback_loop ap fw1 s1 (base + chunk * 4096) (page_count - chunk) step_pages fbase 0)
            else
              claim_fallback_loop ap fw1 s (base + chunk * 4096) (page_count - chunk) step_pages fbase fpages)"
  by pat_completeness auto

termination
proof (relation "measures [\<lambda>(ap, fw, s, base, n, step, fb, fp). unat n,
    \<lambda>(ap, fw, s, base, n, step, fb, fp). unat step]", goal_cases)
  case (2 ap fw s base n step fb fp chunk ok fw1)
  then have "1 < unat chunk" "unat chunk \<le> unat n" "unat chunk \<le> unat step"
    using chunk_progress [of n step] by (auto simp: word_nat)
  then show ?case by auto
qed (use chunk_progress in auto)

declare claim_fallback_loop.simps [simp del]

definition pmm_claim_uefi_pages_fallback ::
    "'fw alloc_pages \<Rightarrow> 'fw \<Rightarrow> pmm \<Rightarrow> u64 \<Rightarrow> u64 \<Rightarrow> u64 \<Rightarrow> ('fw \<times> pmm) res option" where
  "pmm_claim_uefi_pages_fallback ap fw s base page_count step_pages =
     claim_fallback_loop ap fw s base page_count step_pages 0 0"

lemma halved_cap:
  fixes n cap :: u64
  assumes "C_MIN n cap > UEFI_ALLOC_MIN_PAGES"
  shows "unat (C_MIN cap (C_MAX (C_MIN n cap div 2) UEFI_ALLOC_MIN_PAGES)) < unat cap"
proof -
  let ?c = "C_MIN n cap"
  have "0 < unat ?c" using assms unfolding word_less_nat_alt by linarith
  then have "unat (?c div 2) < unat ?c" unfolding unat_div_distrib by (intro div_less_dividend) simp_all
  then have "unat (C_MAX (?c div 2) UEFI_ALLOC_MIN_PAGES) < unat ?c"
    using assms by (simp add: word_nat)
  moreover have "unat ?c \<le> unat cap" by simp
  ultimately show ?thesis by simp
qed

text \<open>\<^verbatim>\<open>uefi_alloc_chunk_pages\<close>, a static variable, is the argument and result \<open>cap\<close>.\<close>

function pmm_claim_uefi_pages ::
    "'fw alloc_pages \<Rightarrow> 'fw \<Rightarrow> pmm \<Rightarrow> u64 \<Rightarrow> u64 \<Rightarrow> u64 \<Rightarrow> ('fw \<times> pmm \<times> u64) res option" where
  "pmm_claim_uefi_pages ap fw s cap base page_count =
     (if page_count = 0 then Some (Inr (fw, s, cap))
      else
        let chunk = C_MIN page_count cap in
        if chunk = 0 then None
        else case ap fw base chunk of
          (ok, fw1) \<Rightarrow>
            if \<not> ok \<and> chunk > UEFI_ALLOC_MIN_PAGES then
              pmm_claim_uefi_pages ap fw1 s (C_MIN cap (C_MAX (chunk div 2) UEFI_ALLOC_MIN_PAGES)) base page_count
            else if \<not> ok then
              (case pmm_claim_uefi_pages_fallback ap fw1 s base chunk UEFI_ALLOC_FALLBACK_PAGES of
                 None \<Rightarrow> None
               | Some (Inl e) \<Rightarrow> Some (Inl e)
               | Some (Inr (fw2, s2)) \<Rightarrow>
                   pmm_claim_uefi_pages ap fw2 s2 cap (base + chunk * 4096) (page_count - chunk))
            else pmm_claim_uefi_pages ap fw1 s cap (base + chunk * 4096) (page_count - chunk))"
  by pat_completeness auto

termination
proof (relation "measures [\<lambda>(ap, fw, s, cap, base, n). unat n, \<lambda>(ap, fw, s, cap, base, n). unat cap]", goal_cases)
  case (2 ap fw s cap base n chunk ok fw1)
  then show ?case using halved_cap [of n cap] by auto
qed (use chunk_progress in auto)

declare pmm_claim_uefi_pages.simps [simp del]

text \<open>
  \<^verbatim>\<open>pmm_spare_firmware_stack\<close>: the first usable entry that reaches into the range is
  carved, until none does. The stack pointer is a parameter.
\<close>

fun spare_pick :: "u64 \<Rightarrow> u64 \<Rightarrow> memmap \<Rightarrow> (u64 \<times> u64) option" where
  "spare_pick bottom rtop [] = None"
| "spare_pick bottom rtop (e # m) =
     (if me_type e \<noteq> MEMMAP_USABLE then spare_pick bottom rtop m
      else case CHECKED_ADD (me_base e) (me_length e) of
        None \<Rightarrow> spare_pick bottom rtop m
      | Some etop \<Rightarrow>
          let base = C_MAX (me_base e) bottom; ende = C_MIN etop rtop in
          if base \<ge> ende then spare_pick bottom rtop m else Some (base, ende))"

partial_function (option) spare_loop :: "pmm \<Rightarrow> u64 \<Rightarrow> u64 \<Rightarrow> pmm res option" where
  "spare_loop s bottom rtop =
     (case spare_pick bottom rtop (memmap s) of
        None \<Rightarrow> Some (Inr s)
      | Some (base, ende) \<Rightarrow>
          (case memmap_alloc_range s base (ende - base) MEMMAP_EFI_RECLAIMABLE MEMMAP_USABLE True False False of
             Inl x \<Rightarrow> Some (Inl x)
           | Inr (_, s1) \<Rightarrow> spare_loop s1 bottom rtop))"

definition pmm_spare_firmware_stack :: "pmm \<Rightarrow> u64 \<Rightarrow> pmm res option" where
  "pmm_spare_firmware_stack s sp =
     (let bottom = (if sp > 0x20000 then ALIGN_DOWN (sp - 0x20000) PAGE_SIZE else 0) in
      case CHECKED_ADD (ALIGN_DOWN sp PAGE_SIZE) 0x10000 of
        None \<Rightarrow> Some (Inr s)
      | Some rtop \<Rightarrow> spare_loop s bottom rtop)"

text \<open>The memory types of UEFI the file names; any other value goes to the default case.\<close>

datatype efi_type =
    EfiReservedMemoryType | EfiLoaderCode | EfiLoaderData | EfiBootServicesCode | EfiBootServicesData
  | EfiRuntimeServicesCode | EfiRuntimeServicesData | EfiConventionalMemory | EfiUnusableMemory
  | EfiACPIReclaimMemory | EfiACPIMemoryNVS | EfiMemoryMappedIO | EfiMemoryMappedIOPortSpace
  | EfiPalCode | EfiOtherMemory

record efi_desc =
  Type :: efi_type
  PhysicalStart :: u64
  NumberOfPages :: u64

fun efi_our_type :: "efi_type \<Rightarrow> u32" where
  "efi_our_type EfiLoaderCode = MEMMAP_EFI_RECLAIMABLE"
| "efi_our_type EfiLoaderData = MEMMAP_EFI_RECLAIMABLE"
| "efi_our_type EfiBootServicesCode = MEMMAP_EFI_RECLAIMABLE"
| "efi_our_type EfiBootServicesData = MEMMAP_EFI_RECLAIMABLE"
| "efi_our_type EfiACPIReclaimMemory = MEMMAP_ACPI_RECLAIMABLE"
| "efi_our_type EfiACPIMemoryNVS = MEMMAP_ACPI_NVS"
| "efi_our_type EfiConventionalMemory = MEMMAP_USABLE"
| "efi_our_type _ = MEMMAP_RESERVED"

fun efi_copy :: "nat \<Rightarrow> efi_desc list \<Rightarrow> memmap \<Rightarrow> memmap res" where
  "efi_copy max_entries [] m = Inr m"
| "efi_copy max_entries (d # ds) m =
     (if NumberOfPages d = 0 then efi_copy max_entries ds m
      else case CHECKED_MUL (NumberOfPages d) 4096 of
        None \<Rightarrow> efi_copy max_entries ds m
      | Some len \<Rightarrow>
          if length m = max_entries then Inl (Panic ''Memory map exhausted.'')
          else efi_copy max_entries ds
                 (m @ [\<lparr>me_base = PhysicalStart d, me_length = len, me_type = efi_our_type (Type d)\<rparr>]))"

text \<open>The 64 requests that leave 64MiB to the firmware.\<close>

primrec leave_to_firmware :: "arch \<Rightarrow> pmm \<Rightarrow> nat \<Rightarrow> pmm res" where
  "leave_to_firmware arch s 0 = Inr s"
| "leave_to_firmware arch s (Suc n) =
     res_bind (ext_mem_alloc_type arch s 0x100000 MEMMAP_EFI_RECLAIMABLE)
       (\<lambda>(_, s1). leave_to_firmware arch s1 n)"

text \<open>Owning the usable entries of a copy of the map, except on i386 what ends above 4GiB.\<close>

fun own_usable :: "arch \<Rightarrow> 'fw alloc_pages \<Rightarrow> 'fw \<Rightarrow> pmm \<Rightarrow> u64 \<Rightarrow> memmap \<Rightarrow> ('fw \<times> pmm \<times> u64) res option" where
  "own_usable arch ap fw s cap [] = Some (Inr (fw, s, cap))"
| "own_usable arch ap fw s cap (e # es) =
     (if me_type e \<noteq> MEMMAP_USABLE then own_usable arch ap fw s cap es
      else if arch = I386 \<and>
          (case CHECKED_ADD (me_base e) (me_length e) of None \<Rightarrow> True | Some t \<Rightarrow> t > 0x100000000)
      then own_usable arch ap fw s cap es
      else case pmm_claim_uefi_pages ap fw s cap (me_base e) (me_length e div PAGE_SIZE) of
        None \<Rightarrow> None
      | Some (Inl x) \<Rightarrow> Some (Inl x)
      | Some (Inr (fw1, s1, cap1)) \<Rightarrow> own_usable arch ap fw1 s1 cap1 es)"

text \<open>
  \<^verbatim>\<open>init_memmap\<close> from the point where the firmware has filled in its map; the image of
  the loader is at \<open>image_base\<close>. The result has \<^verbatim>\<open>untouched_memmap\<close> with it. A
  \<^verbatim>\<open>struct memmap_entry\<close> has 24 bytes.
\<close>

definition init_memmap_uefi ::
    "arch \<Rightarrow> 'fw alloc_pages \<Rightarrow> 'fw \<Rightarrow> pmm \<Rightarrow> efi_desc list \<Rightarrow> u64 \<Rightarrow> u64 \<Rightarrow> u64
      \<Rightarrow> ('fw \<times> pmm \<times> u64 \<times> memmap) res option" where
  "init_memmap_uefi arch ap fw s descs sp image_base image_size =
     (case res_bind (efi_copy (memmap_max_entries s) descs (memmap s))
            (\<lambda>m. res_bind (sanitise_map (s\<lparr>memmap := m\<rparr>) False)
              (\<lambda>s1. memmap_alloc_range s1 0 PAGE_SIZE MEMMAP_EFI_RECLAIMABLE MEMMAP_USABLE False False False)) of
        Inl e \<Rightarrow> Some (Inl e)
      | Inr (_, s2) \<Rightarrow>
          (case pmm_spare_firmware_stack s2 sp of
             None \<Rightarrow> None
           | Some (Inl e) \<Rightarrow> Some (Inl e)
           | Some (Inr s3) \<Rightarrow>
               (case leave_to_firmware arch (s3\<lparr>allocations_disallowed := False\<rparr>) 64 of
                  Inl e \<Rightarrow> Some (Inl e)
                | Inr s4 \<Rightarrow>
                    (case own_usable arch ap fw s4 UEFI_ALLOC_MAX_PAGES (memmap s4) of
                       None \<Rightarrow> None
                     | Some (Inl e) \<Rightarrow> Some (Inl e)
                     | Some (Inr (fw5, s5, cap)) \<Rightarrow>
                         Some (res_bind (memmap_alloc_range s5 image_base image_size
                                           MEMMAP_BOOTLOADER_RECLAIMABLE 0 True False True)
                           (\<lambda>(_, s6). res_bind (sanitise_map s6 False)
                             (\<lambda>s7. res_bind (ext_mem_alloc_counted arch s7 1024 24)
                               (\<lambda>(_, s8). Inr (fw5, s8, cap, memmap s5)))))))))"

section \<open>Reclaiming and releasing\<close>

text \<open>
  The part of a UEFI descriptor that lies within an entry. The sanity check of the source is
  the last condition.
\<close>

definition reclaim_clip :: "memmap_entry \<Rightarrow> efi_desc \<Rightarrow> (u64 \<times> u64) option" where
  "reclaim_clip r d =
     (case CHECKED_ADD (me_base r) (me_length r) of
        None \<Rightarrow> None
      | Some rtop \<Rightarrow>
          (case CHECKED_MUL (NumberOfPages d) 4096 of
             None \<Rightarrow> None
           | Some size0 \<Rightarrow>
               let base = me_base r; base0 = PhysicalStart d in
               if base0 < base \<and> size0 \<le> base - base0 then None
               else
                 let size1 = (if base0 < base then size0 - (base - base0) else size0);
                     efi_base = (if base0 < base then base else base0) in
                 (case CHECKED_ADD efi_base size1 of
                    None \<Rightarrow> None
                  | Some top1 \<Rightarrow>
                      if top1 > rtop \<and> size1 \<le> top1 - rtop then None
                      else
                        let size2 = (if top1 > rtop then size1 - (top1 - rtop) else size1);
                            top2 = (if top1 > rtop then rtop else top1) in
                        if efi_base \<ge> base \<and> efi_base < rtop \<and> top2 > base \<and> top2 \<le> rtop
                        then Some (efi_base, size2) else None)))"

fun reclaim_type :: "bool \<Rightarrow> efi_type \<Rightarrow> u32" where
  "reclaim_type raw EfiLoaderCode = (if raw then MEMMAP_USABLE else MEMMAP_BOOTLOADER_RECLAIMABLE)"
| "reclaim_type raw EfiLoaderData = (if raw then MEMMAP_USABLE else MEMMAP_BOOTLOADER_RECLAIMABLE)"
| "reclaim_type raw EfiBootServicesCode = (if raw then MEMMAP_USABLE else MEMMAP_BOOTLOADER_RECLAIMABLE)"
| "reclaim_type raw EfiBootServicesData = (if raw then MEMMAP_USABLE else MEMMAP_BOOTLOADER_RECLAIMABLE)"
| "reclaim_type raw EfiConventionalMemory = MEMMAP_USABLE"
| "reclaim_type raw EfiACPIReclaimMemory = MEMMAP_ACPI_RECLAIMABLE"
| "reclaim_type raw EfiACPIMemoryNVS = MEMMAP_ACPI_NVS"
| "reclaim_type raw _ = MEMMAP_RESERVED"

fun reclaim_entry :: "nat \<Rightarrow> bool \<Rightarrow> bool \<Rightarrow> memmap_entry \<Rightarrow> efi_desc list \<Rightarrow> memmap \<Rightarrow> memmap res" where
  "reclaim_entry mx keep raw r [] m = Inr m"
| "reclaim_entry mx keep raw r (d # ds) m =
     (case reclaim_clip r d of
        None \<Rightarrow> reclaim_entry mx keep raw r ds m
      | Some (efi_base, efi_size) \<Rightarrow>
          res_bind (memmap_alloc_range_in mx keep m efi_base efi_size (reclaim_type raw (Type d)) 0 True False False)
            (\<lambda>(_, m'). reclaim_entry mx keep raw r ds m'))"

fun reclaim_entries :: "nat \<Rightarrow> bool \<Rightarrow> bool \<Rightarrow> memmap_entry list \<Rightarrow> efi_desc list \<Rightarrow> memmap \<Rightarrow> memmap res" where
  "reclaim_entries mx keep raw [] ds m = Inr m"
| "reclaim_entries mx keep raw (r # rs) ds m =
     res_bind (reclaim_entry mx keep raw r ds m) (\<lambda>m'. reclaim_entries mx keep raw rs ds m')"

definition pmm_reclaim_uefi_mem :: "nat \<Rightarrow> bool \<Rightarrow> efi_desc list \<Rightarrow> memmap \<Rightarrow> bool \<Rightarrow> memmap res" where
  "pmm_reclaim_uefi_mem mx keep descs m raw =
     (let recl = filter (\<lambda>e. me_type e = MEMMAP_EFI_RECLAIMABLE) m in
      if length recl > 1024 then Inl (Panic ''pmm: Too many EFI reclaimable entries'')
      else res_bind (reclaim_entries mx keep raw recl descs m)
        (\<lambda>m'. pmm_sanitise_entries mx keep m' False))"

definition get_memmap_uefi :: "pmm \<Rightarrow> bool \<Rightarrow> efi_desc list \<Rightarrow> pmm res" where
  "get_memmap_uefi s efi_boot_services_exited descs =
     (if \<not> efi_boot_services_exited then Inl (Panic ''get_memmap called whilst in boot services'')
      else res_bind (pmm_reclaim_uefi_mem (memmap_max_entries s) (pmm_sanitiser_keep_first_page s) descs
                       (memmap s) False)
        (\<lambda>m. res_bind (sanitise_map (s\<lparr>memmap := m, allocations_disallowed := True\<rparr>) True) Inr))"

definition get_raw_memmap_uefi :: "pmm \<Rightarrow> bool \<Rightarrow> efi_desc list \<Rightarrow> memmap \<Rightarrow> (pmm \<times> memmap) res" where
  "get_raw_memmap_uefi s efi_boot_services_exited descs untouched =
     (if \<not> efi_boot_services_exited then Inl (Panic ''get_raw_memmap called whilst in boot services'')
      else res_bind (pmm_reclaim_uefi_mem (memmap_max_entries s) True descs untouched True)
        (\<lambda>m. Inr (s\<lparr>allocations_disallowed := True\<rparr>, m)))"

text \<open>\<^verbatim>\<open>FreePages\<close> is a parameter of the same kind as \<^verbatim>\<open>AllocatePages\<close>.\<close>

fun release_entries :: "'fw alloc_pages \<Rightarrow> 'fw \<Rightarrow> memmap \<Rightarrow> 'fw res" where
  "release_entries fp fw [] = Inr fw"
| "release_entries fp fw (e # es) =
     (if me_type e \<noteq> MEMMAP_USABLE \<and> me_type e \<noteq> MEMMAP_BOOTLOADER_RECLAIMABLE
      then release_entries fp fw es
      else case fp fw (me_base e) (me_length e div 4096) of
        (ok, fw1) \<Rightarrow> if \<not> ok then Inl (Panic ''pmm: FreePages failure (%X)'') else release_entries fp fw1 es)"

definition pmm_release_uefi_mem :: "'fw alloc_pages \<Rightarrow> 'fw \<Rightarrow> pmm \<Rightarrow> memmap \<Rightarrow> ('fw \<times> pmm) res" where
  "pmm_release_uefi_mem fp fw s untouched =
     res_bind (release_entries fp fw untouched) (\<lambda>fw'. Inr (fw', s\<lparr>allocations_disallowed := True\<rparr>))"

section \<open>Checking a range of RAM\<close>

definition full_overlap_check :: "u64 \<Rightarrow> u64 \<Rightarrow> u64 \<Rightarrow> u64 \<Rightarrow> bool" where
  "full_overlap_check base1 top1 base2 top2 \<longleftrightarrow>
     (base1 \<ge> base2 \<and> base1 < top2) \<and> (top1 > base2 \<and> top1 \<le> top2)"

definition ram_type :: "bool \<Rightarrow> u32 \<Rightarrow> bool" where
  "ram_type uefi t \<longleftrightarrow>
     t = MEMMAP_USABLE \<or> uefi \<and> t = MEMMAP_EFI_RECLAIMABLE
     \<or> t = MEMMAP_BOOTLOADER_RECLAIMABLE \<or> t = MEMMAP_KERNEL_AND_MODULES"

fun check_usable_loop :: "bool \<Rightarrow> u64 \<Rightarrow> u64 \<Rightarrow> memmap \<Rightarrow> u64 \<Rightarrow> bool" where
  "check_usable_loop uefi base rtop [] remaining = False"
| "check_usable_loop uefi base rtop (e # m) remaining =
     (if \<not> ram_type uefi (me_type e) then check_usable_loop uefi base rtop m remaining
      else case CHECKED_ADD (me_base e) (me_length e) of
        None \<Rightarrow> check_usable_loop uefi base rtop m remaining
      | Some memmap_top \<Rightarrow>
          if full_overlap_check base rtop (me_base e) memmap_top then True
          else if me_base e < rtop \<and> memmap_top > base then
            let overlap_bottom = (if me_base e > base then me_base e else base);
                overlap_top = (if memmap_top < rtop then memmap_top else rtop);
                remaining' = remaining - (overlap_top - overlap_bottom) in
            if remaining' = 0 then True else check_usable_loop uefi base rtop m remaining'
          else check_usable_loop uefi base rtop m remaining)"

definition check_usable_memory :: "bool \<Rightarrow> memmap \<Rightarrow> u64 \<Rightarrow> u64 \<Rightarrow> bool" where
  "check_usable_memory uefi m base rtop = check_usable_loop uefi base rtop m (rtop - base)"

end
