(* ===== verification/Pmm_Init_Proof.thy ===== *)
theory Pmm_Init_Proof
  imports Pmm_Init
begin

text \<open>
  Correctness of the set-up and hand-over code: what the map holds after
  \<^verbatim>\<open>init_memmap\<close>, that pages are claimed from the firmware before they are used, that
  the firmware's stack is spared, what reclaiming may change, and when a range counts as RAM.
\<close>

section \<open>check_usable_memory\<close>

definition ram_mem :: "bool \<Rightarrow> memmap \<Rightarrow> nat set" where
  "ram_mem uefi m = (\<Union>e\<in>{e \<in> set m. ram_type uefi (me_type e) \<and> entry_ok e}. cov e)"

definition ram_apart :: "bool \<Rightarrow> memmap \<Rightarrow> bool" where
  "ram_apart uefi m \<longleftrightarrow>
     sorted_wrt (\<lambda>e f. ram_type uefi (me_type e) \<longrightarrow> ram_type uefi (me_type f) \<longrightarrow> cov e \<inter> cov f = {}) m"

lemma ram_mem_Cons:
  "ram_mem uefi (e # m) = (if ram_type uefi (me_type e) \<and> entry_ok e then cov e \<union> ram_mem uefi m else ram_mem uefi m)"
  by (auto simp: ram_mem_def)

lemma ram_apart_Cons:
  "ram_apart uefi (e # m) \<Longrightarrow> ram_apart uefi m \<and> (ram_type uefi (me_type e) \<longrightarrow> cov e \<inter> ram_mem uefi m = {})"
  by (fastforce simp: ram_apart_def ram_mem_def)

text \<open>The overlap of an entry with the range, and its size as the loop computes it.\<close>

lemma overlap_size:
  fixes base rtop :: u64 and e :: memmap_entry
  defines "t \<equiv> me_base e + me_length e"
  assumes "entry_ok e" and "lo e < unat rtop" and "unat base < hi e" and "unat base < unat rtop"
  shows "unat ((if t < rtop then t else rtop) - (if me_base e > base then me_base e else base))
    = card ({unat base..<unat rtop} \<inter> cov e)"
proof -
  have t: "unat t = hi e" "unat (me_base e) = lo e"
    using assms(2) by (simp_all add: t_def unat_entry_top lo_def)
  have "{unat base..<unat rtop} \<inter> cov e = {max (unat base) (lo e)..<min (unat rtop) (hi e)}"
    by (auto simp: cov_def)
  moreover have "unat (if t < rtop then t else rtop) = min (unat rtop) (hi e)"
    "unat (if me_base e > base then me_base e else base) = max (unat base) (lo e)"
    using t by (auto simp: word_nat)
  ultimately show ?thesis using assms(3-5) lo_le_hi [of e] by (simp add: unat_sub_exact)
qed

lemma check_usable_loop_eq:
  fixes base rtop :: u64
  defines "R \<equiv> {unat base..<unat rtop}"
  assumes "unat base < unat rtop" and "ram_apart uefi m" and "C \<inter> ram_mem uefi m = {}"
    and "unat rem = card (R - C)" and "R - C \<noteq> {}"
  shows "check_usable_loop uefi base rtop m rem \<longleftrightarrow> R - C \<subseteq> ram_mem uefi m"
  using assms(3-)
proof (induction m arbitrary: C rem)
  case Nil
  then show ?case by (simp add: ram_mem_def)
next
  case (Cons e m)
  note ap = ram_apart_Cons [OF Cons.prems(1)]
  let ?t = "me_base e + me_length e"
  show ?case
  proof (cases "ram_type uefi (me_type e) \<and> entry_ok e")
    case False
    then have "check_usable_loop uefi base rtop (e # m) rem = check_usable_loop uefi base rtop m rem"
      by (auto simp: entry_top)
    then show ?thesis using Cons False ap by (auto simp: ram_mem_Cons)
  next
    case ram: True
    have t: "unat ?t = hi e" "unat (me_base e) = lo e" using ram by (simp_all add: unat_entry_top lo_def)
    have mem: "ram_mem uefi (e # m) = cov e \<union> ram_mem uefi m" using ram by (simp add: ram_mem_Cons)
    have full: "full_overlap_check base rtop (me_base e) ?t \<longleftrightarrow> R \<subseteq> cov e"
      using assms(2) t by (auto simp: full_overlap_check_def word_nat R_def cov_def)
    have meets: "me_base e < rtop \<and> ?t > base \<longleftrightarrow> lo e < unat rtop \<and> unat base < hi e"
      using t by (simp add: word_nat)
    show ?thesis
    proof (cases "R \<subseteq> cov e")
      case True
      then show ?thesis using ram full mem by (auto simp: entry_top)
    next
      case nf: False
      show ?thesis
      proof (cases "lo e < unat rtop \<and> unat base < hi e")
        case False
        then have "R \<inter> cov e = {}" using assms(2) by (auto simp: R_def cov_def)
        moreover have "check_usable_loop uefi base rtop (e # m) rem = check_usable_loop uefi base rtop m rem"
          using False ram full nf meets by (auto simp: entry_top)
        moreover have "check_usable_loop uefi base rtop m rem \<longleftrightarrow> R - C \<subseteq> ram_mem uefi m"
          using Cons.prems(2) mem ap by (intro Cons.IH Cons.prems(3,4)) auto
        ultimately show ?thesis using mem by auto
      next
        case True
        let ?rem = "rem - ((if ?t < rtop then ?t else rtop) - (if me_base e > base then me_base e else base))"
        have O: "R \<inter> cov e \<subseteq> R - C" using Cons.prems(2) mem by auto
        have fin: "finite (R - C)" by (simp add: R_def)
        note sz = overlap_size [of e rtop base, folded R_def]
        have "unat ?rem = card (R - C) - card (R \<inter> cov e)"
          using sz True ram assms(2) Cons.prems(3) card_mono [OF fin O] by (simp add: unat_sub_exact)
        also have "\<dots> = card (R - C - (R \<inter> cov e))" using O fin by (simp add: card_Diff_subset finite_subset)
        also have "R - C - (R \<inter> cov e) = R - (C \<union> cov e)" by auto
        finally have rem: "unat ?rem = card (R - (C \<union> cov e))" .
        have z: "?rem = 0 \<longleftrightarrow> R - (C \<union> cov e) = {}"
          using rem unat_eq_0 [of ?rem] by (simp add: R_def)
        have "check_usable_loop uefi base rtop (e # m) rem \<longleftrightarrow>
          ?rem = 0 \<or> check_usable_loop uefi base rtop m ?rem"
          using True ram full nf meets by (simp add: entry_top Let_def)
        also have "\<dots> \<longleftrightarrow> R - (C \<union> cov e) \<subseteq> ram_mem uefi m"
        proof (cases "?rem = 0")
          case True
          then show ?thesis using z by auto
        next
          case False
          have "(C \<union> cov e) \<inter> ram_mem uefi m = {}" using ap ram Cons.prems(2) mem by auto
          then show ?thesis using Cons.IH [OF _ _ rem] ap False z by simp
        qed
        finally show ?thesis using mem by auto
      qed
    qed
  qed
qed

text \<open>
  C14. On a map whose RAM entries do not overlap, \<open>check_usable_memory\<close> holds of a
  non-empty range exactly when every byte of it is RAM, also when the range spans several
  entries.
\<close>

theorem check_usable_memory_exact:
  assumes "ram_apart uefi m" and "base < rtop"
  shows "check_usable_memory uefi m base rtop \<longleftrightarrow> {unat base..<unat rtop} \<subseteq> ram_mem uefi m"
proof -
  have "unat base < unat rtop" using assms(2) by (simp add: word_nat)
  moreover from this have "unat (rtop - base) = card ({unat base..<unat rtop} - {})"
    by (simp add: unat_sub_exact)
  ultimately show ?thesis
    using check_usable_loop_eq [of base rtop uefi m "{}" "rtop - base"] assms(1)
    by (simp add: check_usable_memory_def)
qed

theorem check_usable_memory_exact_witness:
  "let m = [\<lparr>me_base = 0x1000, me_length = 0x1000, me_type = MEMMAP_USABLE\<rparr>,
            \<lparr>me_base = 0x2000, me_length = 0x1000, me_type = MEMMAP_KERNEL_AND_MODULES\<rparr>]
   in check_usable_memory False m 0x1800 0x2800 \<and> {0x1800..<0x2800} \<subseteq> ram_mem False m"
proof -
  let ?m = "[\<lparr>me_base = 0x1000, me_length = 0x1000, me_type = MEMMAP_USABLE\<rparr>,
             \<lparr>me_base = 0x2000, me_length = 0x1000, me_type = MEMMAP_KERNEL_AND_MODULES\<rparr>]"
  have "ram_apart False ?m" by (simp add: ram_apart_def cov_def extent)
  moreover have "check_usable_memory False ?m 0x1800 0x2800"
    by (simp add: check_usable_memory_def full_overlap_check_def ram_type_def model_eval cong: let_weak_cong)
  ultimately show ?thesis
    using check_usable_memory_exact [where uefi = False and m = ?m and base = "0x1800" and rtop = "0x2800"]
    by (simp add: Let_def)
qed

section \<open>Assigning ranges in the state\<close>

lemma memmap_alloc_range_Inr:
  assumes "memmap_alloc_range s base len ty ov dp False ne = Inr (b, s')" and "pmm_inv s" and "len \<noteq> 0"
  defines "R \<equiv> {unat base..<unat base + unat len}"
  shows "pmm_inv s'" and "b \<or> \<not> dp" and "\<not> b \<Longrightarrow> s' = s"
    and "b \<Longrightarrow> mem_types s' t = clip_usable (pmm_sanitiser_keep_first_page s) (assign R ty (mem_types s)) t"
    and "same_setup s s'" and "phys s' = phys s"
proof -
  obtain m1 where m1: "memmap_alloc_range_in (memmap_max_entries s) (pmm_sanitiser_keep_first_page s)
      (memmap s) base len ty ov dp False ne = Inr (b, m1)" and s': "s' = s\<lparr>memmap := m1\<rparr>"
    using assms(1) by (auto simp: memmap_alloc_range_def)
  have mi: "map_inv (pmm_sanitiser_keep_first_page s) (memmap s)" using assms(2) by (simp add: pmm_inv_def)
  note c = memmap_alloc_range_in_Inr [OF m1 mi assms(3)]
  show "pmm_inv s'" using c(1) assms(2) by (simp add: pmm_inv_def s')
  show "b \<or> \<not> dp" "\<not> b \<Longrightarrow> s' = s" using c(2) by (auto simp: s')
  show "b \<Longrightarrow> mem_types s' t = clip_usable (pmm_sanitiser_keep_first_page s) (assign R ty (mem_types s)) t"
    using c(3) by (simp add: mem_types_def s' R_def)
  show "same_setup s s'" "phys s' = phys s" by (simp_all add: s' same_setup_def)
qed

lemma usable_above: "pmm_inv s \<Longrightarrow> mem_types s MEMMAP_USABLE \<subseteq> above_first_page (pmm_sanitiser_keep_first_page s)"
  by (simp add: pmm_inv_def map_inv_def mem_types_def)

text \<open>Taking a range away from the usable memory.\<close>

lemma take_usable:
  assumes "memmap_alloc_range s base len ty ov True False ne = Inr (b, s')" and "pmm_inv s" and "len \<noteq> 0"
    and ty: "ty \<noteq> MEMMAP_USABLE"
  defines "R \<equiv> {unat base..<unat base + unat len}"
  shows "pmm_inv s'" and "mem_types s' MEMMAP_USABLE = mem_types s MEMMAP_USABLE - R"
    and "mem_types s' ty = mem_types s ty \<union> R"
    and "t \<noteq> ty \<Longrightarrow> mem_types s' t = mem_types s t - R" and "same_setup s s'" and "phys s' = phys s"
proof -
  note c = memmap_alloc_range_Inr [OF assms(1-3)]
  have b: b using c(2) by simp
  note m = c(4) [OF b, folded R_def] and us = usable_above [OF assms(2)]
  show "pmm_inv s'" "same_setup s s'" "phys s' = phys s" by (fact c)+
  show "mem_types s' ty = mem_types s ty \<union> R" using ty by (auto simp: m clip_usable_def assign_def)
  show "mem_types s' MEMMAP_USABLE = mem_types s MEMMAP_USABLE - R"
    using ty us by (auto simp: m clip_usable_def assign_def)
  then show "t \<noteq> ty \<Longrightarrow> mem_types s' t = mem_types s t - R"
    by (cases "t = MEMMAP_USABLE") (auto simp: m clip_usable_def assign_def)
qed

section \<open>Sparing the stack of the firmware\<close>

lemma spare_pick_Cons:
  "spare_pick bottom rtop (f # m) =
    (if me_type f = MEMMAP_USABLE \<and> entry_ok f \<and> max (lo f) (unat bottom) < min (hi f) (unat rtop)
     then Some (max (me_base f) bottom, min (me_base f + me_length f) rtop)
     else spare_pick bottom rtop m)"
proof (cases "me_type f = MEMMAP_USABLE \<and> entry_ok f")
  case True
  then have "min (me_base f + me_length f) rtop \<le> max (me_base f) bottom \<longleftrightarrow>
      \<not> max (lo f) (unat bottom) < min (hi f) (unat rtop)"
    by (simp only: word_le_nat_alt unat_min_max unat_entry_top lo_def not_less)
  then show ?thesis using True unfolding spare_pick.simps(2) entry_top C_MIN_min C_MAX_max Let_def
    by (simp only: if_True option.case simp_thms split: if_split) blast
qed (auto simp: entry_top)

declare spare_pick.simps(2) [simp del]

lemma spare_pick_Some:
  assumes "spare_pick bottom rtop m = Some (b, e)"
  shows "unat b < unat e \<and> unat bottom \<le> unat b \<and> unat e \<le> unat rtop
    \<and> (\<exists>f\<in>set m. me_type f = MEMMAP_USABLE \<and> {unat b..<unat e} \<subseteq> cov f)"
  using assms
proof (induction m)
  case (Cons f m)
  show ?case
  proof (cases "me_type f = MEMMAP_USABLE \<and> entry_ok f \<and> max (lo f) (unat bottom) < min (hi f) (unat rtop)")
    case True
    then have "unat b = max (lo f) (unat bottom)" "unat e = min (hi f) (unat rtop)"
      using Cons.prems by (auto simp: spare_pick_Cons unat_entry_top lo_def)
    then show ?thesis using True by (auto simp: cov_def)
  next
    case False
    then have "spare_pick bottom rtop m = Some (b, e)"
      using Cons.prems unfolding spare_pick_Cons if_not_P [OF False] by simp
    from Cons.IH [OF this] show ?thesis by auto
  qed
qed simp

lemma spare_pick_None:
  assumes "spare_pick bottom rtop m = None" and "f \<in> set m" "me_type f = MEMMAP_USABLE" "entry_ok f"
  shows "cov f \<inter> {unat bottom..<unat rtop} = {}"
  using assms
proof (induction m)
  case (Cons g m)
  then have g: "\<not> (me_type g = MEMMAP_USABLE \<and> entry_ok g \<and> max (lo g) (unat bottom) < min (hi g) (unat rtop))"
    and n: "spare_pick bottom rtop m = None"
    by (auto simp: spare_pick_Cons split: if_splits)
  show ?case
  proof (cases "f = g")
    case True
    then show ?thesis using g Cons.prems(3,4) by (auto simp: cov_def)
  next
    case False
    then show ?thesis using Cons.IH [OF n] Cons.prems by simp
  qed
qed simp

text \<open>
  Every round takes at least one byte of the range away from the usable memory, so the loop
  ends, and it ends with none of the range usable.
\<close>

lemma spare_loop_ends:
  fixes bottom rtop :: u64
  assumes "pmm_inv s"
  defines "R \<equiv> {unat bottom..<unat rtop}"
  shows "\<exists>r. spare_loop s bottom rtop = Some r \<and> (\<forall>s'. r = Inr s' \<longrightarrow>
    pmm_inv s' \<and> same_setup s s' \<and> phys s' = phys s
    \<and> mem_types s' MEMMAP_USABLE = mem_types s MEMMAP_USABLE - R
    \<and> mem_types s' MEMMAP_EFI_RECLAIMABLE =
        mem_types s MEMMAP_EFI_RECLAIMABLE \<union> mem_types s MEMMAP_USABLE \<inter> R)"
  using assms(1)
proof (induction "card (mem_types s MEMMAP_USABLE \<inter> R)" arbitrary: s rule: less_induct)
  case less
  have wf: "memmap_wf (memmap s)" using less.prems by (simp add: pmm_inv_def map_inv_def)
  show ?case
  proof (cases "spare_pick bottom rtop (memmap s)")
    case None
    have "mem_types s MEMMAP_USABLE \<inter> R = {}"
      using spare_pick_None [OF None] wf
      by (fastforce simp: mem_types_def mem_of_def typed_def R_def memmap_wf_def all_ok_def list_all_iff)
    then show ?thesis using None less.prems by (subst spare_loop.simps) (auto simp: same_setup_def)
  next
    case (Some p)
    obtain b e where p: "p = (b, e)" by (cases p)
    note pk = spare_pick_Some [OF Some [unfolded p]]
    have len: "unat (e - b) = unat e - unat b" "e - b \<noteq> 0" using pk by (auto simp: unat_sub_exact)
    let ?A = "{unat b..<unat e}"
    have A: "?A \<subseteq> R" "?A \<subseteq> mem_types s MEMMAP_USABLE" "unat b \<in> ?A"
      using pk usable_cov [OF wf] by (auto simp: R_def mem_types_def)
    show ?thesis
    proof (cases "memmap_alloc_range s b (e - b) MEMMAP_EFI_RECLAIMABLE MEMMAP_USABLE True False False")
      case (Inl x)
      then show ?thesis using Some p by (subst spare_loop.simps) simp
    next
      case (Inr q)
      obtain ok s1 where q: "q = (ok, s1)" by (cases q)
      have ty: "MEMMAP_EFI_RECLAIMABLE \<noteq> MEMMAP_USABLE" by (simp add: memmap_types)
      note t = take_usable [OF Inr [unfolded q] less.prems len(2) ty, unfolded len(1)]
      have sum: "unat b + (unat e - unat b) = unat e" using pk by simp
      have u: "mem_types s1 MEMMAP_USABLE = mem_types s MEMMAP_USABLE - ?A"
        and r: "mem_types s1 MEMMAP_EFI_RECLAIMABLE = mem_types s MEMMAP_EFI_RECLAIMABLE \<union> ?A"
        using t(2,3) by (simp_all only: sum)
      have "mem_types s1 MEMMAP_USABLE \<inter> R \<subset> mem_types s MEMMAP_USABLE \<inter> R" using A u by blast
      then have "card (mem_types s1 MEMMAP_USABLE \<inter> R) < card (mem_types s MEMMAP_USABLE \<inter> R)"
        by (intro psubset_card_mono) (simp_all add: R_def)
      from less.hyps [OF this t(1)] obtain x where x: "spare_loop s1 bottom rtop = Some x"
        and post: "\<forall>s'. x = Inr s' \<longrightarrow> pmm_inv s' \<and> same_setup s1 s' \<and> phys s' = phys s1
          \<and> mem_types s' MEMMAP_USABLE = mem_types s1 MEMMAP_USABLE - R
          \<and> mem_types s' MEMMAP_EFI_RECLAIMABLE =
              mem_types s1 MEMMAP_EFI_RECLAIMABLE \<union> mem_types s1 MEMMAP_USABLE \<inter> R" by blast
      have run: "spare_loop s bottom rtop = Some x"
        using Some p Inr q x by (subst spare_loop.simps) simp
      have "mem_types s MEMMAP_USABLE - ?A - R = mem_types s MEMMAP_USABLE - R"
        "?A \<union> (mem_types s MEMMAP_USABLE - ?A) \<inter> R = mem_types s MEMMAP_USABLE \<inter> R" using A by auto
      then show ?thesis using run post t(5,6) u r by (auto simp: same_setup_def Un_assoc)
    qed
  qed
qed

text \<open>
  C11. Sparing the firmware's stack always ends. When it does not run out of table entries, the
  128KiB below the stack pointer and the frames up to 64KiB above it are no longer usable memory
  but the firmware's, and no other usable memory is lost.
\<close>

theorem firmware_stack_spared:
  assumes "pmm_inv s" and "unat sp + 0x10000 < 2 ^ 64"
  shows "\<exists>r. pmm_spare_firmware_stack s sp = Some r \<and> (\<forall>s'. r = Inr s' \<longrightarrow>
    (let R = {(if unat sp > 0x20000 then (unat sp - 0x20000) div 4096 * 4096 else 0)
              ..<unat sp div 4096 * 4096 + 0x10000}
     in pmm_inv s' \<and> phys s' = phys s
        \<and> mem_types s' MEMMAP_USABLE = mem_types s MEMMAP_USABLE - R
        \<and> mem_types s' MEMMAP_EFI_RECLAIMABLE =
            mem_types s MEMMAP_EFI_RECLAIMABLE \<union> mem_types s MEMMAP_USABLE \<inter> R))"
proof -
  let ?b = "if sp > 0x20000 then ALIGN_DOWN (sp - 0x20000) PAGE_SIZE else 0"
  have p: "unat PAGE_SIZE = 4096" by (simp add: PAGE_SIZE_def)
  have dn: "unat (ALIGN_DOWN sp PAGE_SIZE) = unat sp div 4096 * 4096" by (simp only: unat_ALIGN_DOWN p)
  have "unat sp div 4096 * 4096 \<le> unat sp" by simp
  then have fits: "unat (ALIGN_DOWN sp PAGE_SIZE) + unat (0x10000 :: u64) < 2 ^ LENGTH(64)"
    using assms(2) dn by simp
  then have c: "CHECKED_ADD (ALIGN_DOWN sp PAGE_SIZE) 0x10000 = Some (ALIGN_DOWN sp PAGE_SIZE + 0x10000)"
    by (simp add: checked_simps)
  have t: "unat (ALIGN_DOWN sp PAGE_SIZE + 0x10000) = unat sp div 4096 * 4096 + 0x10000"
    using CHECKED_ADD_unat [OF c] dn by simp
  have b: "unat ?b = (if unat sp > 0x20000 then (unat sp - 0x20000) div 4096 * 4096 else 0)"
    by (simp add: unat_ALIGN_DOWN p unat_sub_exact word_nat)
  show ?thesis
    using spare_loop_ends [OF assms(1), of ?b "ALIGN_DOWN sp PAGE_SIZE + 0x10000", unfolded t b]
    unfolding pmm_spare_firmware_stack_def c Let_def by auto
qed

theorem firmware_stack_spared_witness:
  "pmm_inv example_pmm \<and> (\<exists>r. pmm_spare_firmware_stack example_pmm 0x18000 = Some r)"
proof -
  have "unat (0x18000 :: u64) + 0x10000 < 2 ^ 64" by simp
  from firmware_stack_spared [OF example_pmm_inv this] show ?thesis using example_pmm_inv by blast
qed

section \<open>Claiming pages from the firmware\<close>

text \<open>
  What is relied on of \<^verbatim>\<open>AllocatePages\<close> at a fixed address: on success the pages
  are the loader's, on failure nothing is. \<open>owned\<close> tells the addresses the firmware has
  handed over.
\<close>

definition fw_grants :: "'fw alloc_pages \<Rightarrow> ('fw \<Rightarrow> nat set) \<Rightarrow> bool" where
  "fw_grants ap owned \<longleftrightarrow>
     (\<forall>fw b n. owned (snd (ap fw b n)) =
        owned fw \<union> (if fst (ap fw b n) then {unat b..<unat b + unat n * 4096} else {}))"

text \<open>
  From one pair of states to the next, what is still usable of the range is owned, and only
  memory of the range stops being usable.
\<close>

definition claims :: "('fw \<Rightarrow> nat set) \<Rightarrow> nat set \<Rightarrow> 'fw \<Rightarrow> pmm \<Rightarrow> 'fw \<Rightarrow> pmm \<Rightarrow> bool" where
  "claims owned R fw s fw' s' \<longleftrightarrow>
     pmm_inv s' \<and> same_setup s s' \<and> phys s' = phys s
     \<and> mem_types s' MEMMAP_USABLE \<subseteq> mem_types s MEMMAP_USABLE
     \<and> mem_types s MEMMAP_USABLE - R \<subseteq> mem_types s' MEMMAP_USABLE
     \<and> owned fw \<subseteq> owned fw' \<and> R \<inter> mem_types s' MEMMAP_USABLE \<subseteq> owned fw'"

lemma claims_trans:
  "claims owned R1 fw s fw1 s1 \<Longrightarrow> claims owned R2 fw1 s1 fw2 s2 \<Longrightarrow> R1 \<union> R2 = R \<Longrightarrow>
   claims owned R fw s fw2 s2"
  unfolding claims_def same_setup_def by auto

lemma fw_grantsD:
  "fw_grants ap owned \<Longrightarrow> ap fw b n = (ok, fw') \<Longrightarrow>
   owned fw' = owned fw \<union> (if ok then {unat b..<unat b + unat n * 4096} else {})"
  unfolding fw_grants_def by (metis fst_conv snd_conv)

lemma claims_granted:
  assumes "fw_grants ap owned" and "ap fw b n = (True, fw')" and "pmm_inv s"
  shows "claims owned {unat b..<unat b + unat n * 4096} fw s fw' s"
  using fw_grantsD [OF assms(1,2)] assms(3) by (auto simp: claims_def same_setup_def)

lemma claims_refused:
  assumes "fw_grants ap owned" and "ap fw b n = (False, fw')" and "pmm_inv s"
  shows "claims owned {} fw s fw' s"
  using fw_grantsD [OF assms(1,2)] assms(3) by (auto simp: claims_def same_setup_def)

lemma claims_marked:
  assumes "pmm_mark_uefi_pages_unclaimed s b n = Inr s'" and "pmm_inv s"
    and "n \<noteq> 0" and "unat n * 4096 < 2 ^ 64"
  shows "claims owned {unat b..<unat b + unat n * 4096} fw s fw s'"
proof -
  have len: "unat (n * 4096) = unat n * 4096" using assms(4) by (simp add: unat_mult_exact)
  then have ne: "n * 4096 \<noteq> 0" using assms(3) by (metis mult_eq_0_iff unat_eq_0 unat_0 zero_neq_numeral)
  obtain b' where r: "memmap_alloc_range s b (n * 4096) MEMMAP_EFI_RECLAIMABLE MEMMAP_USABLE True False False
      = Inr (b', s')" using assms(1) by (auto simp: pmm_mark_uefi_pages_unclaimed_def)
  have ty: "MEMMAP_EFI_RECLAIMABLE \<noteq> MEMMAP_USABLE" by (simp add: memmap_types)
  show ?thesis using take_usable [OF r assms(2) ne ty] by (auto simp: claims_def len)
qed

text \<open>The next chunk, in numbers.\<close>

lemma chunk_words:
  fixes base n chunk :: u64
  assumes "unat base + unat n * 4096 < 2 ^ 64" and "unat chunk \<le> unat n"
  shows "unat (base + chunk * 4096) = unat base + unat chunk * 4096"
    and "unat (n - chunk) = unat n - unat chunk"
    and "unat (base + chunk * 4096) + unat (n - chunk) * 4096 = unat base + unat n * 4096"
proof -
  have m: "unat chunk * 4096 \<le> unat n * 4096" using assms(2) by simp
  then have c: "unat (chunk * 4096) = unat chunk * 4096" using assms(1) by (simp add: unat_mult_exact)
  show a: "unat (base + chunk * 4096) = unat base + unat chunk * 4096"
    using assms(1) m c by (simp add: unat_add_exact)
  show b: "unat (n - chunk) = unat n - unat chunk" using assms(2) by (rule unat_sub_exact)
  show "unat (base + chunk * 4096) + unat (n - chunk) * 4096 = unat base + unat n * 4096"
    unfolding a b using assms(2) by (simp add: diff_mult_distrib)
qed

text \<open>What the loop achieves, as one predicate on its result.\<close>

definition claims_result ::
    "('fw \<Rightarrow> nat set) \<Rightarrow> nat set \<Rightarrow> 'fw \<Rightarrow> pmm \<Rightarrow> ('fw \<times> pmm) res option \<Rightarrow> bool" where
  "claims_result owned R fw s r \<longleftrightarrow>
     r \<noteq> None \<and> (\<forall>fw' s'. r = Some (Inr (fw', s')) \<longrightarrow> claims owned R fw s fw' s')"

lemma claims_result_panic: "claims_result owned R fw s (Some (Inl e))"
  by (simp add: claims_result_def)

lemma claims_result_trans:
  assumes "claims owned R1 fw s fw1 s1" and "claims_result owned R2 fw1 s1 r" and "R1 \<union> R2 = R"
  shows "claims_result owned R fw s r"
  using assms(2) claims_trans [OF assms(1) _ assms(3)] by (auto simp: claims_result_def)

lemma claim_fallback_loop_claims:
  fixes base n step fb fp :: u64
  assumes "fw_grants ap owned" and "pmm_inv s" and "step \<noteq> 0"
    and "unat base + unat n * 4096 < 2 ^ 64"
    and "fp \<noteq> 0 \<longrightarrow> unat fb + unat fp * 4096 = unat base \<and> (step = 1 \<or> n = 0)"
  shows "claims_result owned {(if fp \<noteq> 0 then unat fb else unat base)..<unat base + unat n * 4096} fw s
    (claim_fallback_loop ap fw s base n step fb fp)"
  using assms
proof (induction ap fw s base n step fb fp rule: claim_fallback_loop.induct)
  case (1 ap fw s base n step fb fp)
  note g = "1.prems"(1) and inv = "1.prems"(2) and st = "1.prems"(3) and fits = "1.prems"(4) and con = "1.prems"(5)
  have fpb: "fp \<noteq> 0 \<Longrightarrow> unat fp * 4096 < 2 ^ 64" using con fits by auto
  show ?case
  proof (cases "n = 0")
    case True
    show ?thesis
    proof (cases "fp = 0 \<or> (\<exists>e. pmm_mark_uefi_pages_unclaimed s fb fp = Inl e)")
      case True
      then show ?thesis using \<open>n = 0\<close> inv
        by (subst claim_fallback_loop.simps) (auto simp: claims_result_def claims_def same_setup_def)
    next
      case False
      then obtain s1 where "fp \<noteq> 0" "pmm_mark_uefi_pages_unclaimed s fb fp = Inr s1"
        by (metis obj_sumE)
      then show ?thesis using \<open>n = 0\<close> inv con fpb claims_marked [of s fb fp s1 owned fw]
        by (subst claim_fallback_loop.simps) (auto simp: claims_result_def)
    qed
  next
    case n: False
    let ?c = "C_MIN n step"
    let ?base = "base + ?c * 4096" and ?n = "n - ?c"
    have c0: "?c \<noteq> 0" using n st by (simp add: min_def)
    obtain ok fw1 where ap: "ap fw base ?c = (ok, fw1)" by (cases "ap fw base ?c")
    have c1: "unat ?c = 1" if "fp \<noteq> 0" using that con n unat_gt_0 [of n] by auto
    have cn: "unat ?c \<le> unat n" by simp
    note w = chunk_words [OF fits cn] and IH = "1.IH" [OF n refl c0 ap [symmetric]]
    have fits': "unat ?base + unat ?n * 4096 < 2 ^ 64" using fits w(3) by simp
    have cover: "{unat base..<unat base + unat ?c * 4096} \<union> {unat ?base..<unat base + unat n * 4096}
        = {unat base..<unat base + unat n * 4096}" using w by auto
    consider (split) "\<not> ok" "?c > 1" | (fail) "\<not> ok" "\<not> ?c > 1" | (mark) "ok" "fp \<noteq> 0" | (good) "ok" "fp = 0"
      by blast
    then show ?thesis
    proof cases
      case split
      have fp: "fp = 0" using c1 split(2) by (metis less_irrefl unat_1 word_less_nat_alt)
      let ?nested = "claim_fallback_loop ap fw1 s base ?c 1 0 0"
      have cr: "claims_result owned {unat base..<unat base + unat ?c * 4096} fw1 s ?nested"
        using IH(1) g inv split fits w by (simp add: not_le)
      have eq: "claim_fallback_loop ap fw s base n step fb fp =
          (case ?nested of None \<Rightarrow> None | Some (Inl e) \<Rightarrow> Some (Inl e)
           | Some (Inr (fw2, s2)) \<Rightarrow> claim_fallback_loop ap fw2 s2 ?base ?n step fb fp)"
        using n c0 ap split by (subst claim_fallback_loop.simps) (simp add: Let_def del: C_MIN_min)
      show ?thesis
      proof (cases "\<exists>fw2 s2. ?nested = Some (Inr (fw2, s2))")
        case False
        then obtain e where "?nested = Some (Inl e)"
          using cr by (metis claims_result_def not_Some_eq obj_sumE surj_pair)
        then show ?thesis unfolding eq by (simp add: claims_result_panic)
      next
        case True
        then obtain fw2 s2 where ne: "?nested = Some (Inr (fw2, s2))" by blast
        then have c2: "claims owned {unat base..<unat base + unat ?c * 4096} fw1 s fw2 s2"
          using cr by (simp add: claims_result_def)
        then have "pmm_inv s2" by (simp add: claims_def)
        then have "claims_result owned {unat ?base..<unat base + unat n * 4096} fw2 s2
            (claim_fallback_loop ap fw2 s2 ?base ?n step fb fp)"
          using IH(2) [OF _ ne refl refl] split g st fits' w(3) fp by simp
        note r = claims_result_trans [OF c2 this cover]
        show ?thesis
          unfolding eq ne using claims_result_trans [OF claims_refused [OF g _ inv] r] ap split(1) fp by simp
      qed
    next
      case fail
      have "\<not> 1 < unat ?c" using fail(2) by (metis unat_1 word_less_nat_alt)
      moreover have "0 < unat ?c" using c0 unat_gt_0 by blast
      ultimately have one: "unat ?c = 1" by linarith
      have "unat fp + unat ?c < 2 ^ LENGTH(64)" using fpb one by (cases "fp = 0") auto
      then have sum: "unat (fp + ?c) = unat fp + 1" by (simp only: unat_add_exact one)
      have ne: "fp + ?c \<noteq> 0" using sum by (metis add_is_0 one_neq_zero unat_0)
      let ?fb = "if fp = 0 then base else fb"
      have "unat step = 1 \<or> unat n = 1" using one by (simp add: min_def split: if_splits)
      then have "step = 1 \<or> ?n = 0" using w(2) one
        by (metis diff_self_eq_0 unat_1 unat_eq_0 word_unat_eq_iff)
      moreover have "unat ?fb + unat (fp + ?c) * 4096 = unat ?base" using con sum one w(1) by auto
      ultimately have r: "claims_result owned {unat ?fb..<unat base + unat n * 4096} fw1 s
          (claim_fallback_loop ap fw1 s ?base ?n step ?fb (fp + ?c))"
        using IH(3) fail g inv st fits' w(3) ne by simp
      have eq: "claim_fallback_loop ap fw s base n step fb fp =
          claim_fallback_loop ap fw1 s ?base ?n step ?fb (fp + ?c)"
        using n c0 ap fail by (subst claim_fallback_loop.simps) (simp add: Let_def del: C_MIN_min)
      show ?thesis
        unfolding eq using claims_result_trans [OF claims_refused [OF g _ inv] r] ap fail(1) by simp
    next
      case mark
      have eq: "claim_fallback_loop ap fw s base n step fb fp =
          (case pmm_mark_uefi_pages_unclaimed s fb fp of Inl e \<Rightarrow> Some (Inl e)
           | Inr s1 \<Rightarrow> claim_fallback_loop ap fw1 s1 ?base ?n step fb 0)"
        using n c0 ap mark by (subst claim_fallback_loop.simps) (simp add: Let_def del: C_MIN_min)
      show ?thesis
      proof (cases "pmm_mark_uefi_pages_unclaimed s fb fp")
        case (Inl e)
        then show ?thesis unfolding eq by (simp add: claims_result_panic)
      next
        case (Inr s1)
        have c2: "claims owned {unat fb..<unat fb + unat fp * 4096} fw s fw s1"
          using claims_marked [OF Inr inv] mark(2) fpb by simp
        then have inv1: "pmm_inv s1" by (simp add: claims_def)
        have "claims owned {unat base..<unat base + unat ?c * 4096} fw s1 fw1 s1"
          using claims_granted [OF g ap [unfolded eqTrueI [OF mark(1)]] inv1] .
        from claims_trans [OF c2 this refl]
        have c3: "claims owned {unat fb..<unat ?base} fw s fw1 s1"
          using con mark(2) w(1) by (simp add: ivl_disj_un_two(3) del: C_MIN_min)
        have "claims_result owned {unat ?base..<unat base + unat n * 4096} fw1 s1
            (claim_fallback_loop ap fw1 s1 ?base ?n step fb 0)"
          using IH(4) [OF _ _ mark(2) Inr] mark(1) g inv1 st fits' w(3) by simp
        from claims_result_trans [OF c3 this refl] show ?thesis
          unfolding eq Inr using mark(2) con w by (simp add: ivl_disj_un_two(3) del: C_MIN_min)
      qed
    next
      case good
      have eq: "claim_fallback_loop ap fw s base n step fb fp = claim_fallback_loop ap fw1 s ?base ?n step fb fp"
        using n c0 ap good by (subst claim_fallback_loop.simps) (simp add: Let_def del: C_MIN_min)
      have "claims_result owned {unat ?base..<unat base + unat n * 4096} fw1 s
          (claim_fallback_loop ap fw1 s ?base ?n step fb fp)"
        using IH(5) good g inv st fits' w(3) by simp
      from claims_result_trans [OF claims_granted [OF g ap [unfolded eqTrueI [OF good(1)]] inv] this cover]
      show ?thesis unfolding eq using good by simp
    qed
  qed
qed

text \<open>The outer loop, which halves its requests until they are granted.\<close>

lemma halved_cap_nonzero: "cap \<noteq> 0 \<Longrightarrow> C_MIN cap (C_MAX x UEFI_ALLOC_MIN_PAGES) \<noteq> 0"
proof -
  assume "cap \<noteq> 0"
  then have "0 < unat cap" by (simp add: unat_gt_0)
  moreover have "unat UEFI_ALLOC_MIN_PAGES = 16384" by (simp add: UEFI_ALLOC_MIN_PAGES_def)
  ultimately have "0 < unat (C_MIN cap (C_MAX x UEFI_ALLOC_MIN_PAGES))" by simp
  then show ?thesis using unat_gt_0 by blast
qed

lemma pmm_claim_uefi_pages_claims:
  assumes "fw_grants ap owned" and "pmm_inv s" and "cap \<noteq> 0" and "unat base + unat n * 4096 < 2 ^ 64"
  shows "pmm_claim_uefi_pages ap fw s cap base n \<noteq> None \<and>
    (\<forall>fw' s' cap'. pmm_claim_uefi_pages ap fw s cap base n = Some (Inr (fw', s', cap')) \<longrightarrow>
      claims owned {unat base..<unat base + unat n * 4096} fw s fw' s' \<and> cap' \<noteq> 0)"
  using assms
proof (induction ap fw s cap base n rule: pmm_claim_uefi_pages.induct)
  case (1 ap fw s cap base n)
  note g = "1.prems"(1) and inv = "1.prems"(2) and cap = "1.prems"(3) and fits = "1.prems"(4)
  show ?case
  proof (cases "n = 0")
    case True
    then show ?thesis using inv cap
      by (subst (1 2) pmm_claim_uefi_pages.simps) (auto simp: claims_def same_setup_def)
  next
    case n: False
    let ?c = "C_MIN n cap"
    let ?base = "base + ?c * 4096" and ?n = "n - ?c"
    have c0: "?c \<noteq> 0" using n cap by (simp add: min_def)
    obtain ok fw1 where ap: "ap fw base ?c = (ok, fw1)" by (cases "ap fw base ?c")
    have cn: "unat ?c \<le> unat n" by simp
    note w = chunk_words [OF fits cn] and IH = "1.IH" [OF n refl c0 ap [symmetric]]
    have fits': "unat ?base + unat ?n * 4096 < 2 ^ 64" using fits w(3) by simp
    have cover: "{unat base..<unat base + unat ?c * 4096} \<union> {unat ?base..<unat base + unat n * 4096}
        = {unat base..<unat base + unat n * 4096}" using w by auto
    have tail: ?thesis
      if c: "claims owned {unat base..<unat base + unat ?c * 4096} fw s fw2 s2"
        and eq: "pmm_claim_uefi_pages ap fw s cap base n = pmm_claim_uefi_pages ap fw2 s2 cap ?base ?n"
        and ih: "pmm_inv s2 \<Longrightarrow> pmm_claim_uefi_pages ap fw2 s2 cap ?base ?n \<noteq> None \<and>
          (\<forall>fw' s' cap'. pmm_claim_uefi_pages ap fw2 s2 cap ?base ?n = Some (Inr (fw', s', cap')) \<longrightarrow>
            claims owned {unat ?base..<unat base + unat n * 4096} fw2 s2 fw' s' \<and> cap' \<noteq> 0)" for fw2 s2
    proof -
      have "pmm_inv s2" using c by (simp add: claims_def)
      from ih [OF this] claims_trans [OF c _ cover] show ?thesis unfolding eq by blast
    qed
    consider (halve) "\<not> ok" "?c > UEFI_ALLOC_MIN_PAGES" | (fallback) "\<not> ok" "\<not> ?c > UEFI_ALLOC_MIN_PAGES"
      | (good) "ok" by blast
    then show ?thesis
    proof cases
      case halve
      let ?cap = "C_MIN cap (C_MAX (?c div 2) UEFI_ALLOC_MIN_PAGES)"
      have eq: "pmm_claim_uefi_pages ap fw s cap base n = pmm_claim_uefi_pages ap fw1 s ?cap base n"
        using n c0 ap halve
        by (subst pmm_claim_uefi_pages.simps) (simp add: Let_def del: C_MIN_min C_MAX_max)
      have ref: "claims owned {} fw s fw1 s" using claims_refused [OF g _ inv] ap halve(1) by simp
      have "\<not> ok \<and> ?c > UEFI_ALLOC_MIN_PAGES" using halve by simp
      from IH(1) [OF this g inv halved_cap_nonzero [OF cap] fits]
      show ?thesis unfolding eq using claims_trans [OF ref] by auto
    next
      case fallback
      let ?f = "pmm_claim_uefi_pages_fallback ap fw1 s base ?c UEFI_ALLOC_FALLBACK_PAGES"
      have eq: "pmm_claim_uefi_pages ap fw s cap base n =
          (case ?f of None \<Rightarrow> None | Some (Inl e) \<Rightarrow> Some (Inl e)
           | Some (Inr (fw2, s2)) \<Rightarrow> pmm_claim_uefi_pages ap fw2 s2 cap ?base ?n)"
        using n c0 ap fallback by (subst pmm_claim_uefi_pages.simps) (simp add: Let_def del: C_MIN_min C_MAX_max)
      have ref: "claims owned {} fw s fw1 s" using claims_refused [OF g _ inv] ap fallback(1) by simp
      have cr: "claims_result owned {unat base..<unat base + unat ?c * 4096} fw1 s ?f"
        unfolding pmm_claim_uefi_pages_fallback_def
        using claim_fallback_loop_claims [OF g inv, of UEFI_ALLOC_FALLBACK_PAGES base ?c 0 0] fits w
        by (simp add: UEFI_ALLOC_FALLBACK_PAGES_def del: C_MIN_min)
      show ?thesis
      proof (cases "\<exists>fw2 s2. ?f = Some (Inr (fw2, s2))")
        case False
        then obtain e where "?f = Some (Inl e)"
          using cr by (metis claims_result_def not_Some_eq obj_sumE surj_pair)
        then show ?thesis unfolding eq by simp
      next
        case True
        then obtain fw2 s2 where f: "?f = Some (Inr (fw2, s2))" by blast
        then have "claims owned {unat base..<unat base + unat ?c * 4096} fw1 s fw2 s2"
          using cr by (simp add: claims_result_def)
        from claims_trans [OF ref this] have c: "claims owned {unat base..<unat base + unat ?c * 4096} fw s fw2 s2"
          by simp
        have e2: "pmm_claim_uefi_pages ap fw s cap base n = pmm_claim_uefi_pages ap fw2 s2 cap ?base ?n"
          unfolding eq f by simp
        have nh: "\<not> (\<not> ok \<and> ?c > UEFI_ALLOC_MIN_PAGES)" using fallback by simp
        show ?thesis
          by (rule tail [OF c e2]) (use IH(2) [OF nh fallback(1) f refl refl g _ cap fits'] w(3) in simp)
      qed
    next
      case good
      have eq: "pmm_claim_uefi_pages ap fw s cap base n = pmm_claim_uefi_pages ap fw1 s cap ?base ?n"
        using n c0 ap good by (subst pmm_claim_uefi_pages.simps) (simp add: Let_def del: C_MIN_min C_MAX_max)
      have nh: "\<not> (\<not> ok \<and> ?c > UEFI_ALLOC_MIN_PAGES)" "\<not> \<not> ok" using good by simp_all
      show ?thesis
        by (rule tail [OF claims_granted [OF g ap [unfolded eqTrueI [OF good]] inv] eq])
          (use IH(3) [OF nh g _ cap fits'] w(3) in simp)
    qed
  qed
qed

lemma whole_pages:
  assumes "entry_ok e" and "4096 dvd unat (me_length e)"
  shows "unat (me_base e) + unat (me_length e div PAGE_SIZE) * 4096 = hi e"
    and "{unat (me_base e)..<unat (me_base e) + unat (me_length e div PAGE_SIZE) * 4096} = cov e"
proof -
  show "unat (me_base e) + unat (me_length e div PAGE_SIZE) * 4096 = hi e"
    using assms(2) by (simp add: PAGE_SIZE_def unat_div_distrib hi_def)
  then show "{unat (me_base e)..<unat (me_base e) + unat (me_length e div PAGE_SIZE) * 4096} = cov e"
    by (simp add: cov_def lo_def)
qed

lemma own_usable_claims:
  assumes "fw_grants ap owned" and "pmm_inv s" and "cap \<noteq> 0" and "arch \<noteq> I386"
    and "\<forall>e\<in>set es. entry_ok e \<and> 4096 dvd unat (me_length e)"
  shows "own_usable arch ap fw s cap es \<noteq> None \<and>
    (\<forall>fw' s' cap'. own_usable arch ap fw s cap es = Some (Inr (fw', s', cap')) \<longrightarrow>
      claims owned (typed (set es) MEMMAP_USABLE) fw s fw' s')"
  using assms
proof (induction es arbitrary: fw s cap)
  case Nil
  then show ?case by (simp add: claims_def typed_def same_setup_def)
next
  case (Cons e es)
  note g = Cons.prems(1) and inv = Cons.prems(2) and cap = Cons.prems(3) and ar = Cons.prems(4)
  have e: "entry_ok e" "4096 dvd unat (me_length e)"
    and es: "\<forall>e\<in>set es. entry_ok e \<and> 4096 dvd unat (me_length e)" using Cons.prems(5) by auto
  show ?case
  proof (cases "me_type e = MEMMAP_USABLE")
    case False
    then show ?thesis using Cons.IH [OF g inv cap ar es] by (simp add: typed_insert)
  next
    case True
    let ?r = "pmm_claim_uefi_pages ap fw s cap (me_base e) (me_length e div PAGE_SIZE)"
    have ty: "typed (set (e # es)) MEMMAP_USABLE = cov e \<union> typed (set es) MEMMAP_USABLE"
      using True by (simp add: typed_insert)
    have "unat (me_base e) + unat (me_length e div PAGE_SIZE) * 4096 < 2 ^ 64"
      using whole_pages(1) [OF e] e(1) by (simp add: entry_ok_def)
    note c = pmm_claim_uefi_pages_claims [OF g inv cap this, of fw, unfolded whole_pages(2) [OF e]]
    show ?thesis
    proof (cases "\<exists>fw1 s1 cap1. ?r = Some (Inr (fw1, s1, cap1))")
      case False
      then obtain x where "?r = Some (Inl x)" using c by (metis not_Some_eq obj_sumE surj_pair)
      then show ?thesis using True ar by simp
    next
      case r: True
      then obtain fw1 s1 cap1 where r: "?r = Some (Inr (fw1, s1, cap1))" by blast
      then have c1: "claims owned (cov e) fw s fw1 s1" "cap1 \<noteq> 0" using c by blast+
      then have "pmm_inv s1" by (simp add: claims_def)
      note ih = Cons.IH [OF g this c1(2) ar es]
      have "own_usable arch ap fw s cap (e # es) = own_usable arch ap fw1 s1 cap1 es"
        using True ar r by simp
      then show ?thesis using ih claims_trans [OF c1(1) _ ty [symmetric]] by (simp del: own_usable.simps)
    qed
  qed
qed



text \<open>On i386 an entry that ends above 4GiB is passed over, and stays usable.\<close>

lemma own_usable_i386_high:
  assumes "entry_ok e" and "2 ^ 32 < hi e"
  shows "own_usable I386 ap fw s cap (e # es) = own_usable I386 ap fw s cap es"
proof -
  have "0x100000000 < me_base e + me_length e"
    using assms unat_entry_top [OF assms(1)] by (simp add: word_less_nat_alt)
  then show ?thesis using assms(1) by (simp add: entry_top)
qed

text \<open>The release code gives such an entry to \<^verbatim>\<open>FreePages\<close> all the same.\<close>

lemma release_frees_usable:
  assumes "me_type e = MEMMAP_USABLE" and "fp fw (me_base e) (me_length e div 4096) = (False, fw')"
  shows "release_entries fp fw (e # es) = Inl (Panic ''pmm: FreePages failure (%X)'')"
  using assms by simp

section \<open>Reclaiming\<close>

text \<open>The part of a descriptor that is reassigned lies within the entry.\<close>

lemma reclaim_clip_eq:
  assumes "reclaim_clip r d = Some (b, n)"
  defines "P \<equiv> unat (PhysicalStart d)" and "S \<equiv> unat (NumberOfPages d) * 4096"
  shows "entry_ok r" and "unat b = max P (lo r)" and "unat b + unat n = min (P + S) (hi r)"
proof -
  obtain rtop size0 where rt: "CHECKED_ADD (me_base r) (me_length r) = Some rtop"
    and s0: "CHECKED_MUL (NumberOfPages d) 4096 = Some size0"
    using assms(1) by (auto simp: reclaim_clip_def split: option.splits)
  show ok: "entry_ok r" using rt by (auto simp: entry_top split: if_splits)
  have uH: "unat rtop = hi r" using CHECKED_ADD_unat [OF rt] by (simp add: hi_def)
  have uS: "unat size0 = S" using CHECKED_MUL_unat [OF s0] by (simp add: S_def)
  let ?below = "PhysicalStart d < me_base r"
  let ?size1 = "if ?below then size0 - (me_base r - PhysicalStart d) else size0"
  let ?eb = "if ?below then me_base r else PhysicalStart d"
  obtain top1 where t1: "CHECKED_ADD ?eb ?size1 = Some top1"
    and g1: "\<not> (?below \<and> size0 \<le> me_base r - PhysicalStart d)"
    and g2: "\<not> (top1 > rtop \<and> ?size1 \<le> top1 - rtop)"
    and g3: "?eb < rtop" and b: "b = ?eb" and n: "n = (if top1 > rtop then ?size1 - (top1 - rtop) else ?size1)"
    and g4: "(if top1 > rtop then rtop else top1) > me_base r"
    using assms(1) unfolding reclaim_clip_def rt s0 option.case Let_def
    by (auto split: option.splits if_splits)
  have uL: "unat (me_base r) = lo r" by (simp add: lo_def)
  have ub: "unat ?eb = max P (lo r)" using uL by (auto simp: P_def word_less_nat_alt)
  have u1: "unat ?eb + unat ?size1 = P + S"
  proof (cases ?below)
    case True
    then have lt: "P < lo r" by (simp add: P_def word_less_nat_alt uL)
    have d: "unat (me_base r - PhysicalStart d) = lo r - P" using lt by (simp add: unat_sub_exact P_def uL)
    then have "lo r - P < S" using g1 True uS by (auto simp: word_le_nat_alt)
    then show ?thesis using True lt d uS by (simp add: unat_sub_exact uL)
  qed (simp add: P_def uS)
  have ut: "unat top1 = P + S" using CHECKED_ADD_unat [OF t1] u1 by simp
  show "unat b = max P (lo r)" using ub b by simp
  show un: "unat b + unat n = min (P + S) (hi r)"
  proof (cases "top1 > rtop")
    case True
    then have gt: "hi r < P + S" by (simp add: word_less_nat_alt uH ut)
    then have d: "unat (top1 - rtop) = P + S - hi r" by (simp add: unat_sub_exact uH ut)
    then have "P + S - hi r < unat ?size1" using g2 True by (simp only: word_le_nat_alt simp_thms not_le)
    then have "unat n = unat ?size1 - (P + S - hi r)" using True d n by (simp only: unat_sub_exact if_True)
    then show ?thesis using gt u1 b \<open>P + S - hi r < unat ?size1\<close> by simp
  next
    case False
    then show ?thesis using u1 b n by (simp add: word_less_nat_alt uH ut)
  qed
qed

lemma reclaim_clip_within:
  assumes "reclaim_clip r d = Some (b, n)"
  shows "{unat b..<unat b + unat n} \<subseteq> cov r"
  using reclaim_clip_eq [OF assms] by (auto simp: cov_def)

lemma alloc_range_in_outside:
  assumes run: "memmap_alloc_range_in mx keep m b n ty ov True False ne = Inr (ok, m')" and inv: "map_inv keep m"
    and R: "{unat b..<unat b + unat n} \<subseteq> R"
  shows "map_inv keep m' \<and> (\<forall>t. mem_of m' t - R = mem_of m t - R)"
proof (cases "n = 0")
  case True
  then show ?thesis using run inv by (simp add: memmap_alloc_range_in_def)
next
  case False
  note c = memmap_alloc_range_in_Inr [OF run inv False]
  have us: "mem_of m MEMMAP_USABLE \<subseteq> above_first_page keep" using inv by (simp add: map_inv_def)
  have ok using c(2) by auto
  from c(3) [OF this] c(1) R us show ?thesis by (auto simp: clip_usable_def assign_def)
qed

lemma reclaim_entry_outside:
  assumes "reclaim_entry mx keep raw r ds m = Inr m'" and "map_inv keep m"
  shows "map_inv keep m' \<and> (\<forall>t. mem_of m' t - cov r = mem_of m t - cov r)"
  using assms
proof (induction ds arbitrary: m)
  case (Cons d ds)
  show ?case
  proof (cases "reclaim_clip r d")
    case None
    then show ?thesis using Cons by simp
  next
    case (Some p)
    obtain b n where p: "p = (b, n)" by (cases p)
    obtain ok m1 where a: "memmap_alloc_range_in mx keep m b n (reclaim_type raw (Type d)) 0 True False False = Inr (ok, m1)"
      and r: "reclaim_entry mx keep raw r ds m1 = Inr m'"
      using Cons.prems(1) Some p by auto
    note o = alloc_range_in_outside [OF a Cons.prems(2) reclaim_clip_within [OF Some [unfolded p]]]
    then show ?thesis using Cons.IH [OF r] by simp
  qed
qed simp

lemma diff_larger: "A - B = A' - B \<Longrightarrow> B \<subseteq> C \<Longrightarrow> A - C = A' - C"
  by blast

lemma reclaim_entries_outside:
  assumes "reclaim_entries mx keep raw rs ds m = Inr m'" and "map_inv keep m" and "(\<Union>r\<in>set rs. cov r) \<subseteq> R"
  shows "map_inv keep m' \<and> (\<forall>t. mem_of m' t - R = mem_of m t - R)"
  using assms
proof (induction rs arbitrary: m)
  case (Cons r rs)
  obtain m1 where e: "reclaim_entry mx keep raw r ds m = Inr m1"
    and rest: "reclaim_entries mx keep raw rs ds m1 = Inr m'" using Cons.prems(1) by auto
  note o = reclaim_entry_outside [OF e Cons.prems(2)]
  have sub: "cov r \<subseteq> R" "(\<Union>r\<in>set rs. cov r) \<subseteq> R" using Cons.prems(3) by auto
  have "mem_of m1 t - cov r = mem_of m t - cov r" for t using o by simp
  then have "mem_of m1 t - R = mem_of m t - R" for t using sub(1) by (rule diff_larger)
  then show ?case using Cons.IH [OF rest] o sub(2) by simp
qed simp

text \<open>
  C12. Reclaiming the memory of UEFI by its final map only ever changes memory that was
  EFI-reclaimable before: outside it every type keeps exactly the memory it had, whatever
  descriptors the firmware reports, and the map is well formed again afterwards.
\<close>

theorem reclaim_changes_only_efi:
  assumes "pmm_reclaim_uefi_mem mx keep descs m raw = Inr m'" and "map_inv keep m"
  shows "map_inv keep m' \<and>
    (\<forall>t. mem_of m' t - mem_of m MEMMAP_EFI_RECLAIMABLE = mem_of m t - mem_of m MEMMAP_EFI_RECLAIMABLE)"
proof -
  let ?rs = "filter (\<lambda>e. me_type e = MEMMAP_EFI_RECLAIMABLE) m"
  obtain m1 where e: "reclaim_entries mx keep raw ?rs descs m = Inr m1"
    and sa: "pmm_sanitise_entries mx keep m1 False = Inr m'"
    using assms(1) by (auto simp: pmm_reclaim_uefi_mem_def Let_def split: if_splits)
  have "(\<Union>r\<in>set ?rs. cov r) \<subseteq> mem_of m MEMMAP_EFI_RECLAIMABLE"
    by (auto simp: mem_of_def typed_def memmap_types)
  note o = reclaim_entries_outside [OF e assms(2) this]
  then have ok: "all_ok m1" using map_inv_ok by blast
  have "mem_of m' t = mem_of m1 t" for t
    using sanitise_mem_of [OF sa ok] o by (simp add: clip_usable_id map_inv_def)
  then show ?thesis using o sanitise_inv [OF sa ok] by simp
qed

theorem reclaim_changes_only_efi_witness:
  "let m = [\<lparr>me_base = 0x5000, me_length = 0x3000, me_type = MEMMAP_EFI_RECLAIMABLE\<rparr>];
       d = [\<lparr>Type = EfiBootServicesData, PhysicalStart = 0x6000, NumberOfPages = 1\<rparr>]
   in map_inv False m \<and> (\<exists>m'. pmm_reclaim_uefi_mem 8 False d m False = Inr m' \<and> map_inv False m')"
proof -
  let ?m = "[\<lparr>me_base = 0x5000, me_length = 0x3000, me_type = MEMMAP_EFI_RECLAIMABLE\<rparr>]"
  let ?d = "[\<lparr>Type = EfiBootServicesData, PhysicalStart = 0x6000, NumberOfPages = 1\<rparr>]"
  have inv: "map_inv False ?m"
    by (auto simp: map_inv_def memmap_wf_def all_ok_def usable_apart_def mem_of_def typed_def memmap_types extent)
  have "\<exists>m'. pmm_reclaim_uefi_mem 8 False ?d ?m False = Inr m'"
    by (simp add: pmm_reclaim_uefi_mem_def reclaim_clip_def model_eval cong: let_weak_cong)
  then show ?thesis using reclaim_changes_only_efi [OF _ inv] inv unfolding Let_def by blast
qed

section \<open>Setting up on BIOS\<close>

lemma reserved_type: "MEMMAP_BOOTLOADER_RECLAIMABLE \<noteq> MEMMAP_USABLE"
  by (simp add: memmap_types)

text \<open>
  The E820 entries the copy treats as meant: no usable entry spans the EBDA and 1MiB, and none
  is empty at 1MiB (where the length would wrap around).
\<close>

definition e820_sane :: "u64 \<Rightarrow> memmap_entry \<Rightarrow> bool" where
  "e820_sane ebda e \<longleftrightarrow> (me_type e = MEMMAP_USABLE \<longrightarrow>
     \<not> (lo e < unat ebda \<and> 0x100000 < hi e) \<and> \<not> (lo e = 0x100000 \<and> hi e = 0x100000))"

lemma e820_entry_None:
  assumes "e820_entry ebda e = None" and "entry_ok e"
  shows "me_type e = MEMMAP_USABLE" and "cov e \<subseteq> {unat ebda..<0x100000}"
  using assms unat_entry_top [OF assms(2)]
  by (auto simp: e820_entry_def entry_top word_nat lo_def cov_def Let_def split: if_splits)

lemma e820_entry_Some:
  assumes run: "e820_entry ebda e = Some f" and sane: "e820_sane ebda e" and eb: "unat ebda \<le> 0x100000"
  shows "entry_ok e" and "entry_ok f" and "me_type f = me_type e"
    and "cov f = (if me_type e = MEMMAP_USABLE then cov e - {unat ebda..<0x100000} else cov e)"
proof -
  show ok: "entry_ok e" using run by (auto simp: e820_entry_def entry_top split: if_splits)
  let ?t = "me_base e + me_length e"
  have ut: "unat ?t = hi e" "unat (me_base e) = lo e" using ok by (simp_all add: unat_entry_top lo_def)
  have "entry_ok f \<and> me_type f = me_type e \<and>
    cov f = (if me_type e = MEMMAP_USABLE then cov e - {unat ebda..<0x100000} else cov e)"
  proof (cases "me_type e = MEMMAP_USABLE")
    case False
    then have "f = e" using run ok by (simp add: e820_entry_def entry_top)
    then show ?thesis using ok False by simp
  next
    case us: True
    have "\<not> (unat ebda \<le> lo e \<and> lo e < 0x100000 \<and> hi e \<le> 0x100000)"
      using run us ok ut by (simp add: e820_entry_def entry_top word_nat split: if_splits)
    moreover have "\<not> (lo e < unat ebda \<and> 0x100000 < hi e)" "\<not> (lo e = 0x100000 \<and> hi e = 0x100000)"
      using sane us by (simp_all add: e820_sane_def)
    moreover note eb lo_le_hi [of e]
    ultimately consider (above) "unat ebda \<le> lo e" "lo e < 0x100000" "0x100000 < hi e"
      | (below) "lo e < unat ebda" "unat ebda < hi e" "hi e \<le> 0x100000"
      | (out) "hi e \<le> unat ebda \<or> 0x100000 \<le> lo e" "\<not> (unat ebda < hi e \<and> hi e \<le> 0x100000)"
      by arith
    then show ?thesis
    proof cases
      case above
      then have "f = e\<lparr>me_length := me_length e - (0x100000 - me_base e), me_base := 0x100000\<rparr>"
        using run ok us ut by (simp add: e820_entry_def entry_top word_nat Let_def)
      also have "\<dots> = cut_entry e 0x100000 ?t" by (cases e) (simp add: cut_entry_def)
      finally have f: "f = cut_entry e 0x100000 ?t" .
      show ?thesis using cut_entry_extent [of "0x100000" ?t e] above us ut unfolding f by (auto simp: cov_def)
    next
      case below
      then have f: "f = cut_entry e (me_base e) ebda"
        using run ok us ut by (simp add: e820_entry_def entry_top word_nat Let_def cut_entry_def)
      show ?thesis using cut_entry_extent [of "me_base e" ebda e] below us ut unfolding f by (auto simp: cov_def)
    next
      case out
      then have "f = e"
        using run ok us ut eb by (auto simp: e820_entry_def entry_top word_nat Let_def split: if_splits)
      then show ?thesis using ok us out eb by (auto simp: cov_def)
    qed
  qed
  then show "entry_ok f" "me_type f = me_type e"
    "cov f = (if me_type e = MEMMAP_USABLE then cov e - {unat ebda..<0x100000} else cov e)" by auto
qed

lemma e820_copy_Inr:
  "e820_copy mx ebda es m = Inr m' \<Longrightarrow> m' = m @ List.map_filter (e820_entry ebda) es"
  by (induction mx ebda es m rule: e820_copy.induct)
    (auto simp: List.map_filter_simps split: if_splits option.splits)

text \<open>The denotation of the copied table.\<close>

lemma e820_copied:
  assumes sane: "\<forall>e\<in>set es. e820_sane ebda e" and eb: "unat ebda \<le> 0x100000"
  defines "m \<equiv> List.map_filter (e820_entry ebda) es" and "hole \<equiv> {unat ebda..<0x100000}"
  shows "all_ok m"
    and "mem_of m t = (if t = MEMMAP_USABLE then mem_of (filter entry_ok es) t - hole else mem_of (filter entry_ok es) t)"
proof -
  have mem: "f \<in> set m \<longleftrightarrow> (\<exists>e\<in>set es. e820_entry ebda e = Some f)" for f
    by (auto simp: m_def List.map_filter_def image_iff)
  note Some = e820_entry_Some [OF _ _ eb]
  show "all_ok m" using Some(2) sane by (auto simp: all_ok_def list_all_iff mem)
  have ty: "typed (set m) t = (if t = MEMMAP_USABLE then typed (set (filter entry_ok es)) t - hole
      else typed (set (filter entry_ok es)) t)" for t
  proof (rule set_eqI)
    fix x
    show "x \<in> typed (set m) t \<longleftrightarrow> x \<in> (if t = MEMMAP_USABLE then typed (set (filter entry_ok es)) t - hole
      else typed (set (filter entry_ok es)) t)"
    proof
      assume "x \<in> typed (set m) t"
      then obtain e f where "e \<in> set es" "e820_entry ebda e = Some f" "me_type f = t" "x \<in> cov f"
        by (auto simp: typed_def mem)
      then show "x \<in> (if t = MEMMAP_USABLE then typed (set (filter entry_ok es)) t - hole
          else typed (set (filter entry_ok es)) t)"
        using Some [of e f] sane by (auto simp: typed_def hole_def split: if_splits)
    next
      assume x: "x \<in> (if t = MEMMAP_USABLE then typed (set (filter entry_ok es)) t - hole
          else typed (set (filter entry_ok es)) t)"
      then obtain e where e: "e \<in> set es" "entry_ok e" "me_type e = t" "x \<in> cov e"
        by (auto simp: typed_def split: if_splits)
      have nh: "t = MEMMAP_USABLE \<Longrightarrow> x \<notin> hole" using x by simp
      obtain f where f: "e820_entry ebda e = Some f"
        using e820_entry_None [of ebda e] e nh by (cases "e820_entry ebda e") (auto simp: hole_def)
      then show "x \<in> typed (set m) t"
        using Some [OF f] sane e nh mem [of f] by (auto simp: typed_def hole_def split: if_splits)
    qed
  qed
  have "claimed (set m) = claimed (set (filter entry_ok es))" by (simp add: claimed_typed ty)
  then show "mem_of m t = (if t = MEMMAP_USABLE then mem_of (filter entry_ok es) t - hole
      else mem_of (filter entry_ok es) t)"
    unfolding mem_of_def ty by auto
qed

lemma sanitise_map_Inr:
  assumes "sanitise_map s False = Inr s'" and "all_ok (memmap s)" and "4096 dvd unat (conv_base s)"
  shows "pmm_inv s'" and "mem_types s' t = clip_usable (pmm_sanitiser_keep_first_page s) (mem_types s) t"
    and "same_setup s s'" and "phys s' = phys s" and "conv_base s' = conv_base s"
proof -
  obtain m where m: "pmm_sanitise_entries (memmap_max_entries s) (pmm_sanitiser_keep_first_page s) (memmap s) False = Inr m"
    and s': "s' = s\<lparr>memmap := m\<rparr>" using assms(1) by (auto simp: sanitise_map_def)
  show "pmm_inv s'" using sanitise_inv [OF m assms(2)] assms(3) by (simp add: pmm_inv_def s')
  show "mem_types s' t = clip_usable (pmm_sanitiser_keep_first_page s) (mem_types s) t"
    using sanitise_mem_of [OF m assms(2)] by (simp add: mem_types_def s')
qed (use assms(1) in \<open>auto simp: sanitise_map_def same_setup_def\<close>)



end
