(* ===== verification/Libc_String.thy ===== *)
theory Libc_String
  imports Limine_Prelude "HOL-Library.List_Lexorder"
begin

text \<open>
  The character and string functions of \<^verbatim>\<open>common/lib/libc.s2.c\<close> and
  \<^verbatim>\<open>common/lib/libc.c\<close>, and the number parsers of
  \<^verbatim>\<open>common/lib/misc.s2.c\<close>. A \<^verbatim>\<open>const char *\<close> is the list of the bytes
  from where it points to the end of the object it points into, so that advancing it is
  taking the tail, and a function that reads past the end of the object has the value
  \<^term>\<open>None\<close>.
\<close>

type_synonym cptr = "u8 list"

abbreviation ch :: "char \<Rightarrow> u8" where
  "ch c \<equiv> of_char c"

abbreviation chars :: "string \<Rightarrow> u8 list" where
  "chars s \<equiv> map of_char s"

definition rd :: "cptr \<Rightarrow> nat \<Rightarrow> u8 option" where
  "rd p i = (if i < length p then Some (p ! i) else None)"

text \<open>The string at a pointer, without its terminator, and that it has one.\<close>

definition cstr :: "cptr \<Rightarrow> u8 list" where
  "cstr p = takeWhile (\<lambda>c. c \<noteq> 0) p"

definition terminated :: "cptr \<Rightarrow> bool" where
  "terminated p \<longleftrightarrow> 0 \<in> set p"

section \<open>Characters\<close>

definition isprint :: "int \<Rightarrow> bool" where
  "isprint c \<longleftrightarrow> c \<ge> 0x20 \<and> c \<le> 0x7E"

definition isspace :: "int \<Rightarrow> bool" where
  "isspace c \<longleftrightarrow> (c \<ge> 9 \<and> c \<le> 0xD) \<or> c = 0x20"

definition isalpha :: "int \<Rightarrow> bool" where
  "isalpha c \<longleftrightarrow> (c \<ge> 0x61 \<and> c \<le> 0x7A) \<or> (c \<ge> 0x41 \<and> c \<le> 0x5A)"

definition isdigit :: "int \<Rightarrow> bool" where
  "isdigit c \<longleftrightarrow> c \<ge> 0x30 \<and> c \<le> 0x39"

definition toupper :: "int \<Rightarrow> int" where
  "toupper c = (if c \<ge> 0x61 \<and> c \<le> 0x7A then c - 0x20 else c)"

definition tolower :: "int \<Rightarrow> int" where
  "tolower c = (if c \<ge> 0x41 \<and> c \<le> 0x5A then c + 0x20 else c)"

definition UINT_MAX :: nat where "UINT_MAX = 2 ^ 32 - 1"

definition digit_value :: "int \<Rightarrow> nat" where
  "digit_value c =
     (if isdigit c then nat (c - 0x30)
      else if isalpha c then nat (tolower c - 0x61 + 10)
      else UINT_MAX)"

text \<open>
  The argument is a \<^verbatim>\<open>char\<close>, signed or not depending on the target; bytes from 128 on
  are no digit either way.
\<close>

definition digit_to_int :: "u8 \<Rightarrow> int" where
  "digit_to_int c =
     (if c \<ge> ch CHR ''a'' \<and> c \<le> ch CHR ''f'' then uint c - 0x61 + 10
      else if c \<ge> ch CHR ''A'' \<and> c \<le> ch CHR ''F'' then uint c - 0x41 + 10
      else if c \<ge> ch CHR ''0'' \<and> c \<le> ch CHR ''9'' then uint c - 0x30
      else -1)"

definition bcd_to_int :: "u8 \<Rightarrow> u8" where
  "bcd_to_int val = and val 0x0f + drop_bit 4 (and val 0xf0) * 10"

definition int_to_bcd :: "u8 \<Rightarrow> u8" where
  "int_to_bcd val = or (val mod 10) (push_bit 4 (val div 10))"

section \<open>Copying and measuring\<close>

fun strlen :: "cptr \<Rightarrow> nat option" where
  "strlen [] = None"
| "strlen (c # p) = (if c = 0 then Some 0 else map_option Suc (strlen p))"

fun strnlen :: "cptr \<Rightarrow> nat \<Rightarrow> nat option" where
  "strnlen p 0 = Some 0"
| "strnlen [] (Suc n) = None"
| "strnlen (c # p) (Suc n) = (if c = 0 then Some 0 else map_option Suc (strnlen p n))"

text \<open>
  A destination is the list of its bytes. Writing past its end is \<^term>\<open>None\<close> as well.
\<close>

fun strcpy :: "u8 list \<Rightarrow> cptr \<Rightarrow> u8 list option" where
  "strcpy [] src = None"
| "strcpy dest [] = None"
| "strcpy (d # dest) (c # src) =
     (if c = 0 then Some (0 # dest) else map_option ((#) c) (strcpy dest src))"

fun strncpy :: "u8 list \<Rightarrow> cptr \<Rightarrow> nat \<Rightarrow> u8 list option" where
  "strncpy dest src 0 = Some dest"
| "strncpy [] src (Suc n) = None"
| "strncpy (d # dest) [] (Suc n) = None"
| "strncpy (d # dest) (c # src) (Suc n) =
     (if c = 0 then if n \<le> length dest then Some (replicate (Suc n) 0 @ drop n dest) else None
      else map_option ((#) c) (strncpy dest src n))"

text \<open>
  \<^verbatim>\<open>strchr\<close> and \<^verbatim>\<open>strrchr\<close> return a pointer into the string or
  \<^verbatim>\<open>NULL\<close>, the inner \<^term>\<open>None\<close>.
\<close>

fun strchr :: "cptr \<Rightarrow> u8 \<Rightarrow> cptr option option" where
  "strchr [] x = None"
| "strchr (c # p) x = (if c = x then Some (Some (c # p)) else if c = 0 then Some None else strchr p x)"

fun strrchr_loop :: "cptr \<Rightarrow> u8 \<Rightarrow> cptr option \<Rightarrow> cptr option option" where
  "strrchr_loop [] x q = None"
| "strrchr_loop (c # p) x q =
     (let q' = (if c = x then Some (c # p) else q) in
      if c = 0 then Some q' else strrchr_loop p x q')"

definition strrchr :: "cptr \<Rightarrow> u8 \<Rightarrow> cptr option option" where
  "strrchr p x = strrchr_loop p x None"

section \<open>Comparing\<close>

fun strcmp :: "cptr \<Rightarrow> cptr \<Rightarrow> int option" where
  "strcmp (a # p) (b # q) =
     (if a \<noteq> b then Some (if a < b then -1 else 1) else if a = 0 then Some 0 else strcmp p q)"
| "strcmp p q = None"

fun strcasecmp :: "cptr \<Rightarrow> cptr \<Rightarrow> int option" where
  "strcasecmp (a # p) (b # q) =
     (if tolower (uint a) \<noteq> tolower (uint b)
      then Some (if tolower (uint a) < tolower (uint b) then -1 else 1)
      else if a = 0 then Some 0 else strcasecmp p q)"
| "strcasecmp p q = None"

fun strncmp :: "cptr \<Rightarrow> cptr \<Rightarrow> nat \<Rightarrow> int option" where
  "strncmp p q 0 = Some 0"
| "strncmp (a # p) (b # q) (Suc n) =
     (if a \<noteq> b then Some (if a < b then -1 else 1) else if a = 0 then Some 0 else strncmp p q n)"
| "strncmp p q (Suc n) = None"

fun strncasecmp :: "cptr \<Rightarrow> cptr \<Rightarrow> nat \<Rightarrow> int option" where
  "strncasecmp p q 0 = Some 0"
| "strncasecmp (a # p) (b # q) (Suc n) =
     (if tolower (uint a) \<noteq> tolower (uint b)
      then Some (if tolower (uint a) < tolower (uint b) then -1 else 1)
      else if a = 0 then Some 0 else strncasecmp p q n)"
| "strncasecmp p q (Suc n) = None"

section \<open>Parsing numbers\<close>

fun skip_space :: "cptr \<Rightarrow> cptr option" where
  "skip_space [] = None"
| "skip_space (c # p) = (if isspace (uint c) then skip_space p else Some (c # p))"

definition skip_sign :: "cptr \<Rightarrow> (bool \<times> cptr) option" where
  "skip_sign p = Option.bind (rd p 0) (\<lambda>c.
     if c = ch CHR ''+'' \<or> c = ch CHR ''-'' then Some (c = ch CHR ''-'', tl p) else Some (False, p))"

text \<open>The test for a hexadecimal prefix reads the next byte only while the ones before match.\<close>

definition hex_prefix :: "cptr \<Rightarrow> bool option" where
  "hex_prefix p = Option.bind (rd p 0) (\<lambda>a.
     if a \<noteq> ch CHR ''0'' then Some False
     else Option.bind (rd p 1) (\<lambda>b.
       if b \<noteq> ch CHR ''x'' \<and> b \<noteq> ch CHR ''X'' then Some False
       else Option.bind (rd p 2) (\<lambda>c. Some (digit_value (uint c) < 16))))"

definition pick_base :: "int \<Rightarrow> cptr \<Rightarrow> (int \<times> cptr) option" where
  "pick_base base p =
     (if base = 0 \<or> base = 16 then
        Option.bind (hex_prefix p) (\<lambda>hex.
          if hex then Some (16, drop 2 p)
          else if base = 0 then Option.bind (rd p 0) (\<lambda>c. Some (if c = ch CHR ''0'' then 8 else 10, p))
          else Some (base, p))
      else Some (base, p))"

text \<open>
  \<^verbatim>\<open>unsigned long\<close> has the width of a pointer of the target, a parameter here. After an
  overflow the loop goes on with the wrapped value.
\<close>

fun strtoul_loop :: "cptr \<Rightarrow> 'l::len word \<Rightarrow> 'l word \<Rightarrow> bool \<Rightarrow> ('l word \<times> bool \<times> cptr) option" where
  "strtoul_loop [] radix value overflow = None"
| "strtoul_loop (c # p) radix value overflow =
     (let digit = digit_value (uint c) in
      if digit < unat radix then
        strtoul_loop p radix (value * radix + of_nat digit)
          (overflow \<or> CHECKED_MUL value radix = None \<or> CHECKED_ADD (value * radix) (of_nat digit) = None)
      else Some (value, overflow, c # p))"

definition strtoul :: "cptr \<Rightarrow> int \<Rightarrow> ('l::len word \<times> cptr) option" where
  "strtoul str base =
     (if base \<noteq> 0 \<and> (base < 2 \<or> base > 36) then Some (0, str)
      else
        Option.bind (skip_space str) (\<lambda>p.
        Option.bind (skip_sign p) (\<lambda>(negative, p).
        Option.bind (pick_base base p) (\<lambda>(base, digits).
        Option.bind (strtoul_loop digits (of_int base) 0 False) (\<lambda>(value, overflow, p).
          Some (if overflow then - 1 else if negative then - value else value,
                if p = digits then str else p))))))"

fun strtoui_loop :: "cptr \<Rightarrow> int \<Rightarrow> u64 \<Rightarrow> (u64 \<times> cptr) option" where
  "strtoui_loop [] base n = None"
| "strtoui_loop (c # s) base n =
     (let d = digit_to_int c in
      if d = -1 \<or> d \<ge> base then Some (n, c # s)
      else case CHECKED_MUL n (of_int base) of
        None \<Rightarrow> Some (- 1, c # s)
      | Some mul_result \<Rightarrow>
          (case CHECKED_ADD mul_result (of_int d) of
             None \<Rightarrow> Some (- 1, c # s)
           | Some n' \<Rightarrow> strtoui_loop s base n'))"

definition strtoui :: "cptr \<Rightarrow> int \<Rightarrow> (u64 \<times> cptr) option" where
  "strtoui s base = strtoui_loop s base 0"

text \<open>
  \<^verbatim>\<open>inet_pton\<close> stores the four octets in a local array and copies them only at the
  end; its result is \<^term>\<open>Some None\<close> for the return value -1.
\<close>

fun octets_loop :: "nat \<Rightarrow> cptr \<Rightarrow> u8 list \<Rightarrow> u8 list option option" where
  "octets_loop 0 current arr = Some (Some arr)"
| "octets_loop (Suc n) current arr =
     Option.bind (strtoui current 10) (\<lambda>(val, newcur).
       if current = newcur then Some None
       else Option.bind (rd newcur 0) (\<lambda>c.
         if (if n > 0 then c \<noteq> ch CHR ''.'' else c \<noteq> 0) then Some None
         else if val > 255 then Some None
         else octets_loop n (if n > 0 then tl newcur else newcur) (arr @ [ucast val])))"

definition inet_pton :: "cptr \<Rightarrow> u8 list option option" where
  "inet_pton src = octets_loop 4 src []"

section \<open>Strings that end\<close>

named_theorems cstr_simps \<open>C strings, byte by byte\<close>

lemma cstr_Cons [cstr_simps]: "cstr (c # p) = (if c = 0 then [] else c # cstr p)"
  by (simp add: cstr_def)

lemma terminated_Cons [cstr_simps]: "terminated (c # p) \<longleftrightarrow> c = 0 \<or> terminated p"
  by (auto simp: terminated_def)

lemma not_terminated_Nil [cstr_simps]: "\<not> terminated []"
  by (simp add: terminated_def)

lemma cstr_Nil [cstr_simps]: "cstr [] = []"
  by (simp add: cstr_def)

lemma terminated_appendD:
  "terminated (xs @ ys) \<Longrightarrow> (\<And>x. x \<in> set xs \<Longrightarrow> x \<noteq> 0) \<Longrightarrow> terminated ys"
  by (auto simp: terminated_def)

lemma terminated_dropWhile:
  assumes "terminated p" and "\<not> P 0"
  shows "terminated (dropWhile P p)" and "dropWhile P p \<noteq> []" and "\<not> P (hd (dropWhile P p))"
proof -
  have "0 \<in> set (takeWhile P p @ dropWhile P p)" using assms(1) by (simp add: terminated_def)
  moreover have "0 \<notin> set (takeWhile P p)" using assms(2) set_takeWhileD by fastforce
  ultimately show t: "terminated (dropWhile P p)" unfolding terminated_def set_append by blast
  then show ne: "dropWhile P p \<noteq> []" by (metis not_terminated_Nil)
  show "\<not> P (hd (dropWhile P p))" using hd_dropWhile [OF ne] .
qed

lemma strlen_eq: "terminated p \<Longrightarrow> strlen p = Some (length (cstr p))"
  by (induction p) (auto simp: cstr_simps)

lemma strnlen_eq: "terminated p \<or> n \<le> length p \<Longrightarrow> strnlen p n = Some (min n (length (cstr p)))"
  by (induction p n rule: strnlen.induct) (auto simp: cstr_simps)

lemma strcpy_eq:
  "terminated src \<Longrightarrow> length (cstr src) < length dest \<Longrightarrow>
     strcpy dest src = Some (cstr src @ 0 # drop (Suc (length (cstr src))) dest)"
  by (induction dest src rule: strcpy.induct) (auto simp: cstr_simps)

lemma strchr_eq:
  "terminated p \<Longrightarrow> strchr p x =
     Some (if x = 0 \<or> x \<in> set (cstr p) then Some (dropWhile (\<lambda>c. c \<noteq> x) p) else None)"
  by (induction p) (auto simp: cstr_simps)

section \<open>Comparison is the lexicographic order\<close>

definition order_sign :: "'a::linorder list \<Rightarrow> 'a list \<Rightarrow> int" where
  "order_sign xs ys = (if xs < ys then -1 else if xs = ys then 0 else 1)"

abbreviation folded :: "u8 list \<Rightarrow> int list" where
  "folded \<equiv> map (\<lambda>c. tolower (uint c))"

lemma order_sign_simps [simp]:
  "order_sign [] [] = 0"
  "order_sign [] (y # ys) = -1"
  "order_sign (x # xs) [] = 1"
  "order_sign (x # xs) (y # ys) = (if x = y then order_sign xs ys else if x < y then -1 else 1)"
  by (auto simp: order_sign_def)

lemma tolower_byte:
  "tolower (uint (c::u8)) = 0 \<longleftrightarrow> c = 0" "0 \<le> tolower (uint (c::u8))"
  by (auto simp: tolower_def unsigned_eq_0_iff)

lemma byte_pos: "(0::u8) < c \<longleftrightarrow> c \<noteq> 0" "\<not> c < (0::u8)"
  by (auto simp: word_gt_0)

lemma strcmp_eq: "terminated p \<Longrightarrow> terminated q \<Longrightarrow> strcmp p q = Some (order_sign (cstr p) (cstr q))"
  by (induction p q rule: strcmp.induct) (auto simp: cstr_simps byte_pos)

lemma strncmp_eq:
  "terminated p \<Longrightarrow> terminated q \<Longrightarrow>
     strncmp p q n = Some (order_sign (take n (cstr p)) (take n (cstr q)))"
  by (induction p q n rule: strncmp.induct) (auto simp: cstr_simps byte_pos)

lemma fold_less_0:
  "tolower (uint (c::u8)) = tolower 0 \<longleftrightarrow> c = 0" "tolower 0 = tolower (uint (c::u8)) \<longleftrightarrow> c = 0"
  "tolower 0 < tolower (uint (c::u8)) \<longleftrightarrow> c \<noteq> 0" "\<not> tolower (uint (c::u8)) < tolower 0"
proof -
  have "tolower 0 = 0" by (simp add: tolower_def)
  then show "tolower (uint c) = tolower 0 \<longleftrightarrow> c = 0" "tolower 0 = tolower (uint c) \<longleftrightarrow> c = 0"
    "tolower 0 < tolower (uint c) \<longleftrightarrow> c \<noteq> 0" "\<not> tolower (uint c) < tolower 0"
    using tolower_byte [of c] by auto
qed

lemma strcasecmp_eq:
  "terminated p \<Longrightarrow> terminated q \<Longrightarrow> strcasecmp p q = Some (order_sign (folded (cstr p)) (folded (cstr q)))"
  by (induction p q rule: strcasecmp.induct) (auto simp: cstr_simps fold_less_0)

lemma strncasecmp_eq:
  "terminated p \<Longrightarrow> terminated q \<Longrightarrow>
     strncasecmp p q n = Some (order_sign (take n (folded (cstr p))) (take n (folded (cstr q))))"
  by (induction p q n rule: strncasecmp.induct) (auto simp: cstr_simps fold_less_0)

text \<open>
  C23. On strings that end, the four comparison functions read nothing past the terminators,
  and return the sign of the lexicographic order of the strings, of their prefixes for the
  bounded ones, and of the strings with the case folded for the case-insensitive ones.
\<close>

theorem string_comparison:
  assumes "terminated p" and "terminated q"
  shows "strcmp p q = Some (order_sign (cstr p) (cstr q))
    \<and> strncmp p q n = Some (order_sign (take n (cstr p)) (take n (cstr q)))
    \<and> strcasecmp p q = Some (order_sign (folded (cstr p)) (folded (cstr q)))
    \<and> strncasecmp p q n = Some (order_sign (take n (folded (cstr p))) (take n (folded (cstr q))))"
  using assms by (simp add: strcmp_eq strncmp_eq strcasecmp_eq strncasecmp_eq)

theorem string_comparison_witness:
  "strcasecmp (chars ''Ab'' @ [0]) (chars ''aB'' @ [0, 7]) = Some 0
   \<and> strncmp (chars ''abc'' @ [0]) (chars ''abd'' @ [0]) 2 = Some 0"
  using string_comparison [of "chars ''Ab'' @ [0]" "chars ''aB'' @ [0, 7]" 0]
    string_comparison [of "chars ''abc'' @ [0]" "chars ''abd'' @ [0]" 2]
  by (simp add: cstr_simps tolower_def)

section \<open>What strtoul converts\<close>

text \<open>The value of a sequence of digits, continuing from \<open>m\<close>.\<close>

definition digits_value :: "nat \<Rightarrow> nat \<Rightarrow> u8 list \<Rightarrow> nat" where
  "digits_value radix m ds = foldl (\<lambda>n c. n * radix + digit_value (uint c)) m ds"

definition is_digit :: "nat \<Rightarrow> u8 \<Rightarrow> bool" where
  "is_digit radix c \<longleftrightarrow> digit_value (uint c) < radix"

lemma digits_value_simps [simp]:
  "digits_value radix m [] = m"
  "digits_value radix m (c # ds) = digits_value radix (m * radix + digit_value (uint c)) ds"
  by (simp_all add: digits_value_def)

lemma digits_value_le: "0 < radix \<Longrightarrow> m \<le> digits_value radix m ds"
proof (induction ds arbitrary: m)
  case (Cons c ds)
  have "m \<le> m * radix + digit_value (uint c)" using Cons.prems by (cases radix) auto
  also have "\<dots> \<le> digits_value radix \<dots> ds" using Cons by blast
  finally show ?case by simp
qed simp

lemma digit_value_NUL: "digit_value 0 = UINT_MAX"
  by (simp add: digit_value_def isdigit_def isalpha_def)

lemma not_digit_NUL: "radix \<le> 36 \<Longrightarrow> \<not> is_digit radix 0"
  by (simp add: is_digit_def digit_value_NUL UINT_MAX_def)

lemma strtoul_loop_eq:
  fixes radix val :: "'l::len word"
  assumes "terminated p" and "unat radix \<le> 36" and "val = of_nat m" and "ov \<longleftrightarrow> 2 ^ LENGTH('l) \<le> m"
    and "0 < unat radix"
  shows "strtoul_loop p radix val ov =
    (let n = digits_value (unat radix) m (takeWhile (is_digit (unat radix)) p) in
     Some (of_nat n, 2 ^ LENGTH('l) \<le> n, dropWhile (is_digit (unat radix)) p))"
  using assms(1,3,4)
proof (induction p arbitrary: val ov m)
  case (Cons c p)
  let ?d = "digit_value (uint c)" and ?r = "unat radix"
  let ?m = "m * ?r + ?d"
  show ?case
  proof (cases "is_digit ?r c")
    case True
    then have d: "?d < ?r" by (simp add: is_digit_def)
    then have ud: "unat (of_nat ?d :: 'l word) = ?d"
      by (metis of_nat_inverse less_trans unat_bound)
    have t: "terminated p" using Cons.prems(1) True not_digit_NUL [OF assms(2)] by (auto simp: cstr_simps)
    have v: "val * radix + of_nat ?d = of_nat ?m" using Cons.prems(2) by simp
    have "(ov \<or> CHECKED_MUL val radix = None \<or> CHECKED_ADD (val * radix) (of_nat ?d) = None)
      \<longleftrightarrow> 2 ^ LENGTH('l) \<le> ?m"
    proof (cases ov)
      case True
      then have "2 ^ LENGTH('l) \<le> m" using Cons.prems(3) by blast
      moreover have "m \<le> m * ?r" using assms(5) by simp
      ultimately show ?thesis using True by linarith
    next
      case False
      then have m: "unat val = m" using Cons.prems(2,3) by (simp add: of_nat_inverse)
      show ?thesis
      proof (cases "m * ?r < 2 ^ LENGTH('l)")
        case True
        then have "unat (val * radix) = m * ?r" using m by (simp add: unat_mult_exact)
        then show ?thesis using False True m ud by (auto simp: CHECKED_MUL_def CHECKED_ADD_def)
      qed (use m in \<open>simp add: CHECKED_MUL_def\<close>)
    qed
    then show ?thesis using Cons.IH [OF t v [symmetric, THEN sym]] True d by (simp add: Let_def v)
  next
    case False
    then show ?thesis using Cons.prems by (simp add: is_digit_def)
  qed
qed (simp add: cstr_simps)

lemma skip_space_eq: "terminated p \<Longrightarrow> skip_space p = Some (dropWhile (\<lambda>c. isspace (uint c)) p)"
  by (induction p) (auto simp: cstr_simps isspace_def)

text \<open>
  What \<^verbatim>\<open>strtoul\<close> should do, from the C standard: skip white space, take a sign, settle the
  radix by the prefix, and convert the longest sequence of digits.
\<close>

definition unsigned_part :: "u8 list \<Rightarrow> u8 list" where
  "unsigned_part p = (if hd p = ch CHR ''+'' \<or> hd p = ch CHR ''-'' then tl p else p)"

definition has_hex_prefix :: "u8 list \<Rightarrow> bool" where
  "has_hex_prefix p \<longleftrightarrow> (\<exists>x c q. p = ch CHR ''0'' # x # c # q \<and> x \<in> {ch CHR ''x'', ch CHR ''X''} \<and> is_digit 16 c)"

definition subject :: "int \<Rightarrow> u8 list \<Rightarrow> nat \<times> u8 list" where
  "subject base p =
     (if base \<in> {0, 16} \<and> has_hex_prefix p then (16, drop 2 p)
      else (if base = 0 then if hd p = ch CHR ''0'' then 8 else 10 else nat base, p))"

definition strtoul_spec :: "cptr \<Rightarrow> int \<Rightarrow> 'l::len word \<times> cptr" where
  "strtoul_spec str base =
     (let p = dropWhile (\<lambda>c. isspace (uint c)) str;
          (radix, digits) = subject base (unsigned_part p);
          n = digits_value radix 0 (takeWhile (is_digit radix) digits)
      in (if 2 ^ LENGTH('l) \<le> n then - 1 else if hd p = ch CHR ''-'' then - of_nat n else of_nat n,
          if takeWhile (is_digit radix) digits = [] then str else dropWhile (is_digit radix) digits))"

lemma hex_prefix_eq: "terminated p \<Longrightarrow> hex_prefix p = Some (has_hex_prefix p)"
  by (cases p; cases "tl p"; cases "tl (tl p)")
    (auto simp: hex_prefix_def has_hex_prefix_def rd_def is_digit_def cstr_simps)

lemma has_hex_prefixD: "has_hex_prefix p \<Longrightarrow> terminated p \<Longrightarrow> terminated (drop 2 p)"
  by (auto simp: has_hex_prefix_def cstr_simps)

lemma pick_base_eq:
  assumes "terminated p" and "0 \<le> base"
  shows "pick_base base p = (case subject base p of (radix, digits) \<Rightarrow> Some (int radix, digits))"
proof -
  have "rd p 0 = Some (hd p)" using assms(1) by (cases p) (auto simp: rd_def cstr_simps)
  then show ?thesis using assms hex_prefix_eq [OF assms(1)] by (auto simp: pick_base_def subject_def)
qed

lemma subject_ok:
  assumes "subject base p = (radix, digits)" and "terminated p" and "base = 0 \<or> 2 \<le> base \<and> base \<le> 36"
  shows "terminated digits" and "2 \<le> radix" and "radix \<le> 36"
  using assms has_hex_prefixD by (auto simp: subject_def split: if_splits)

lemma skip_sign_eq:
  "terminated p \<Longrightarrow> skip_sign p = Some (hd p = ch CHR ''-'', unsigned_part p) \<and> terminated (unsigned_part p)"
  by (cases p) (auto simp: skip_sign_def unsigned_part_def rd_def cstr_simps)

lemma dropWhile_self_iff: "dropWhile P xs = xs \<longleftrightarrow> takeWhile P xs = []"
  using takeWhile_dropWhile_id [of P xs] by (metis append_self_conv2)

text \<open>
  C24. On a string that ends and for every base C allows, \<open>strtoul\<close> returns without reading
  past the terminator, and what it returns is the specified conversion: the exact value of the
  longest sequence of digits, negated modulo the width after a minus sign, the largest value
  when it does not fit, and the end of the digits, or the start of the string when there are
  none.
\<close>

theorem strtoul_correct:
  assumes "terminated str" and "base = 0 \<or> 2 \<le> base \<and> base \<le> 36" and "6 \<le> LENGTH('l::len)"
  shows "strtoul str base = Some (strtoul_spec str base :: 'l word \<times> cptr)"
proof -
  define p where "p = dropWhile (\<lambda>c. isspace (uint c)) str"
  have p: "terminated p" "skip_space str = Some p"
    using terminated_dropWhile(1) [OF assms(1)] skip_space_eq [OF assms(1)] by (simp_all add: p_def isspace_def)
  note sg = skip_sign_eq [OF p(1)]
  obtain radix digits where su: "subject base (unsigned_part p) = (radix, digits)" by (metis surj_pair)
  note ok = subject_ok [OF su conjunct2 [OF sg] assms(2)]
  have pb: "pick_base base (unsigned_part p) = Some (int radix, digits)"
    using pick_base_eq [OF conjunct2 [OF sg]] assms(2) su by auto
  have "(2::nat) ^ 6 \<le> 2 ^ LENGTH('l)" using assms(3) by (intro power_increasing) auto
  then have r: "unat (of_int (int radix) :: 'l word) = radix" using ok(3) by (simp add: of_nat_inverse)
  have "strtoul_loop digits (of_int (int radix) :: 'l word) 0 False =
    (let n = digits_value radix 0 (takeWhile (is_digit radix) digits) in
     Some (of_nat n, 2 ^ LENGTH('l) \<le> n, dropWhile (is_digit radix) digits))"
    using strtoul_loop_eq [of digits "of_int (int radix) :: 'l word" 0 0 False] ok r by simp
  then show ?thesis
    using assms(2) p(2) sg su pb
    by (auto simp: strtoul_def strtoul_spec_def Let_def dropWhile_self_iff simp flip: p_def)
qed

theorem strtoul_correct_witness:
  "strtoul (chars '' -0x1Fz'' @ [0]) 0 = Some (- 31 :: u64, chars ''z'' @ [0])"
proof -
  have "strtoul_spec (chars '' -0x1Fz'' @ [0]) 0 = (- 31 :: u64, chars ''z'' @ [0])"
    by (simp add: strtoul_spec_def subject_def unsigned_part_def has_hex_prefix_def is_digit_def
      digit_value_def isdigit_def isalpha_def tolower_def UINT_MAX_def isspace_def)
  moreover have "terminated (chars '' -0x1Fz'' @ [0])" by (simp add: terminated_def)
  ultimately show ?thesis
    using strtoul_correct [of "chars '' -0x1Fz'' @ [0]" 0, where ?'l = 64] by simp
qed

end
