(* ===== verification/Clock.thy ===== *)
theory Clock
  imports Libc_String "HOL-Library.Signed_Division"
begin

text \<open>
  The time of day as seconds since 1970, \<^verbatim>\<open>common/lib/time.c\<close>. Division in C truncates
  towards zero, which is \<open>sdiv\<close> on the integers. The clock is a parameter: the BIOS
  interrupt \<^verbatim>\<open>0x1a\<close> as a function of the value in \<^verbatim>\<open>eax\<close> that returns the carry
  flag, \<^verbatim>\<open>ecx\<close> and \<^verbatim>\<open>edx\<close>, and \<^verbatim>\<open>GetTime\<close> of the UEFI runtime services.
\<close>

definition get_jdn :: "int \<Rightarrow> int \<Rightarrow> int \<Rightarrow> int" where
  "get_jdn days months years =
     (1461 * (years + 4800 + (months - 14) sdiv 12)) sdiv 4 + (367 *
     (months - 2 - 12 * ((months - 14) sdiv 12))) sdiv 12 -
     (3 * ((years + 4900 + (months - 14) sdiv 12) sdiv 100)) sdiv 4
     + days - 32075"

definition get_unix_epoch :: "u8 \<Rightarrow> u8 \<Rightarrow> u8 \<Rightarrow> u8 \<Rightarrow> u8 \<Rightarrow> u16 \<Rightarrow> u64" where
  "get_unix_epoch seconds minutes hours days months years =
     (let jdn_current = get_jdn (uint days) (uint months) (uint years);
          jdn_1970 = get_jdn 1 1 1970;
          jdn_diff = jdn_current - jdn_1970;
          epoch = jdn_diff * (60 * 60 * 24) + uint hours * 3600 + uint minutes * 60 + uint seconds
      in if epoch < 0 then 0 else of_int epoch)"

text \<open>The bytes of a register: \<^verbatim>\<open>r & 0x00ff\<close> and \<^verbatim>\<open>(r & 0xff00) >> 8\<close>.\<close>

definition low_byte :: "u32 \<Rightarrow> u8" where
  "low_byte r = ucast (and r 0x00ff)"

definition high_byte :: "u32 \<Rightarrow> u8" where
  "high_byte r = ucast (drop_bit 8 (and r 0xff00))"

type_synonym 'fw rtc = "'fw \<Rightarrow> u32 \<Rightarrow> (bool \<times> u32 \<times> u32) \<times> 'fw"

text \<open>
  On BIOS the date is read again after the time of day, and all of it once more when the day
  has changed in between; on a clock that never settles the loop does not end.
\<close>

partial_function (option) time_bios :: "'fw rtc \<Rightarrow> 'fw \<Rightarrow> (u64 \<times> 'fw) option" where
  "time_bios rtc fw =
     (case rtc fw 0x0400 of ((cf, ecx, edx), fw) \<Rightarrow>
      if cf then Some (0, fw)
      else
        let day = bcd_to_int (low_byte edx);
            month = bcd_to_int (high_byte edx);
            year = ucast (bcd_to_int (low_byte ecx)) + ucast (bcd_to_int (high_byte ecx)) * 100
        in (case rtc fw 0x0200 of ((cf, ecx, edx), fw) \<Rightarrow>
            if cf then Some (0, fw)
            else
              let second = bcd_to_int (high_byte edx);
                  minute = bcd_to_int (low_byte ecx);
                  hour = bcd_to_int (high_byte ecx)
              in (case rtc fw 0x0400 of ((cf, ecx, edx), fw) \<Rightarrow>
                  if cf then Some (0, fw)
                  else if bcd_to_int (low_byte edx) \<noteq> day then time_bios rtc fw
                  else Some (get_unix_epoch second minute hour day month year, fw))))"

record efi_time =
  Year :: u16
  Month :: u8
  Day :: u8
  Hour :: u8
  Minute :: u8
  Second :: u8

definition time_uefi :: "('fw \<Rightarrow> efi_time option \<times> 'fw) \<Rightarrow> 'fw \<Rightarrow> u64 \<times> 'fw" where
  "time_uefi GetTime fw =
     (case GetTime fw of
        (None, fw) \<Rightarrow> (0, fw)
      | (Some t, fw) \<Rightarrow> (get_unix_epoch (Second t) (Minute t) (Hour t) (Day t) (Month t) (Year t), fw))"

section \<open>The calendar\<close>

definition leap :: "nat \<Rightarrow> bool" where
  "leap y \<longleftrightarrow> 4 dvd y \<and> (\<not> 100 dvd y \<or> 400 dvd y)"

fun month_days :: "nat \<Rightarrow> nat \<Rightarrow> nat" where
  "month_days y m = (if m = 2 then if leap y then 29 else 28 else if m \<in> {4, 6, 9, 11} then 30 else 31)"

definition year_days :: "nat \<Rightarrow> nat" where
  "year_days y = (if leap y then 366 else 365)"

text \<open>The number of days from 1 January 1970 to a date from then on, by counting.\<close>

definition days_since_1970 :: "nat \<Rightarrow> nat \<Rightarrow> nat \<Rightarrow> nat" where
  "days_since_1970 y m d = (\<Sum>k = 1970..<y. year_days k) + (\<Sum>k = 1..<m. month_days y k) + (d - 1)"

lemma sdiv_div: "0 \<le> a \<Longrightarrow> 0 < b \<Longrightarrow> a sdiv b = a div (b::int)"
  by (cases "a = 0") (auto simp: signed_divide_int_def)

lemma jdn_div:
  assumes "0 \<le> y" and "1 \<le> m" and "m \<le> 12"
  shows "get_jdn d m y =
    (let k = if m \<le> 2 then 1 else 0 in
     (1461 * (y + 4800 - k)) div 4 + (367 * (m - 2 + 12 * k)) div 12 - (3 * ((y + 4900 - k) div 100)) div 4 + d - 32075)"
proof -
  have "(m - 14) sdiv 12 = (if m \<le> 2 then -1 else 0)"
    using assms by (auto simp: signed_divide_int_def div_eq_minus1)
  then show ?thesis using assms by (auto simp: get_jdn_def Let_def sdiv_div)
qed

text \<open>
  The two terms for the years of the Gregorian calendar, for the year of the last 1 March:
  365 days a year, and a day more after each leap day.
\<close>

definition gregorian :: "int \<Rightarrow> int" where
  "gregorian t = 365 * t + t div 4 - t div 100 + t div 400"

lemma jdn_years:
  "(1461 * (t + 4800)) div 4 - (3 * ((t + 4900) div 100)) div 4 = gregorian t + 1753164"
proof -
  have a: "(1461 * (t + 4800)) div 4 = 365 * t + t div 4 + 1753200"
  proof -
    have "1461 * (t + 4800) = t + 4 * (365 * t + 1753200)" by simp
    then show ?thesis by (simp only: div_mult_self2)
  qed
  have "(t + 4900) div 100 = t div 100 + 49" by simp
  moreover have "(3 * (c + 49)) div 4 = c - c div 4 + 36" for c :: int
  proof (rule int_div_pos_eq)
    have c: "4 * (c div 4) + c mod 4 = c" "0 \<le> c mod 4" "c mod 4 < 4" by (simp_all add: mult_div_mod_eq)
    show "3 * (c + 49) = 4 * (c - c div 4 + 36) + (3 - c mod 4)" "0 \<le> 3 - c mod 4" "3 - c mod 4 < 4"
      using c by (simp_all add: algebra_simps)
  qed
  moreover have "t div 100 div 4 = t div 400" by (simp add: zdiv_zmult2_eq [symmetric])
  ultimately show ?thesis unfolding a gregorian_def by simp
qed

lemma div_step:
  assumes "1 < b"
  shows "(t + 1) div b = t div b + (if b dvd t + 1 then 1 else (0::int))"
proof -
  have d: "(t + 1) div b = t div b + (t mod b + 1) div b" using assms by (simp add: div_add1_eq [of t 1 b])
  have m: "b dvd t + 1 \<longleftrightarrow> b dvd t mod b + 1" by (metis dvd_eq_mod_eq_0 mod_add_left_eq)
  have r: "0 \<le> t mod b" "t mod b < b" using assms by simp_all
  show ?thesis
  proof (cases "t mod b + 1 = b")
    case False
    then have "t mod b + 1 < b" using r by simp
    then show ?thesis using d m r zdvd_not_zless [of "t mod b + 1" b] by (simp add: div_pos_pos_trivial)
  qed (use d m assms in simp)
qed

lemma gregorian_step: "gregorian (int t) = gregorian (int t - 1) + int (year_days t)"
proof -
  have d: "int b dvd int t \<longleftrightarrow> b dvd t" for b by simp
  have "gregorian (int t) - gregorian (int t - 1) =
    365 + (if 4 dvd t then 1 else 0) - (if 100 dvd t then 1 else 0) + (if 400 dvd t then 1 else 0)"
    unfolding gregorian_def
    using div_step [of 4 "int t - 1"] div_step [of 100 "int t - 1"] div_step [of 400 "int t - 1"]
      d [of 4] d [of 100] d [of 400] by simp
  moreover have "100 dvd t \<Longrightarrow> 4 dvd t" "400 dvd t \<Longrightarrow> 100 dvd t"
    by (auto elim: dvd_trans [rotated])
  ultimately show ?thesis
    by (cases "4 dvd t"; cases "100 dvd t"; cases "400 dvd t") (simp_all add: year_days_def leap_def)
qed

lemma jdn_gregorian:
  assumes "1 \<le> m" and "m \<le> 12"
  shows "get_jdn d m (int y) =
    (if m \<le> 2 then gregorian (int y - 1) + (367 * (m + 10)) div 12
     else gregorian (int y) + (367 * (m - 2)) div 12) + d + 1721089"
proof -
  define t where "t = (if m \<le> 2 then int y - 1 else int y)"
  have "get_jdn d m (int y) = (1461 * (t + 4800)) div 4 + (367 * (if m \<le> 2 then m + 10 else m - 2)) div 12
    - (3 * ((t + 4900) div 100)) div 4 + d - 32075"
    using jdn_div [of "int y" m d] assms by (cases "m \<le> 2") (simp_all add: t_def Let_def add.commute)
  moreover have "D = A + C - B + d - 32075 \<Longrightarrow> A - B = G + 1753164 \<Longrightarrow> D = G + C + d + 1721089"
    for A B C D G :: int by linarith
  ultimately have "get_jdn d m (int y) = gregorian t + (367 * (if m \<le> 2 then m + 10 else m - 2)) div 12 + d + 1721089"
    using jdn_years by blast
  then show ?thesis by (cases "m \<le> 2") (simp_all only: t_def if_True if_False)
qed

text \<open>Day by day through the months, from 1 January of the same year.\<close>

lemma jdn_month:
  assumes "1 \<le> m" and "m < 12"
  shows "get_jdn d (int (Suc m)) (int y) = get_jdn d (int m) (int y) + int (month_days y m)"
proof -
  have "m \<in> {1..<12}" using assms by simp
  also have "{1..<12} = {1, 2, 3, 4, 5, 6, 7, 8, 9, 10, 11::nat}" by (simp add: atLeastLessThan_nat_numeral insert_commute)
  finally have "m = 1 \<or> m = 2 \<or> m = 3 \<or> m = 4 \<or> m = 5 \<or> m = 6 \<or> m = 7 \<or> m = 8 \<or> m = 9 \<or> m = 10 \<or> m = 11"
    by simp
  then show ?thesis
    using gregorian_step [of y] jdn_gregorian [of "int m" d y] jdn_gregorian [of "int (Suc m)" d y]
    by (elim disjE) (simp_all add: year_days_def)
qed

lemma jdn_months:
  assumes "1 \<le> m" and "m \<le> 12"
  shows "get_jdn d (int m) (int y) = get_jdn d 1 (int y) + int (\<Sum>k = 1..<m. month_days y k)"
  using assms
proof (induction m rule: dec_induct)
  case (step n)
  then have "get_jdn d (int n) (int y) = get_jdn d 1 (int y) + int (\<Sum>k = 1..<n. month_days y k)" by simp
  then show ?case using jdn_month [of n d y] step by (simp add: sum.atLeastLessThan_Suc)
qed simp

lemma jdn_year: "get_jdn d 1 (int (Suc y)) = get_jdn d 1 (int y) + int (year_days y)"
  using gregorian_step [of y] jdn_gregorian [of 1 d "Suc y"] jdn_gregorian [of 1 d y] by simp

lemma jdn_since_1970:
  assumes "1970 \<le> y" and "1 \<le> m" and "m \<le> 12" and "1 \<le> d"
  shows "get_jdn (int d) (int m) (int y) = get_jdn 1 1 1970 + int (days_since_1970 y m d)"
proof -
  have "get_jdn 1 1 (int y) = get_jdn 1 1 1970 + int (\<Sum>k = 1970..<y. year_days k)"
    using assms(1)
  proof (induction y rule: dec_induct)
    case (step n)
    then show ?case using jdn_year [of 1 n] by (simp add: sum.atLeastLessThan_Suc)
  qed simp
  moreover have "get_jdn (int d) 1 (int y) = get_jdn 1 1 (int y) + int (d - 1)"
    using assms(4) by (simp add: jdn_gregorian)
  ultimately show ?thesis using jdn_months [OF assms(2,3), of "int d" y] by (simp add: days_since_1970_def)
qed

section \<open>Seconds since 1970\<close>

lemma year_days_months: "year_days y = (\<Sum>k = 1..<13. month_days y k)"
proof -
  have "{1..<13} = set [1..<13]" by simp
  also have "[1..<13] = [1, 2, 3, 4, 5, 6, 7, 8, 9, 10, 11, 12]" by (simp add: upt_rec)
  finally show ?thesis by (simp add: year_days_def)
qed

lemma date_in_year:
  assumes "1 \<le> m" and "m \<le> 12" and "d \<le> month_days y m"
  shows "(\<Sum>k = 1..<m. month_days y k) + d \<le> year_days y"
proof -
  have "(\<Sum>k = 1..<m. month_days y k) + d \<le> (\<Sum>k = 1..<Suc m. month_days y k)"
    using assms by (simp add: sum.atLeastLessThan_Suc del: month_days.simps)
  also have "\<dots> \<le> (\<Sum>k = 1..<13. month_days y k)" using assms(2) by (intro sum_mono2) auto
  finally show ?thesis by (simp only: year_days_months)
qed

lemma jdn_before_1970:
  assumes "y < 1970" and "1 \<le> m" and "m \<le> 12" and "d \<le> month_days y m"
  shows "get_jdn (int d) (int m) (int y) < get_jdn 1 1 1970"
proof -
  have j: "get_jdn 1 1 (int (y + Suc n)) \<ge> get_jdn 1 1 (int y) + int (year_days y)" for n
  proof (induction n)
    case (Suc n)
    then show ?case using jdn_year [of 1 "y + Suc n"] by simp
  qed (use jdn_year [of 1 y] in simp)
  obtain n where n: "1970 = y + Suc n" using less_imp_Suc_add [OF assms(1)] by auto
  have "get_jdn (int d) 1 (int y) = get_jdn 1 1 (int y) + int d - 1" by (simp add: jdn_gregorian)
  then have "get_jdn (int d) (int m) (int y) < get_jdn 1 1 (int y) + int (year_days y)"
    using jdn_months [OF assms(2,3), of "int d" y] date_in_year [OF assms(2-4)] by linarith
  then show ?thesis using j [of n] n by (metis order_less_le_trans of_nat_numeral)
qed

lemma days_bound:
  assumes "y < 65536" and "1 \<le> m" and "m \<le> 12" and "d \<le> month_days y m"
  shows "days_since_1970 y m d < 2 ^ 25"
proof -
  have yd: "year_days k \<le> 366" for k by (simp add: year_days_def)
  have "(\<Sum>k = 1970..<y. year_days k) \<le> (\<Sum>k = 1970..<y. 366)" by (rule sum_mono) (rule yd)
  then show ?thesis
    using date_in_year [OF assms(2-4)] yd [of y] assms(1) by (simp add: days_since_1970_def)
qed

text \<open>
  C26. For a date and a time of day of the Gregorian calendar, \<open>get_unix_epoch\<close> is the number
  of seconds since the start of 1970, counting the days year by year and month by month with
  the leap days of the calendar, and 0 for a date before 1970.
\<close>

theorem unix_epoch_counts:
  assumes "1 \<le> unat mo" and "unat mo \<le> 12" and "1 \<le> unat d" and "unat d \<le> month_days (unat y) (unat mo)"
    and "unat h < 24" and "unat mi < 60" and "unat s < 60"
  shows "unat (get_unix_epoch s mi h d mo y) =
    (if unat y < 1970 then 0
     else days_since_1970 (unat y) (unat mo) (unat d) * 86400 + unat h * 3600 + unat mi * 60 + unat s)"
proof -
  define j where "j = get_jdn (int (unat d)) (int (unat mo)) (int (unat y)) - get_jdn 1 1 1970"
  define t where "t = unat h * 3600 + unat mi * 60 + unat s"
  have e: "get_unix_epoch s mi h d mo y = (if j * 86400 + int t < 0 then 0 else of_int (j * 86400 + int t))"
    by (simp add: get_unix_epoch_def Let_def j_def t_def add.assoc)
  have t: "t < 86400" using assms(5-7) by (simp add: t_def)
  show ?thesis
  proof (cases "unat y < 1970")
    case True
    have "j < 0" using jdn_before_1970 [OF True assms(1,2,4)] by (simp only: j_def)
    then have "j * 86400 + int t < 0" using t by linarith
    then show ?thesis using True by (simp add: e)
  next
    case False
    define n where "n = days_since_1970 (unat y) (unat mo) (unat d)"
    have "j = int n" using jdn_since_1970 [of "unat y" "unat mo" "unat d"] assms(1-3) False
      by (simp only: j_def n_def)
    then have "get_unix_epoch s mi h d mo y = of_nat (n * 86400 + t)" by (simp add: e)
    moreover have "n < 2 ^ 25" using days_bound [OF _ assms(1,2,4)] unat_bound [of y] by (simp add: n_def)
    then have "n * 86400 + t < 2 ^ 64" using t by simp
    ultimately have "unat (get_unix_epoch s mi h d mo y) = n * 86400 + t"
      by (intro of_nat_inverse) (simp_all del: of_nat_add of_nat_mult)
    then show ?thesis using False by (simp add: n_def t_def)
  qed
qed

theorem unix_epoch_counts_witness: "get_unix_epoch 0 0 0 1 3 2000 = 951868800"
proof -
  have "days_since_1970 2000 3 1 = 11017"
    by (simp add: days_since_1970_def year_days_def leap_def sum.atLeast_Suc_lessThan numeral_eq_Suc [of "num.One"])
  then show ?thesis
    using unix_epoch_counts [of 3 1 2000 0 0 0] by (simp add: word_unat_eq_iff)
qed

end
