(* ===== verification/Limine_Bytes.thy ===== *)
theory Limine_Bytes
  imports Limine_Prelude
begin

text \<open>
  Integers in memory. All targets are little endian; a structure read from a disk or a file is
  the list of its bytes, and a field of it is read with \<open>le_word\<close>.
\<close>

named_theorems byte_simps \<open>bytes and the integers they make up\<close>

fun le_nat :: "u8 list \<Rightarrow> nat" where
  "le_nat [] = 0"
| "le_nat (b # bs) = unat b + 256 * le_nat bs"

definition le_word :: "u8 list \<Rightarrow> 'a::len word" where
  "le_word bs = of_nat (le_nat bs)"

definition le_bytes :: "nat \<Rightarrow> 'a::len word \<Rightarrow> u8 list" where
  "le_bytes n w = map (\<lambda>i. ucast (drop_bit (8 * i) w)) [0..<n]"

text \<open>The field of \<open>n\<close> bytes at an offset of a structure.\<close>

definition field :: "u8 list \<Rightarrow> nat \<Rightarrow> nat \<Rightarrow> u8 list" where
  "field bs off n = take n (drop off bs)"

lemma length_le_bytes [simp]: "length (le_bytes n w) = n"
  by (simp add: le_bytes_def)

lemma length_field [simp]: "off + n \<le> length bs \<Longrightarrow> length (field bs off n) = n"
  by (simp add: field_def)

lemma field_append_left [byte_simps]:
  "off + n \<le> length xs \<Longrightarrow> field (xs @ ys) off n = field xs off n"
  by (simp add: field_def)

lemma field_append_right [byte_simps]:
  "length xs \<le> off \<Longrightarrow> field (xs @ ys) off n = field ys (off - length xs) n"
  by (simp add: field_def)

lemma field_all [byte_simps]: "n = length bs \<Longrightarrow> field bs 0 n = bs"
  by (simp add: field_def)

lemma word_of_unat: "unat a = n \<Longrightarrow> a = of_nat n"
  by auto

lemma unat_byte: "unat (b::u8) < 256"
  using unat_bound [of b] by simp

lemma le_nat_bound: "le_nat bs < 256 ^ length bs"
proof (induction bs)
  case (Cons b bs)
  have "unat b + 256 * le_nat bs < 256 * Suc (le_nat bs)" using unat_byte [of b] by simp
  also have "\<dots> \<le> 256 * 256 ^ length bs" using Cons by (intro mult_le_mono2) simp
  finally show ?case by simp
qed simp

lemma le_nat_append: "le_nat (xs @ ys) = le_nat xs + 256 ^ length xs * le_nat ys"
  by (induction xs) (simp_all add: algebra_simps)

lemma unat_drop_bit: "unat (drop_bit n w) = unat w div 2 ^ n"
  using unat_bound [of w]
  by (subst unsigned_drop_bit_eq) (simp add: drop_bit_eq_div take_bit_nat_eq_self)

lemma unat_ucast_byte: "unat (ucast w :: u8) = unat w mod 256"
  by (simp add: unsigned_ucast_eq take_bit_eq_mod)

lemma le_nat_le_bytes: "le_nat (le_bytes n (w::'a::len word)) = unat w mod 256 ^ n"
proof (induction n)
  case (Suc n)
  have p: "(256::nat) ^ n = 2 ^ (8 * n)" by (simp add: power_mult)
  have "le_bytes (Suc n) w = le_bytes n w @ [ucast (drop_bit (8 * n) w)]" by (simp add: le_bytes_def)
  then have "le_nat (le_bytes (Suc n) w) = unat w mod 256 ^ n + 256 ^ n * (unat w div 256 ^ n mod 256)"
    using Suc by (simp add: le_nat_append unat_ucast_byte unat_drop_bit p)
  also have "\<dots> = unat w mod (256 ^ n * 256)" by (simp add: mod_mult2_eq)
  finally show ?case by (simp add: mult.commute)
qed (simp add: le_bytes_def)

lemma le_word_le_bytes [byte_simps]:
  "LENGTH('a) = 8 * n \<Longrightarrow> le_word (le_bytes n (w::'a::len word)) = w"
  using unat_bound [of w] by (simp add: le_word_def le_nat_le_bytes power_mult)

lemma unat_le_word:
  assumes "8 * length bs \<le> LENGTH('a)"
  shows "unat (le_word bs :: 'a::len word) = le_nat bs"
proof -
  have "(256::nat) ^ length bs = 2 ^ (8 * length bs)" by (simp add: power_mult)
  also have "\<dots> \<le> 2 ^ LENGTH('a)" using assms by (intro power_increasing) auto
  finally show ?thesis using le_nat_bound [of bs] by (simp add: le_word_def of_nat_inverse)
qed

lemma le_nat_inj: "length xs = length ys \<Longrightarrow> le_nat xs = le_nat ys \<Longrightarrow> xs = ys"
proof (induction xs arbitrary: ys)
  case (Cons x xs)
  then obtain y zs where ys: "ys = y # zs" by (cases ys) auto
  have e: "unat x + 256 * le_nat xs = unat y + 256 * le_nat zs" using Cons.prems(2) ys by simp
  have "unat x = (unat x + 256 * le_nat xs) mod 256" using unat_byte [of x] by simp
  also have "\<dots> = unat y" unfolding e using unat_byte [of y] by simp
  finally have "x = y" by (simp add: word_unat_eq_iff)
  moreover from this e have "le_nat xs = le_nat zs" by simp
  ultimately show ?case using Cons ys by simp
qed simp

lemma le_bytes_le_word [byte_simps]:
  assumes "length bs = n" and "8 * n \<le> LENGTH('a)"
  shows "le_bytes n (le_word bs :: 'a::len word) = bs"
  using assms le_nat_bound [of bs]
  by (intro le_nat_inj) (simp_all add: le_nat_le_bytes unat_le_word)

text \<open>Combining a low and a high half of a byte.\<close>

lemma or_push_bit_add:
  assumes "unat (a::'a::len word) < 2 ^ n"
  shows "or a (push_bit n b) = a + push_bit n b"
proof (rule disjunctive_add [symmetric])
  fix k
  have "take_bit n a = a"
    using assms by (simp add: word_unat_eq_iff unsigned_take_bit_eq take_bit_nat_eq_self)
  then have "\<not> bit a k" if "n \<le> k" for k using that by (metis bit_take_bit_iff not_le)
  then show "\<not> bit a k \<or> \<not> bit (push_bit n b) k" by (cases "n \<le> k") (simp_all add: bit_simps)
qed

lemma unat_or_push_bit:
  assumes "unat (a::'a::len word) < 2 ^ n" and "unat b * 2 ^ n + unat a < 2 ^ LENGTH('a)"
  shows "unat (or a (push_bit n b)) = unat a + unat b * 2 ^ n"
proof -
  have "unat (push_bit n b) = unat b * 2 ^ n"
    using assms(2) by (subst unsigned_push_bit_eq) (simp add: push_bit_eq_mult take_bit_nat_eq_self)
  then show ?thesis using assms by (simp add: or_push_bit_add unat_add_exact)
qed

end
