(* ===== verification/Utf.thy ===== *)
theory Utf
  imports Limine_Bytes
begin

text \<open>
  Conversion between UTF-16 and UTF-8, \<^verbatim>\<open>common/lib/utf.s2.c\<close>. The source is the list of
  its \<^verbatim>\<open>src_len\<close> code units, the destination the list of its \<^verbatim>\<open>dest_size\<close> code
  units; the result is whether all was converted, the destination afterwards, and the number
  of code units stored. The first part of the destination is kept as a list of what was
  stored, in order; nothing is stored past its end (\<open>u16_loop_fits\<close> and \<open>u8_loop_fits\<close>).
\<close>

definition REPLACEMENT_CHARACTER :: u32 where "REPLACEMENT_CHARACTER = 0xfffd"

section \<open>UTF-16 to UTF-8\<close>

text \<open>The code point at the front of the source, and the source after it.\<close>

fun u16_next :: "u16 \<Rightarrow> u16 list \<Rightarrow> u32 \<times> u16 list" where
  "u16_next u rest =
     (let cp = ucast u in
      if cp \<ge> 0xd800 \<and> cp \<le> 0xdfff then
        (case rest of
           v # rest' \<Rightarrow>
             if cp \<le> 0xdbff \<and> v \<ge> 0xdc00 \<and> v \<le> 0xdfff
             then (0x10000 + push_bit 10 (cp - 0xd800) + (ucast v - 0xdc00), rest')
             else (REPLACEMENT_CHARACTER, rest)
         | [] \<Rightarrow> (REPLACEMENT_CHARACTER, rest))
      else (cp, rest))"

definition u8_len :: "u32 \<Rightarrow> nat" where
  "u8_len cp = (if cp < 0x80 then 1 else if cp < 0x800 then 2 else if cp < 0x10000 then 3 else 4)"

text \<open>The bytes after the lead byte; the shift is six times the argument.\<close>

primrec u8_trail :: "u32 \<Rightarrow> nat \<Rightarrow> u8 list" where
  "u8_trail cp 0 = []"
| "u8_trail cp (Suc k) = ucast (or 0x80 (and (drop_bit (6 * k) cp) 0x3f)) # u8_trail cp k"

definition u8_put :: "u32 \<Rightarrow> u8 list" where
  "u8_put cp =
     (let n = u8_len cp in
      if n = 1 then [ucast cp]
      else let k = n - 1 in
        ucast (or (take_bit 8 (drop_bit n 0xff00)) (drop_bit (6 * k) cp)) # u8_trail cp k)"

lemma u16_next_length: "length (snd (u16_next u rest)) \<le> length rest"
  by (auto simp: Let_def split: list.splits)

declare u16_next.simps [simp del]

function u16_loop :: "nat \<Rightarrow> u16 list \<Rightarrow> u8 list \<Rightarrow> bool \<times> u8 list" where
  "u16_loop dest_size [] out = (True, out)"
| "u16_loop dest_size (u # src) out =
     (if u = 0 then (True, out)
      else let (cp, rest) = u16_next u src in
        if dest_size - length out \<le> u8_len cp then (False, out)
        else u16_loop dest_size rest (out @ u8_put cp))"
  by pat_completeness auto
termination
proof (relation "measure (\<lambda>(d, src, out). length src)", goal_cases)
  case (2 d u src out r cp rest)
  then have "rest = snd (u16_next u src)" by (metis snd_conv)
  then show ?case using u16_next_length [of u src] by simp
qed simp

definition finish :: "'a::zero list \<Rightarrow> bool \<times> 'a list \<Rightarrow> bool \<times> 'a list \<times> nat" where
  "finish dest r =
     (case r of (complete, out) \<Rightarrow>
        if dest = [] then (False, dest, length out)
        else (complete, out @ 0 # drop (Suc (length out)) dest, length out))"

definition utf16_to_utf8 :: "u8 list \<Rightarrow> u16 list \<Rightarrow> bool \<times> u8 list \<times> nat" where
  "utf16_to_utf8 dest src = finish dest (u16_loop (length dest) src [])"

section \<open>UTF-8 to UTF-16\<close>

text \<open>What a lead byte announces: the trail bytes, bounds of the first of them, and its bits.\<close>

definition u8_lead :: "u8 \<Rightarrow> nat \<times> u8 \<times> u8 \<times> u32" where
  "u8_lead b =
     (let cp = ucast b :: u32 in
      if cp \<ge> 0xc2 \<and> cp \<le> 0xdf then (1, 0x80, 0xbf, and cp 0x1f)
      else if cp \<ge> 0xe0 \<and> cp \<le> 0xef then
        (2, if cp = 0xe0 then 0xa0 else 0x80, if cp = 0xed then 0x9f else 0xbf, and cp 0x0f)
      else if cp \<ge> 0xf0 \<and> cp \<le> 0xf4 then
        (3, if cp = 0xf0 then 0x90 else 0x80, if cp = 0xf4 then 0x8f else 0xbf, and cp 0x07)
      else if cp \<ge> 0x80 then (0, 0x80, 0xbf, REPLACEMENT_CHARACTER)
      else (0, 0x80, 0xbf, cp))"

fun u8_tail :: "nat \<Rightarrow> u8 \<Rightarrow> u8 \<Rightarrow> u32 \<Rightarrow> u8 list \<Rightarrow> u32 \<times> u8 list" where
  "u8_tail 0 lo hi cp s = (cp, s)"
| "u8_tail (Suc t) lo hi cp [] = (REPLACEMENT_CHARACTER, [])"
| "u8_tail (Suc t) lo hi cp (b # s) =
     (if b < lo \<or> b > hi then (REPLACEMENT_CHARACTER, b # s)
      else u8_tail t 0x80 0xbf (or (push_bit 6 cp) (and (ucast b) 0x3f)) s)"

definition u8_next :: "u8 \<Rightarrow> u8 list \<Rightarrow> u32 \<times> u8 list" where
  "u8_next b rest = (case u8_lead b of (trail, lo, hi, cp) \<Rightarrow> u8_tail trail lo hi cp rest)"

definition u16_put :: "u32 \<Rightarrow> u16 list" where
  "u16_put cp =
     (if cp \<ge> 0x10000 then
        let c = cp - 0x10000 in [ucast (or 0xd800 (drop_bit 10 c)), ucast (or 0xdc00 (and c 0x3ff))]
      else [ucast cp])"

lemma u8_tail_length: "length (snd (u8_tail t lo hi cp s)) \<le> length s"
  by (induction t lo hi cp s rule: u8_tail.induct) auto

lemma u8_next_length: "length (snd (u8_next b rest)) \<le> length rest"
  by (auto simp: u8_next_def u8_tail_length split: prod.split)

function u8_loop :: "nat \<Rightarrow> u8 list \<Rightarrow> u16 list \<Rightarrow> bool \<times> u16 list" where
  "u8_loop dest_size [] out = (True, out)"
| "u8_loop dest_size (b # src) out =
     (if b = 0 then (True, out)
      else let (cp, rest) = u8_next b src; n = (if cp \<ge> 0x10000 then 2 else 1) in
        if dest_size - length out \<le> n then (False, out)
        else u8_loop dest_size rest (out @ u16_put cp))"
  by pat_completeness auto
termination
proof (relation "measure (\<lambda>(d, src, out). length src)", goal_cases)
  case (2 d b src out r cp rest n)
  then have "rest = snd (u8_next b src)" by (metis snd_conv)
  then show ?case using u8_next_length [of b src] by simp
qed simp

definition utf8_to_utf16 :: "u16 list \<Rightarrow> u8 list \<Rightarrow> bool \<times> u16 list \<times> nat" where
  "utf8_to_utf16 dest src = finish dest (u8_loop (length dest) src [])"

section \<open>The encoding forms\<close>

text \<open>
  Unicode scalar values, and how UTF-8 and UTF-16 encode them (tables 3-5 and 3-6 of the
  Unicode standard).
\<close>

definition scalar :: "nat \<Rightarrow> bool" where
  "scalar n \<longleftrightarrow> n < 0xd800 \<or> 0xdfff < n \<and> n < 0x110000"

definition enc8 :: "nat \<Rightarrow> u8 list" where
  "enc8 n =
     (if n < 0x80 then [of_nat n]
      else if n < 0x800 then [of_nat (0xc0 + n div 64), of_nat (0x80 + n mod 64)]
      else if n < 0x10000 then
        [of_nat (0xe0 + n div 4096), of_nat (0x80 + n div 64 mod 64), of_nat (0x80 + n mod 64)]
      else
        [of_nat (0xf0 + n div 262144), of_nat (0x80 + n div 4096 mod 64),
         of_nat (0x80 + n div 64 mod 64), of_nat (0x80 + n mod 64)])"

definition enc16 :: "nat \<Rightarrow> u16 list" where
  "enc16 n =
     (if n < 0x10000 then [of_nat n]
      else [of_nat (0xd800 + (n - 0x10000) div 1024), of_nat (0xdc00 + (n - 0x10000) mod 1024)])"

lemma and_mask_nat: "unat (and (x::'a::len word) (mask k)) = unat x mod 2 ^ k"
  by (simp only: take_bit_eq_mask [symmetric] unsigned_take_bit_eq) (simp add: take_bit_eq_mod)

lemma and_3f: "unat (and (x::u32) 0x3f) = unat x mod 64"
  using and_mask_nat [of x 6] by (simp add: mask_eq_exp_minus_1)

lemma trail_byte:
  "(ucast (or 0x80 (and (drop_bit k cp) 0x3f) :: u32) :: u8) = of_nat (0x80 + unat cp div 2 ^ k mod 64)"
proof -
  let ?a = "and (drop_bit k cp) 0x3f"
  have a: "unat ?a = unat cp div 2 ^ k mod 64" by (simp add: and_3f unat_drop_bit)
  then have "unat ?a < 2 ^ 7" by (simp add: order_less_trans [OF mod_less_divisor])
  then have "or 0x80 ?a = 0x80 + ?a" using or_push_bit_add [of ?a 7 1] by (simp add: or.commute add.commute)
  moreover have "unat (0x80 + ?a) = 0x80 + unat ?a" using a by (simp add: unat_word_ariths)
  ultimately have "unat (ucast (or 0x80 ?a) :: u8) = 0x80 + unat cp div 2 ^ k mod 64"
    using a by (simp add: unat_ucast_byte)
  then show ?thesis by (rule word_of_unat)
qed

lemma lead_byte:
  fixes cp :: u32
  assumes "unat cp div 2 ^ k < 2 ^ j" and "c * 2 ^ j + unat cp div 2 ^ k < 256"
  shows "(ucast (or (push_bit j (of_nat c)) (drop_bit k cp)) :: u8) = of_nat (c * 2 ^ j + unat cp div 2 ^ k)"
proof -
  have "c \<le> c * 2 ^ j" by simp
  then have "c < 256" using assms(2) by linarith
  then have "c < 2 ^ 32" by simp
  then have c: "unat (of_nat c :: u32) = c" by (intro of_nat_inverse) simp_all
  have "unat (or (drop_bit k cp) (push_bit j (of_nat c))) = c * 2 ^ j + unat cp div 2 ^ k"
    using unat_or_push_bit [of "drop_bit k cp" j "of_nat c"] assms c by (simp add: unat_drop_bit)
  then have "unat (ucast (or (push_bit j (of_nat c)) (drop_bit k cp)) :: u8) = c * 2 ^ j + unat cp div 2 ^ k"
    using assms(2) by (simp add: unat_ucast_byte or.commute)
  then show ?thesis by (rule word_of_unat)
qed

lemmas lead_bytes = lead_byte [of _ 6 5 6, simplified] lead_byte [of _ 12 4 14, simplified]
  lead_byte [of _ 18 3 30, simplified]

lemma u8_trail_eq:
  assumes "n = unat cp"
  shows "u8_trail cp 1 = [of_nat (0x80 + n mod 64)]"
    and "u8_trail cp 2 = [of_nat (0x80 + n div 64 mod 64), of_nat (0x80 + n mod 64)]"
    and "u8_trail cp 3 = [of_nat (0x80 + n div 4096 mod 64), of_nat (0x80 + n div 64 mod 64), of_nat (0x80 + n mod 64)]"
proof -
  have t0: "u8_trail cp (Suc 0) = [of_nat (0x80 + n mod 64)]"
    using trail_byte [of 0 cp] assms by simp
  then show "u8_trail cp 1 = [of_nat (0x80 + n mod 64)]" by simp
  have t1: "u8_trail cp (Suc (Suc 0)) = of_nat (0x80 + n div 64 mod 64) # u8_trail cp (Suc 0)"
    unfolding u8_trail.simps(2) [of cp "Suc 0"] trail_byte assms by simp
  then show "u8_trail cp 2 = [of_nat (0x80 + n div 64 mod 64), of_nat (0x80 + n mod 64)]"
    unfolding t0 numeral_2_eq_2 .
  have "u8_trail cp (Suc (Suc (Suc 0))) = of_nat (0x80 + n div 4096 mod 64) # u8_trail cp (Suc (Suc 0))"
    unfolding u8_trail.simps(2) [of cp "Suc (Suc 0)"] trail_byte assms by simp
  then show "u8_trail cp 3 = [of_nat (0x80 + n div 4096 mod 64), of_nat (0x80 + n div 64 mod 64), of_nat (0x80 + n mod 64)]"
    unfolding t1 t0 numeral_3_eq_3 .
qed

lemma u8_put_enc8:
  assumes "unat cp < 0x110000"
  shows "u8_put cp = enc8 (unat cp)"
proof -
  consider "unat cp < 0x80" | "0x80 \<le> unat cp" "unat cp < 0x800" | "0x800 \<le> unat cp" "unat cp < 0x10000"
    | "0x10000 \<le> unat cp" by linarith
  then show ?thesis
  proof cases
    case 1
    then have "cp < 0x80" by (simp add: word_nat)
    then show ?thesis using 1 by (simp add: u8_put_def u8_len_def enc8_def)
  next
    case 2
    then have c: "\<not> cp < 0x80" "cp < 0x800" by (simp_all add: word_nat)
    have "unat cp div 64 < 32" using 2 by simp
    then show ?thesis using 2 c u8_trail_eq [OF refl, of cp] lead_bytes(1) [of cp]
      by (simp add: u8_put_def u8_len_def enc8_def Let_def)
  next
    case 3
    then have c: "\<not> cp < 0x80" "\<not> cp < 0x800" "cp < 0x10000" by (simp_all add: word_nat)
    have "unat cp div 4096 < 16" using 3 by simp
    then show ?thesis using 3 c u8_trail_eq [OF refl, of cp] lead_bytes(2) [of cp]
      by (simp add: u8_put_def u8_len_def enc8_def Let_def)
  next
    case 4
    then have c: "\<not> cp < 0x80" "\<not> cp < 0x800" "\<not> cp < 0x10000" by (simp_all add: word_nat)
    have "unat cp div 262144 < 8" using 4 assms by simp
    then show ?thesis
      using 4 c u8_trail_eq [OF refl, of cp] lead_bytes(3) [of cp]
      by (simp add: u8_put_def u8_len_def enc8_def Let_def)
  qed
qed

lemma length_enc8: "length (enc8 (unat cp)) = u8_len cp"
  by (simp add: enc8_def u8_len_def word_nat)

lemma pair_unit:
  assumes "unat (x::u32) < 1024" and "c < 63"
  shows "(ucast (or (push_bit 10 (of_nat c)) x) :: u16) = of_nat (c * 1024 + unat x)"
proof -
  have c: "unat (of_nat c :: u32) = c" using assms(2) by (intro of_nat_inverse) simp_all
  have "unat (or x (push_bit 10 (of_nat c))) = c * 1024 + unat x"
    using unat_or_push_bit [of x 10 "of_nat c"] assms c by simp
  then have "unat (ucast (or (push_bit 10 (of_nat c)) x) :: u16) = c * 1024 + unat x"
    using assms by (simp add: unsigned_ucast_eq take_bit_eq_mod or.commute)
  then show ?thesis by (rule word_of_unat)
qed

lemma and_3ff: "unat (and (x::u32) 0x3ff) = unat x mod 1024"
  using and_mask_nat [of x 10] by (simp add: mask_eq_exp_minus_1)

lemma u16_put_enc16:
  assumes "unat cp < 0x110000"
  shows "u16_put cp = enc16 (unat cp)"
proof (cases "unat cp < 0x10000")
  case True
  then have "\<not> 0x10000 \<le> cp" by (simp add: word_nat)
  then show ?thesis using True by (simp add: u16_put_def enc16_def)
next
  case False
  then have c: "0x10000 \<le> cp" by (simp add: word_nat)
  let ?c = "cp - 0x10000"
  have u: "unat ?c = unat cp - 0x10000" using False by (simp add: unat_sub_exact)
  have "unat (drop_bit 10 ?c) < 1024" using u assms by (simp add: unat_drop_bit)
  then have "(ucast (or 0xd800 (drop_bit 10 ?c)) :: u16) = of_nat (0xd800 + (unat cp - 0x10000) div 1024)"
    using pair_unit [of "drop_bit 10 ?c" 54] u by (simp add: unat_drop_bit)
  moreover have "(ucast (or 0xdc00 (and ?c 0x3ff)) :: u16) = of_nat (0xdc00 + (unat cp - 0x10000) mod 1024)"
    using pair_unit [of "and ?c 0x3ff" 55] u by (simp add: and_3ff)
  ultimately show ?thesis using False c by (simp add: u16_put_def enc16_def Let_def)
qed

lemma length_enc16: "length (enc16 (unat cp)) = (if (cp::u32) \<ge> 0x10000 then 2 else 1)"
  by (simp add: enc16_def word_nat)

section \<open>Decoding what was encoded\<close>

lemma ucast_of_nat_small: "n < 2 ^ LENGTH('a) \<Longrightarrow> (ucast (of_nat n :: 'a::len word) :: 'b::len word) = of_nat n"
  by (simp add: unsigned_of_nat take_bit_nat_eq_self)

lemma of_nat_cmp:
  assumes "n < 2 ^ LENGTH('a)"
  shows "(of_nat n :: 'a::len word) < b \<longleftrightarrow> n < unat b" and "b < of_nat n \<longleftrightarrow> unat b < n"
    and "(of_nat n :: 'a word) \<le> b \<longleftrightarrow> n \<le> unat b" and "b \<le> of_nat n \<longleftrightarrow> unat b \<le> n"
    and "(of_nat n :: 'a word) = b \<longleftrightarrow> n = unat b"
  using assms of_nat_inverse [of n "of_nat n :: 'a word"] by (auto simp: word_nat)

lemma u16_next_enc16:
  assumes "scalar n" and "enc16 n = u # us"
  shows "u16_next u (us @ rest) = (of_nat n, rest)"
proof (cases "n < 0x10000")
  case True
  then have u: "u = of_nat n" "us = []" using assms(2) by (simp_all add: enc16_def)
  have "\<not> ((0xd800::u32) \<le> of_nat n \<and> of_nat n \<le> (0xdfff::u32))"
    using assms(1) True by (auto simp: scalar_def of_nat_cmp)
  moreover have "(ucast u :: u32) = of_nat n" unfolding u by (rule ucast_of_nat_small) (use True in simp)
  ultimately show ?thesis using u(2) unfolding u16_next.simps Let_def by (simp only: if_False append_Nil)
next
  case False
  let ?m = "n - 0x10000"
  have n: "n < 0x110000" using assms(1) by (auto simp: scalar_def)
  then have q: "?m div 1024 < 1024" by auto
  have u: "u = of_nat (0xd800 + ?m div 1024)" "us = [of_nat (0xdc00 + ?m mod 1024)]"
    using assms(2) False by (simp_all add: enc16_def)
  have cu: "(ucast u :: u32) = of_nat (0xd800 + ?m div 1024)"
    unfolding u by (rule ucast_of_nat_small) (use q in simp)
  have cv: "(ucast (of_nat (0xdc00 + ?m mod 1024) :: u16) :: u32) = of_nat (0xdc00 + ?m mod 1024)"
    by (rule ucast_of_nat_small) (simp add: order_less_trans [OF mod_less_divisor])
  have "n = 0x10000 + (?m div 1024 * 1024 + ?m mod 1024)" using False by simp
  then have "(of_nat n :: u32) = of_nat (0x10000 + (?m div 1024 * 1024 + ?m mod 1024))" by (rule arg_cong)
  then have "0x10000 + (of_nat (?m div 1024) * 1024 + of_nat (?m mod 1024)) = (of_nat n :: u32)"
    by (simp only: of_nat_add of_nat_mult of_nat_numeral)
  then have "0x10000 + push_bit 10 (ucast u - 0xd800) + (ucast (of_nat (0xdc00 + ?m mod 1024) :: u16) - 0xdc00) = (of_nat n :: u32)"
    unfolding cu cv by (simp add: push_bit_eq_mult add.assoc)
  moreover have "(0xd800::u32) \<le> ucast u" "ucast u \<le> (0xdfff::u32)" "ucast u \<le> (0xdbff::u32)"
    unfolding cu using q by (subst of_nat_cmp; simp)+
  moreover have "(0xdc00::u16) \<le> of_nat (0xdc00 + ?m mod 1024)" "of_nat (0xdc00 + ?m mod 1024) \<le> (0xdfff::u16)"
    by (subst of_nat_cmp; simp)+
  ultimately show ?thesis unfolding u(2) by (simp add: u16_next.simps Let_def)
qed

text \<open>The lead byte and the trail bytes, on values.\<close>

lemma tail_bits:
  assumes "unat (cp::u32) < 2 ^ 26"
  shows "unat (or (push_bit 6 cp) (and (ucast (b::u8)) 0x3f)) = unat cp * 64 + unat b mod 64"
proof -
  have b: "unat (and (ucast b :: u32) 0x3f) = unat b mod 64"
    using unat_byte [of b] by (simp add: and_3f unsigned_ucast_eq take_bit_nat_eq_self)
  then have "unat (or (and (ucast b :: u32) 0x3f) (push_bit 6 cp)) = unat b mod 64 + unat cp * 2 ^ 6"
    using assms by (subst unat_or_push_bit) (auto simp: order_less_trans [OF mod_less_divisor])
  then show ?thesis by (simp add: or.commute)
qed

lemma and_low:
  "unat (and (x::u32) 0x1f) = unat x mod 32" "unat (and (x::u32) 0x0f) = unat x mod 16" "unat (and (x::u32) 0x07) = unat x mod 8"
  using and_mask_nat [of x 5] and_mask_nat [of x 4] and_mask_nat [of x 3] by (simp_all add: mask_eq_exp_minus_1)

lemma ucast_byte: "unat (ucast (b::u8) :: u32) = unat b"
  using unat_byte [of b] by (simp add: unsigned_ucast_eq take_bit_nat_eq_self)

lemma u8_lead_cases:
  shows "0xc2 \<le> unat b \<Longrightarrow> unat b \<le> 0xdf \<Longrightarrow> \<exists>cp. u8_lead b = (1, 0x80, 0xbf, cp) \<and> unat cp = unat b - 0xc0"
    and "0xe0 \<le> unat b \<Longrightarrow> unat b \<le> 0xef \<Longrightarrow> \<exists>cp. u8_lead b =
      (2, if unat b = 0xe0 then 0xa0 else 0x80, if unat b = 0xed then 0x9f else 0xbf, cp) \<and> unat cp = unat b - 0xe0"
    and "0xf0 \<le> unat b \<Longrightarrow> unat b \<le> 0xf4 \<Longrightarrow> \<exists>cp. u8_lead b =
      (3, if unat b = 0xf0 then 0x90 else 0x80, if unat b = 0xf4 then 0x8f else 0xbf, cp) \<and> unat cp = unat b - 0xf0"
    and "unat b < 0x80 \<Longrightarrow> \<exists>cp. u8_lead b = (0, 0x80, 0xbf, cp) \<and> unat cp = unat b"
proof -
  have c: "ucast b = (k::u32) \<longleftrightarrow> unat b = unat k" for k by (simp add: word_unat_eq_iff ucast_byte)
  have l: "k \<le> ucast b \<longleftrightarrow> unat k \<le> unat b" "ucast b \<le> k \<longleftrightarrow> unat b \<le> unat k" for k :: u32
    by (simp_all add: word_le_nat_alt ucast_byte)
  have m: "x mod 32 = x - 0xc0" if "0xc2 \<le> x" "x \<le> 0xdf" for x :: nat
    using that by (simp add: mod_nat_eqI)
  have m2: "x mod 16 = x - 0xe0" if "0xe0 \<le> x" "x \<le> 0xef" for x :: nat
    using that by (simp add: mod_nat_eqI)
  have m3: "x mod 8 = x - 0xf0" if "0xf0 \<le> x" "x \<le> 0xf4" for x :: nat
    using that by (simp add: mod_nat_eqI)
  note d = u8_lead_def Let_def l c and_low ucast_byte
  show "0xc2 \<le> unat b \<Longrightarrow> unat b \<le> 0xdf \<Longrightarrow> \<exists>cp. u8_lead b = (1, 0x80, 0xbf, cp) \<and> unat cp = unat b - 0xc0"
    using m [of "unat b"] by (simp add: d)
  show "0xe0 \<le> unat b \<Longrightarrow> unat b \<le> 0xef \<Longrightarrow> \<exists>cp. u8_lead b =
      (2, if unat b = 0xe0 then 0xa0 else 0x80, if unat b = 0xed then 0x9f else 0xbf, cp) \<and> unat cp = unat b - 0xe0"
    using m2 [of "unat b"] by (simp add: d)
  show "0xf0 \<le> unat b \<Longrightarrow> unat b \<le> 0xf4 \<Longrightarrow> \<exists>cp. u8_lead b =
      (3, if unat b = 0xf0 then 0x90 else 0x80, if unat b = 0xf4 then 0x8f else 0xbf, cp) \<and> unat cp = unat b - 0xf0"
    using m3 [of "unat b"] by (simp add: d)
  show "unat b < 0x80 \<Longrightarrow> \<exists>cp. u8_lead b = (0, 0x80, 0xbf, cp) \<and> unat cp = unat b"
    by (intro exI [of _ "ucast b"]) (simp add: d)
qed

lemma u8_lead_bad:
  assumes "0x80 \<le> unat b" and "unat b < 0xc2 \<or> 0xf4 < unat b"
  shows "u8_lead b = (0, 0x80, 0xbf, REPLACEMENT_CHARACTER)"
  using assms by (auto simp: u8_lead_def Let_def word_le_nat_alt ucast_byte)

lemma u8_tail_Cons:
  assumes "unat cp < 2 ^ 26" and "unat lo \<le> unat b" and "unat b \<le> unat hi"
  shows "\<exists>cp'. u8_tail (Suc t) lo hi cp (b # s) = u8_tail t 0x80 0xbf cp' s \<and> unat cp' = unat cp * 64 + unat b mod 64"
  using assms tail_bits [OF assms(1), of b] by (auto simp: word_nat)

lemma u8_tail_trail:
  assumes "unat b = 0x80 + n mod 64" and "unat cp < 2 ^ 26" and "unat lo \<le> unat b" and "unat b \<le> unat hi"
  shows "\<exists>cp'. u8_tail (Suc t) lo hi cp (b # s) = u8_tail t 0x80 0xbf cp' s \<and> unat cp' = unat cp * 64 + n mod 64"
proof -
  have "unat b = n mod 64 + 2 * 64" using assms(1) by simp
  then have "unat b mod 64 = n mod 64" by (simp only: mod_mult_self1 mod_mod_trivial)
  then show ?thesis using u8_tail_Cons [OF assms(2-4), of t s] by (simp only:)
qed

lemma mod64_le: "n mod 64 \<le> (63::nat)"
  using mod_less_divisor [of 64 n] by simp

lemma div_parts:
  "n div 64 * 64 + n mod 64 = (n::nat)" "n div 4096 * 64 + n div 64 mod 64 = n div 64"
  "n div 262144 * 64 + n div 4096 mod 64 = n div 4096"
proof -
  have "n div 4096 = n div 64 div 64" "n div 262144 = n div 4096 div 64"
    by (simp_all add: div_mult2_eq [symmetric])
  then show "n div 64 * 64 + n mod 64 = n" "n div 4096 * 64 + n div 64 mod 64 = n div 64"
    "n div 262144 * 64 + n div 4096 mod 64 = n div 4096" by simp_all
qed

lemma byte_of_nat: "n < 256 \<Longrightarrow> \<exists>b::u8. of_nat n = b \<and> unat b = n"
  by (simp add: of_nat_inverse)

lemma trail_of_nat: "\<exists>b::u8. of_nat (0x80 + n mod 64) = b \<and> unat b = 0x80 + n mod 64"
  using mod64_le [of n] by (intro byte_of_nat) simp

lemma enc8_bytes:
  shows "n < 0x80 \<Longrightarrow> \<exists>b. enc8 n = [b] \<and> unat b = n"
    and "0x80 \<le> n \<Longrightarrow> n < 0x800 \<Longrightarrow> \<exists>b c. enc8 n = [b, c] \<and> unat b = 0xc0 + n div 64 \<and> unat c = 0x80 + n mod 64"
    and "0x800 \<le> n \<Longrightarrow> n < 0x10000 \<Longrightarrow> \<exists>b c d. enc8 n = [b, c, d] \<and> unat b = 0xe0 + n div 4096
      \<and> unat c = 0x80 + n div 64 mod 64 \<and> unat d = 0x80 + n mod 64"
    and "0x10000 \<le> n \<Longrightarrow> n < 0x110000 \<Longrightarrow> \<exists>b c d e. enc8 n = [b, c, d, e] \<and> unat b = 0xf0 + n div 262144
      \<and> unat c = 0x80 + n div 4096 mod 64 \<and> unat d = 0x80 + n div 64 mod 64 \<and> unat e = 0x80 + n mod 64"
proof -
  note tr = trail_of_nat [of n] trail_of_nat [of "n div 64"] trail_of_nat [of "n div 4096"]
  show "n < 0x80 \<Longrightarrow> \<exists>b. enc8 n = [b] \<and> unat b = n"
    using byte_of_nat [of n] by (auto simp: enc8_def)
  show "\<exists>b c. enc8 n = [b, c] \<and> unat b = 0xc0 + n div 64 \<and> unat c = 0x80 + n mod 64" if "0x80 \<le> n" "n < 0x800"
  proof -
    have "\<exists>b::u8. of_nat (0xc0 + n div 64) = b \<and> unat b = 0xc0 + n div 64" using that by (intro byte_of_nat) simp
    moreover have "enc8 n = [of_nat (0xc0 + n div 64), of_nat (0x80 + n mod 64)]" using that by (simp add: enc8_def)
    ultimately show ?thesis using tr(1) by metis
  qed
  show "\<exists>b c d. enc8 n = [b, c, d] \<and> unat b = 0xe0 + n div 4096 \<and> unat c = 0x80 + n div 64 mod 64
      \<and> unat d = 0x80 + n mod 64" if "0x800 \<le> n" "n < 0x10000"
  proof -
    have "\<exists>b::u8. of_nat (0xe0 + n div 4096) = b \<and> unat b = 0xe0 + n div 4096" using that by (intro byte_of_nat) simp
    moreover have "enc8 n = [of_nat (0xe0 + n div 4096), of_nat (0x80 + n div 64 mod 64), of_nat (0x80 + n mod 64)]"
      using that by (simp add: enc8_def)
    ultimately show ?thesis using tr(1,2) by metis
  qed
  show "\<exists>b c d e. enc8 n = [b, c, d, e] \<and> unat b = 0xf0 + n div 262144 \<and> unat c = 0x80 + n div 4096 mod 64
      \<and> unat d = 0x80 + n div 64 mod 64 \<and> unat e = 0x80 + n mod 64" if "0x10000 \<le> n" "n < 0x110000"
  proof -
    have "\<exists>b::u8. of_nat (0xf0 + n div 262144) = b \<and> unat b = 0xf0 + n div 262144" using that by (intro byte_of_nat) simp
    moreover have "enc8 n = [of_nat (0xf0 + n div 262144), of_nat (0x80 + n div 4096 mod 64),
        of_nat (0x80 + n div 64 mod 64), of_nat (0x80 + n mod 64)]"
      using that by (simp add: enc8_def)
    ultimately show ?thesis using tr by metis
  qed
qed

lemma u8_next_enc8:
  assumes "scalar n" and "enc8 n = b # bs"
  shows "u8_next b (bs @ rest) = (of_nat n, rest)"
proof -
  have n: "n < 0x110000" using assms(1) by (auto simp: scalar_def)
  note le = mod64_le [of n] mod64_le [of "n div 64"] mod64_le [of "n div 4096"]
  have q: "n < 0xd800 \<Longrightarrow> n div 64 < 864" "0xdfff < n \<Longrightarrow> 896 \<le> n div 64" "0x800 \<le> n \<Longrightarrow> 32 \<le> n div 64"
    "0x10000 \<le> n \<Longrightarrow> 16 \<le> n div 4096" "n div 4096 < 272"
    using n less_mult_imp_div_less [of n 864 64] div_le_mono [of 57344 n 64] div_le_mono [of 2048 n 64]
      div_le_mono [of 65536 n 4096] less_mult_imp_div_less [of n 272 4096] by simp_all
  have s: "n div 64 < 2 ^ 26" "n div 4096 < 2 ^ 26" using n less_mult_imp_div_less [of n 17408 64] q(5) by simp_all
  consider "n < 0x80" | "0x80 \<le> n" "n < 0x800" | "0x800 \<le> n" "n < 0x10000" | "0x10000 \<le> n" by linarith
  then show ?thesis
  proof cases
    case 1
    then have "unat b = n" "bs = []" using enc8_bytes(1) assms(2) by fastforce+
    then obtain cp where "u8_lead b = (0, 0x80, 0xbf, cp)" "unat cp = n" using u8_lead_cases(4) 1 by blast
    then show ?thesis using \<open>bs = []\<close> by (simp add: u8_next_def word_of_unat)
  next
    case 2
    then obtain c where b: "bs = [c]" "unat b = 0xc0 + n div 64" "unat c = 0x80 + n mod 64"
      using enc8_bytes(2) assms(2) by fastforce
    have "2 \<le> n div 64" "n div 64 \<le> 31" using div_le_mono [OF 2(1), of 64] 2(2) by simp_all
    then obtain cp where cp: "u8_lead b = (1, 0x80, 0xbf, cp)" "unat cp = n div 64"
      using u8_lead_cases(1) [of b] b(2) by auto
    obtain cp' where "u8_tail 1 0x80 0xbf cp (c # rest) = (cp', rest)" "unat cp' = n div 64 * 64 + n mod 64"
      using u8_tail_trail [OF b(3), of cp "0x80" "0xbf" 0 rest] cp(2) 2 le b(3) by auto
    then show ?thesis using cp(1) b(1) div_parts(1) [of n] by (simp add: u8_next_def word_of_unat)
  next
    case 3
    then obtain c d where b: "bs = [c, d]" "unat b = 0xe0 + n div 4096" "unat c = 0x80 + n div 64 mod 64"
      "unat d = 0x80 + n mod 64"
      using enc8_bytes(3) assms(2) by fastforce
    define lo hi :: u8 where "lo = (if unat b = 0xe0 then 0xa0 else 0x80)" and "hi = (if unat b = 0xed then 0x9f else 0xbf)"
    have "n div 4096 < 16" using 3 by simp
    then obtain cp where cp: "u8_lead b = (2, lo, hi, cp)" "unat cp = n div 4096"
      using u8_lead_cases(2) [of b] b(2) unfolding lo_def hi_def by auto
    have "unat lo \<le> unat c" unfolding lo_def using b 3 q div_parts(2) [of n] by auto
    moreover have "unat c \<le> unat hi"
    proof (cases "unat b = 0xed")
      case True
      then have "n div 4096 = 13" using b(2) by simp
      moreover have "n div 64 < 864 \<or> 896 \<le> n div 64" using q(1,2) assms(1) unfolding scalar_def by blast
      ultimately have "n div 64 mod 64 \<le> 31" using div_parts(2) [of n] le(2) by linarith
      then show ?thesis using True b(3) by (simp add: hi_def)
    qed (use b(3) le(2) in \<open>simp add: hi_def\<close>)
    ultimately obtain cp1 where 1: "u8_tail (Suc 1) lo hi cp (c # d # rest) = u8_tail 1 0x80 0xbf cp1 (d # rest)"
      "unat cp1 = n div 64"
      using u8_tail_trail [OF b(3), of cp lo hi 1 "d # rest"] cp(2) \<open>n div 4096 < 16\<close> div_parts(2) [of n] by auto
    obtain cp' where "u8_tail 1 0x80 0xbf cp1 (d # rest) = (cp', rest)" "unat cp' = n div 64 * 64 + n mod 64"
      using u8_tail_trail [OF b(4), of cp1 "0x80" "0xbf" 0 rest] 1(2) s le b(4) by auto
    then show ?thesis using 1 cp(1) b(1) div_parts(1) [of n]
      by (simp add: u8_next_def word_of_unat numeral_2_eq_2 del: u8_tail.simps)
  next
    case 4
    then obtain c d e where b: "bs = [c, d, e]" "unat b = 0xf0 + n div 262144" "unat c = 0x80 + n div 4096 mod 64"
      "unat d = 0x80 + n div 64 mod 64" "unat e = 0x80 + n mod 64"
      using enc8_bytes(4) assms(2) n by fastforce
    define lo hi :: u8 where "lo = (if unat b = 0xf0 then 0x90 else 0x80)" and "hi = (if unat b = 0xf4 then 0x8f else 0xbf)"
    have q4: "n div 262144 \<le> 4" using n by simp
    then obtain cp where cp: "u8_lead b = (3, lo, hi, cp)" "unat cp = n div 262144"
      using u8_lead_cases(3) [of b] b(2) unfolding lo_def hi_def by auto
    have "unat lo \<le> unat c" unfolding lo_def using b 4 q div_parts [of n] by auto
    moreover have "unat c \<le> unat hi"
    proof (cases "unat b = 0xf4")
      case True
      then have "n div 262144 = 4" using b(2) by simp
      then have "n div 4096 mod 64 \<le> 15" using div_parts(3) [of n] q(5) by linarith
      then show ?thesis using True b(3) by (simp add: hi_def)
    qed (use b(3) le(3) in \<open>simp add: hi_def\<close>)
    ultimately obtain cp1 where 1: "u8_tail (Suc (Suc 1)) lo hi cp (c # d # e # rest) = u8_tail (Suc 1) 0x80 0xbf cp1 (d # e # rest)"
      "unat cp1 = n div 4096"
      using u8_tail_trail [OF b(3), of cp lo hi "Suc 1" "d # e # rest"] cp(2) q4 div_parts(3) [of n] by auto
    obtain cp2 where 2: "u8_tail (Suc 1) 0x80 0xbf cp1 (d # e # rest) = u8_tail 1 0x80 0xbf cp2 (e # rest)"
      "unat cp2 = n div 64"
      using u8_tail_trail [OF b(4), of cp1 "0x80" "0xbf" 1 "e # rest"] 1(2) s le b(4) div_parts(2) [of n] by auto
    obtain cp' where "u8_tail 1 0x80 0xbf cp2 (e # rest) = (cp', rest)" "unat cp' = n div 64 * 64 + n mod 64"
      using u8_tail_trail [OF b(5), of cp2 "0x80" "0xbf" 0 rest] 2(2) s le b(5) by auto
    then show ?thesis using 1 2 cp(1) b(1) div_parts(1) [of n]
      by (simp add: u8_next_def word_of_unat numeral_3_eq_3 del: u8_tail.simps)
  qed
qed

section \<open>What the decoders deliver\<close>

lemma scalar_replacement: "scalar (unat REPLACEMENT_CHARACTER)"
  by (simp add: scalar_def REPLACEMENT_CHARACTER_def)

lemma unat_ucast_u16: "unat (ucast (u::u16) :: u32) = unat u"
  using unat_bound [of u] by (simp add: unsigned_ucast_eq take_bit_nat_eq_self)

lemma pair_value:
  assumes "0xd800 \<le> unat u" and "unat u \<le> 0xdbff" and "0xdc00 \<le> unat v" and "unat v \<le> 0xdfff"
  shows "unat (0x10000 + push_bit 10 (ucast (u::u16) - 0xd800) + (ucast (v::u16) - 0xdc00) :: u32) =
    0x10000 + (unat u - 0xd800) * 1024 + (unat v - 0xdc00)"
proof -
  have 1: "unat (ucast u - 0xd800 :: u32) = unat u - 0xd800" "unat (ucast v - 0xdc00 :: u32) = unat v - 0xdc00"
    using assms by (simp_all add: unat_sub_exact unat_ucast_u16)
  have 2: "unat (push_bit 10 (ucast u - 0xd800 :: u32)) = (unat u - 0xd800) * 1024"
    using 1(1) assms by (subst unsigned_push_bit_eq) (simp add: push_bit_eq_mult take_bit_nat_eq_self)
  have "unat (0x10000 + push_bit 10 (ucast u - 0xd800) :: u32) = 0x10000 + (unat u - 0xd800) * 1024"
    using 2 assms by (subst unat_add_exact) simp_all
  then show ?thesis using 1(2) assms by (subst unat_add_exact) simp_all
qed

lemma u16_next_scalar: "scalar (unat (fst (u16_next u rest)))"
proof (cases "0xd800 \<le> unat u \<and> unat u \<le> 0xdfff")
  case False
  then have "fst (u16_next u rest) = ucast u"
    by (auto simp: u16_next.simps Let_def word_le_nat_alt unat_ucast_u16)
  then show ?thesis using False unat_bound [of u] by (auto simp: scalar_def unat_ucast_u16)
next
  case True
  show ?thesis
  proof (cases "\<exists>v r. rest = v # r \<and> unat u \<le> 0xdbff \<and> 0xdc00 \<le> unat v \<and> unat v \<le> 0xdfff")
    case False
    then have "fst (u16_next u rest) = REPLACEMENT_CHARACTER" using True
      by (auto simp: u16_next.simps Let_def word_le_nat_alt unat_ucast_u16 split: list.splits)
    then show ?thesis by (simp add: scalar_replacement)
  next
    case 2: True
    then obtain v r where v: "rest = v # r" "unat u \<le> 0xdbff" "0xdc00 \<le> unat v" "unat v \<le> 0xdfff" by blast
    have "unat (fst (u16_next u rest)) = 0x10000 + (unat u - 0xd800) * 1024 + (unat v - 0xdc00)"
      using pair_value [OF _ v(2-4)] True v
      by (simp add: u16_next.simps Let_def word_le_nat_alt unat_ucast_u16)
    then show ?thesis using True v by (auto simp: scalar_def)
  qed
qed

lemma u8_tail_value:
  assumes "unat cp < 2 ^ 26"
  obtains (bad) "fst (u8_tail (Suc t) lo hi cp s) = REPLACEMENT_CHARACTER"
  | (step) b s' cp' where "s = b # s'" "unat lo \<le> unat b" "unat b \<le> unat hi"
    "unat cp' = unat cp * 64 + unat b mod 64" "u8_tail (Suc t) lo hi cp s = u8_tail t 0x80 0xbf cp' s'"
proof (cases s)
  case Nil
  then show ?thesis using bad by simp
next
  case (Cons b s')
  then show ?thesis using bad step u8_tail_Cons [OF assms, of lo b hi t s']
    by (cases "unat lo \<le> unat b \<and> unat b \<le> unat hi") (auto simp: word_nat)
qed

lemma u8_tail1_scalar:
  assumes "unat cp < 0x4400" and "unat cp < 0x360 \<or> 0x380 \<le> unat cp"
  shows "scalar (unat (fst (u8_tail 1 lo hi cp s)))"
proof -
  have "unat cp < 2 ^ 26" using assms(1) by simp
  then show ?thesis
  proof (cases rule: u8_tail_value [of cp 0 lo hi s])
    case (step b s' cp')
    then show ?thesis using assms mod64_le [of "unat b"] by (auto simp: scalar_def)
  qed (simp add: scalar_replacement)
qed

lemma trail_mod: "0x80 \<le> b \<Longrightarrow> b \<le> 0xbf \<Longrightarrow> b mod 64 = b - (0x80::nat)"
  by (simp add: mod_nat_eqI)

lemma u8_tail2_scalar:
  assumes "\<And>b. unat lo \<le> b \<Longrightarrow> b \<le> unat hi \<Longrightarrow> 0x80 \<le> b \<and> b \<le> 0xbf \<and>
      unat cp * 64 + (b - 0x80) < 0x4400 \<and>
      (unat cp * 64 + (b - 0x80) < 0x360 \<or> 0x380 \<le> unat cp * 64 + (b - 0x80))"
    and "unat cp < 0x4400"
  shows "scalar (unat (fst (u8_tail (Suc 1) lo hi cp s)))"
proof -
  have "unat cp < 2 ^ 26" using assms(2) by simp
  then show ?thesis
  proof (cases rule: u8_tail_value [of cp 1 lo hi s])
    case (step b s' cp')
    have *: "0x80 \<le> unat b \<and> unat b \<le> 0xbf \<and> unat cp * 64 + (unat b - 0x80) < 0x4400 \<and>
      (unat cp * 64 + (unat b - 0x80) < 0x360 \<or> 0x380 \<le> unat cp * 64 + (unat b - 0x80))"
      using assms(1) step(2,3) by blast
    then have "unat cp' = unat cp * 64 + (unat b - 0x80)" using step(4) trail_mod [of "unat b"] by simp
    then have "scalar (unat (fst (u8_tail 1 0x80 0xbf cp' s')))" using * by (intro u8_tail1_scalar) (simp_all only:)
    then show ?thesis using step(5) by simp
  qed (simp add: scalar_replacement)
qed

lemma u8_next_scalar: "scalar (unat (fst (u8_next b rest)))"
proof -
  consider "unat b < 0x80" | "0xc2 \<le> unat b" "unat b \<le> 0xdf" | "0xe0 \<le> unat b" "unat b \<le> 0xef"
    | "0xf0 \<le> unat b" "unat b \<le> 0xf4" | "0x80 \<le> unat b" "unat b < 0xc2 \<or> 0xf4 < unat b" by linarith
  then show ?thesis
  proof cases
    case 1
    then show ?thesis using u8_lead_cases(4) [of b] by (auto simp: u8_next_def scalar_def)
  next
    case 2
    then obtain cp where cp: "u8_lead b = (1, 0x80, 0xbf, cp)" "unat cp = unat b - 0xc0" using u8_lead_cases(1) by blast
    have "scalar (unat (fst (u8_tail 1 0x80 0xbf cp rest)))" by (rule u8_tail1_scalar) (use cp(2) 2 in auto)
    then show ?thesis using cp(1) by (simp add: u8_next_def)
  next
    case 3
    define lo hi :: u8 where "lo = (if unat b = 0xe0 then 0xa0 else 0x80)" and "hi = (if unat b = 0xed then 0x9f else 0xbf)"
    obtain cp where cp: "u8_lead b = (2, lo, hi, cp)" "unat cp = unat b - 0xe0"
      using u8_lead_cases(2) [OF 3] unfolding lo_def hi_def by blast
    have "scalar (unat (fst (u8_tail (Suc 1) lo hi cp rest)))"
    proof (rule u8_tail2_scalar)
      fix c assume "unat lo \<le> c" "c \<le> unat hi"
      then have c: "0x80 \<le> c" "c \<le> 0xbf" "unat b = 0xed \<longrightarrow> c \<le> 0x9f"
        by (simp_all add: lo_def hi_def split: if_splits)
      then show "0x80 \<le> c \<and> c \<le> 0xbf \<and> unat cp * 64 + (c - 0x80) < 0x4400 \<and>
          (unat cp * 64 + (c - 0x80) < 0x360 \<or> 0x380 \<le> unat cp * 64 + (c - 0x80))"
        using cp(2) 3 by (cases "unat cp \<le> 12"; cases "unat cp = 13") auto
    qed (use cp(2) 3 in simp)
    then show ?thesis using cp(1) by (simp add: u8_next_def numeral_2_eq_2 del: u8_tail.simps)
  next
    case 4
    define lo hi :: u8 where "lo = (if unat b = 0xf0 then 0x90 else 0x80)" and "hi = (if unat b = 0xf4 then 0x8f else 0xbf)"
    obtain cp where cp: "u8_lead b = (3, lo, hi, cp)" "unat cp = unat b - 0xf0"
      using u8_lead_cases(3) [OF 4] unfolding lo_def hi_def by blast
    have "unat cp < 2 ^ 26" using cp(2) 4 by simp
    then have "scalar (unat (fst (u8_tail (Suc (Suc 1)) lo hi cp rest)))"
    proof (cases rule: u8_tail_value [of cp "Suc 1" lo hi rest])
      case (step c s' cp')
      have c: "0x80 \<le> unat c" "unat c \<le> 0xbf" "unat b = 0xf0 \<longrightarrow> 0x90 \<le> unat c" "unat b = 0xf4 \<longrightarrow> unat c \<le> 0x8f"
        using step(2,3) by (simp_all add: lo_def hi_def split: if_splits)
      have "unat cp' = unat cp * 64 + (unat c - 0x80)" using step(4) trail_mod [OF c(1,2)] by simp
      then have cp': "16 \<le> unat cp'" "unat cp' < 272" using c cp(2) 4 by linarith+
      have "scalar (unat (fst (u8_tail (Suc 1) 0x80 0xbf cp' s')))"
        by (rule u8_tail2_scalar) (use cp' in auto)
      then show ?thesis using step(5) by simp
    qed (simp add: scalar_replacement)
    then show ?thesis using cp(1) by (simp add: u8_next_def numeral_3_eq_3 del: u8_tail.simps)
  next
    case 5
    then show ?thesis using u8_lead_bad [of b] by (simp add: u8_next_def scalar_replacement)
  qed
qed

section \<open>The loops\<close>

definition units8 :: "nat list \<Rightarrow> u8 list" where
  "units8 ns = concat (map enc8 ns)"

definition units16 :: "nat list \<Rightarrow> u16 list" where
  "units16 ns = concat (map enc16 ns)"

lemma scalar_bound: "scalar n \<Longrightarrow> n < 0x110000"
  by (auto simp: scalar_def)

text \<open>Whatever the source, what is stored is whole code points, and leaves room for the NUL.\<close>

lemma u16_loop_fits:
  assumes "u16_loop d src out = (c, out')" and "length out < d \<or> d = 0 \<and> out = []"
  shows "\<exists>ns. (\<forall>n\<in>set ns. scalar n) \<and> out' = out @ units8 ns \<and> (length out' < d \<or> d = 0 \<and> out' = [])"
  using assms
proof (induction d src out rule: u16_loop.induct)
  case (2 d u src out)
  obtain cp rest where cp: "u16_next u src = (cp, rest)" by (metis surj_pair)
  have sc: "scalar (unat cp)" using u16_next_scalar [of u src] cp by simp
  have put: "u8_put cp = enc8 (unat cp)" using u8_put_enc8 scalar_bound [OF sc] by blast
  show ?case
  proof (cases "u = 0 \<or> d - length out \<le> u8_len cp")
    case True
    then have "out' = out" using "2.prems"(1) cp by (auto split: if_splits)
    then show ?thesis using "2.prems"(2) by (intro exI [of _ "[]"]) (simp add: units8_def)
  next
    case False
    then have l: "u16_loop d rest (out @ enc8 (unat cp)) = (c, out')" "length (out @ enc8 (unat cp)) < d"
      using "2.prems"(1) cp put by (auto simp: length_enc8)
    obtain ns where ns: "\<forall>n\<in>set ns. scalar n" "out' = (out @ enc8 (unat cp)) @ units8 ns" "length out' < d \<or> d = 0 \<and> out' = []"
      using "2.IH" [OF _ cp [symmetric] refl] False l put by auto
    then show ?thesis using sc by (intro exI [of _ "unat cp # ns"]) (simp add: units8_def)
  qed
qed (auto simp: units8_def intro: exI [of _ "[]"])

lemma u8_loop_fits:
  assumes "u8_loop d src out = (c, out')" and "length out < d \<or> d = 0 \<and> out = []"
  shows "\<exists>ns. (\<forall>n\<in>set ns. scalar n) \<and> out' = out @ units16 ns \<and> (length out' < d \<or> d = 0 \<and> out' = [])"
  using assms
proof (induction d src out rule: u8_loop.induct)
  case (2 d u src out)
  obtain cp rest where cp: "u8_next u src = (cp, rest)" by (metis surj_pair)
  have sc: "scalar (unat cp)" using u8_next_scalar [of u src] cp by simp
  have put: "u16_put cp = enc16 (unat cp)" using u16_put_enc16 scalar_bound [OF sc] by blast
  show ?case
  proof (cases "u = 0 \<or> d - length out \<le> length (enc16 (unat cp))")
    case True
    then have "out' = out" using "2.prems"(1) cp by (auto simp: length_enc16 Let_def split: if_splits)
    then show ?thesis using "2.prems"(2) by (intro exI [of _ "[]"]) (simp add: units16_def)
  next
    case False
    then have l: "u8_loop d rest (out @ enc16 (unat cp)) = (c, out')" "length (out @ enc16 (unat cp)) < d"
      using "2.prems"(1) cp put by (auto simp: length_enc16 Let_def)
    obtain ns where ns: "\<forall>n\<in>set ns. scalar n" "out' = (out @ enc16 (unat cp)) @ units16 ns" "length out' < d \<or> d = 0 \<and> out' = []"
      using "2.IH" [OF _ cp [symmetric] refl refl] False l put by (auto simp: length_enc16)
    then show ?thesis using sc by (intro exI [of _ "unat cp # ns"]) (simp add: units16_def)
  qed
qed (auto simp: units16_def intro: exI [of _ "[]"])

definition text_ok :: "nat list \<Rightarrow> bool" where
  "text_ok ns \<longleftrightarrow> (\<forall>n\<in>set ns. scalar n \<and> n \<noteq> 0)"

lemma enc16_first:
  assumes "scalar n" and "n \<noteq> 0"
  obtains u us where "enc16 n = u # us" "u \<noteq> 0"
proof -
  have n: "n < 0x110000" using scalar_bound [OF assms(1)] .
  have "\<exists>u us. enc16 n = u # us \<and> unat u \<noteq> 0"
  proof (cases "n < 0x10000")
    case True
    then have "unat (of_nat n :: u16) = n" by (intro of_nat_inverse [OF refl]) simp
    then show ?thesis using True assms(2) by (simp add: enc16_def)
  next
    case False
    have "unat (of_nat (0xd800 + (n - 0x10000) div 1024) :: u16) = 0xd800 + (n - 0x10000) div 1024"
      using n by (intro of_nat_inverse [OF refl]) auto
    then have "unat (of_nat (0xd800 + (n - 0x10000) div 1024) :: u16) \<noteq> 0" by simp
    then show ?thesis using False unfolding enc16_def by (simp only: if_False) blast
  qed
  then show ?thesis using that by (metis unat_0)
qed

lemma enc8_first:
  assumes "scalar n" and "n \<noteq> 0"
  obtains b bs where "enc8 n = b # bs" "b \<noteq> 0"
proof -
  have n: "n < 0x110000" using scalar_bound [OF assms(1)] .
  consider "n < 0x80" | "0x80 \<le> n" "n < 0x800" | "0x800 \<le> n" "n < 0x10000" | "0x10000 \<le> n" by linarith
  then have "\<exists>b bs. enc8 n = b # bs \<and> unat b \<noteq> 0"
    using enc8_bytes [of n] n assms(2) by cases auto
  then show ?thesis using that by (metis unat_0)
qed

lemma unat_of_scalar: "scalar n \<Longrightarrow> unat (of_nat n :: u32) = n"
  using scalar_bound [of n] by (simp add: of_nat_inverse)

lemma u16_loop_units:
  assumes "text_ok ns" and "length out + length (units8 ns) < d"
  shows "u16_loop d (units16 ns) out = (True, out @ units8 ns)"
  using assms
proof (induction ns arbitrary: out)
  case (Cons n ns)
  then have n: "scalar n" "n \<noteq> 0" and ns: "text_ok ns" by (simp_all add: text_ok_def)
  obtain u us where u: "enc16 n = u # us" "u \<noteq> 0" using enc16_first [OF n] .
  note un = unat_of_scalar [OF n(1)]
  have l: "u8_len (of_nat n) = length (enc8 n)" using length_enc8 [of "of_nat n"] un by simp
  have p: "u8_put (of_nat n) = enc8 n" using u8_put_enc8 [of "of_nat n"] un scalar_bound [OF n(1)] by simp
  have "u16_loop d (units16 ns) (out @ enc8 n) = (True, (out @ enc8 n) @ units8 ns)"
    using Cons.IH [OF ns] Cons.prems(2) by (simp add: units8_def)
  then show ?case
    using u16_next_enc16 [OF n(1) u(1), of "units16 ns"] u l p Cons.prems(2) by (simp add: units16_def units8_def)
qed (simp add: units8_def units16_def)

lemma u8_loop_units:
  assumes "text_ok ns" and "length out + length (units16 ns) < d"
  shows "u8_loop d (units8 ns) out = (True, out @ units16 ns)"
  using assms
proof (induction ns arbitrary: out)
  case (Cons n ns)
  then have n: "scalar n" "n \<noteq> 0" and ns: "text_ok ns" by (simp_all add: text_ok_def)
  obtain b bs where b: "enc8 n = b # bs" "b \<noteq> 0" using enc8_first [OF n] .
  note un = unat_of_scalar [OF n(1)]
  have l: "(if (0x10000::u32) \<le> of_nat n then 2 else 1) = length (enc16 n)"
    using length_enc16 [of "of_nat n"] un by simp
  have p: "u16_put (of_nat n) = enc16 n" using u16_put_enc16 [of "of_nat n"] un scalar_bound [OF n(1)] by simp
  have "u8_loop d (units8 ns) (out @ enc16 n) = (True, (out @ enc16 n) @ units16 ns)"
    using Cons.IH [OF ns] Cons.prems(2) by (simp add: units16_def)
  then show ?case
    using u8_next_enc8 [OF n(1) b(1), of "units8 ns"] b l p Cons.prems(2)
    by (simp add: units16_def units8_def Let_def)
qed (simp add: units8_def units16_def)

text \<open>
  C21. UTF-16 and UTF-8 round trip. For any text of Unicode scalar values without a NUL, and
  destinations with room for it and the terminator, converting its UTF-16 form stores its UTF-8
  form and converting that stores its UTF-16 form again, each followed by a NUL, with all of
  the source converted.
\<close>

theorem utf_roundtrip:
  assumes "text_ok ns" and "length (units8 ns) < length d8" and "length (units16 ns) < length d16"
  shows "utf16_to_utf8 d8 (units16 ns) =
      (True, units8 ns @ 0 # drop (Suc (length (units8 ns))) d8, length (units8 ns))
    \<and> utf8_to_utf16 d16 (units8 ns) =
      (True, units16 ns @ 0 # drop (Suc (length (units16 ns))) d16, length (units16 ns))"
  using u16_loop_units [OF assms(1), of "[]"] u8_loop_units [OF assms(1), of "[]"] assms(2,3)
  by (auto simp: utf16_to_utf8_def utf8_to_utf16_def finish_def)

theorem utf_roundtrip_witness:
  "utf16_to_utf8 (replicate 9 0xff) [0x41, 0x20ac, 0xd83d, 0xde00] =
     (True, [0x41, 0xe2, 0x82, 0xac, 0xf0, 0x9f, 0x98, 0x80, 0], 8)"
proof -
  have "units16 [0x41, 0x20ac, 0x1f600] = [0x41, 0x20ac, 0xd83d, 0xde00]"
    "units8 [0x41, 0x20ac, 0x1f600] = [0x41, 0xe2, 0x82, 0xac, 0xf0, 0x9f, 0x98, 0x80]"
    by (simp_all add: units16_def units8_def enc16_def enc8_def)
  then show ?thesis
    using utf_roundtrip [of "[0x41, 0x20ac, 0x1f600]" "replicate 9 0xff" "replicate 9 0"]
    by (simp add: text_ok_def scalar_def)
qed

text \<open>
  C22. Whatever the source, ill-formed sequences included, both conversions stay within the
  destination: its length is unchanged, what was stored is followed by a NUL inside it and by
  what was there before, and what was stored is the encoding of Unicode scalar values, never
  half a code point.
\<close>

theorem utf_output_wellformed:
  "(d8 \<noteq> [] \<longrightarrow> (\<exists>c ns. (\<forall>n\<in>set ns. scalar n) \<and> length (units8 ns) < length d8 \<and>
      utf16_to_utf8 d8 s16 = (c, units8 ns @ 0 # drop (Suc (length (units8 ns))) d8, length (units8 ns))))
   \<and> (d16 \<noteq> [] \<longrightarrow> (\<exists>c ns. (\<forall>n\<in>set ns. scalar n) \<and> length (units16 ns) < length d16 \<and>
      utf8_to_utf16 d16 s8 = (c, units16 ns @ 0 # drop (Suc (length (units16 ns))) d16, length (units16 ns))))"
proof (intro conjI impI)
  assume "d8 \<noteq> []"
  moreover obtain c out where r: "u16_loop (length d8) s16 [] = (c, out)" by (metis surj_pair)
  ultimately obtain ns where "\<forall>n\<in>set ns. scalar n" "out = units8 ns" "length out < length d8"
    using u16_loop_fits [OF r] by auto
  then show "\<exists>c ns. (\<forall>n\<in>set ns. scalar n) \<and> length (units8 ns) < length d8 \<and>
      utf16_to_utf8 d8 s16 = (c, units8 ns @ 0 # drop (Suc (length (units8 ns))) d8, length (units8 ns))"
    using r \<open>d8 \<noteq> []\<close> by (auto simp: utf16_to_utf8_def finish_def)
next
  assume "d16 \<noteq> []"
  moreover obtain c out where r: "u8_loop (length d16) s8 [] = (c, out)" by (metis surj_pair)
  ultimately obtain ns where "\<forall>n\<in>set ns. scalar n" "out = units16 ns" "length out < length d16"
    using u8_loop_fits [OF r] by auto
  then show "\<exists>c ns. (\<forall>n\<in>set ns. scalar n) \<and> length (units16 ns) < length d16 \<and>
      utf8_to_utf16 d16 s8 = (c, units16 ns @ 0 # drop (Suc (length (units16 ns))) d16, length (units16 ns))"
    using r \<open>d16 \<noteq> []\<close> by (auto simp: utf8_to_utf16_def finish_def)
qed

theorem utf_output_wellformed_witness:
  "\<exists>c ns. (\<forall>n\<in>set ns. scalar n) \<and>
     utf8_to_utf16 [7, 7, 7] [0xed, 0xa0, 0x80, 0x41] = (c, units16 ns @ 0 # drop (Suc (length (units16 ns))) [7, 7, 7], length (units16 ns))"
  using utf_output_wellformed [of "[]" "[]" "[7, 7, 7]" "[0xed, 0xa0, 0x80, 0x41]"] by auto

end
