(* ===== verification/Blake2b.thy ===== *)
theory Blake2b
  imports Limine_Bytes
begin

text \<open>
  BLAKE2b, \<^verbatim>\<open>common/crypt/blake2b.c\<close>: the hash that configuration and boot files are
  checked against, and the filter that hashes a file while it is read.
\<close>

section \<open>Compression\<close>

definition blake2b_iv :: "u64 list" where
  "blake2b_iv =
    [0x6a09e667f3bcc908, 0xbb67ae8584caa73b, 0x3c6ef372fe94f82b, 0xa54ff53a5f1d36f1,
     0x510e527fade682d1, 0x9b05688c2b3e6c1f, 0x1f83d9abfb41bd6b, 0x5be0cd19137e2179]"

definition blake2b_sigma :: "nat list list" where
  "blake2b_sigma =
    [[ 0,  1,  2,  3,  4,  5,  6,  7,  8,  9, 10, 11, 12, 13, 14, 15],
     [14, 10,  4,  8,  9, 15, 13,  6,  1, 12,  0,  2, 11,  7,  5,  3],
     [11,  8, 12,  0,  5,  2, 15, 13, 10, 14,  3,  6,  7,  1,  9,  4],
     [ 7,  9,  3,  1, 13, 12, 11, 14,  2,  6,  5, 10,  4,  0, 15,  8],
     [ 9,  0,  5,  7,  2,  4, 10, 15, 14,  1, 11, 12,  6,  8,  3, 13],
     [ 2, 12,  6, 10,  0, 11,  8,  3,  4, 13,  7,  5, 15, 14,  1,  9],
     [12,  5,  1, 15, 14, 13,  4, 10,  0,  7,  6,  3,  9,  2,  8, 11],
     [13, 11,  7, 14, 12,  1,  3,  9,  5,  0, 15,  4,  8,  6,  2, 10],
     [ 6, 15, 14,  9, 11,  3,  0,  8, 12,  2, 13,  7,  1,  4, 10,  5],
     [10,  2,  8,  4,  7,  6,  1,  5, 15, 11,  9, 14,  3, 12, 13,  0],
     [ 0,  1,  2,  3,  4,  5,  6,  7,  8,  9, 10, 11, 12, 13, 14, 15],
     [14, 10,  4,  8,  9, 15, 13,  6,  1, 12,  0,  2, 11,  7,  5,  3]]"

text \<open>
  The buffer is the list of its 128 bytes, of which the first \<open>st_buf_len\<close> are pending input.
  \<^verbatim>\<open>last_node\<close> is never read.
\<close>

record blake2b_state =
  st_h :: "u64 list"
  st_t0 :: u64
  st_t1 :: u64
  st_f0 :: u64
  st_f1 :: u64
  st_buf :: "u8 list"
  st_buf_len :: nat

definition load64_le :: "u8 list \<Rightarrow> u64" where
  "load64_le src = le_word (take 8 src)"

definition store64_le :: "u64 \<Rightarrow> u8 list" where
  "store64_le val = le_bytes 8 val"

definition blake2b_increment_counter :: "blake2b_state \<Rightarrow> u64 \<Rightarrow> blake2b_state" where
  "blake2b_increment_counter st inc =
     (let t0 = st_t0 st + inc
      in st\<lparr>st_t0 := t0, st_t1 := st_t1 st + (if t0 < inc then 1 else 0)\<rparr>)"

definition rotr64 :: "u64 \<Rightarrow> nat \<Rightarrow> u64" where
  "rotr64 w c = or (drop_bit c w) (push_bit (64 - c) w)"

definition blake2b_G :: "u64 list \<Rightarrow> nat \<Rightarrow> nat \<Rightarrow> nat \<Rightarrow> nat \<Rightarrow> nat \<Rightarrow> nat \<Rightarrow> u64 list \<Rightarrow> u64 list" where
  "blake2b_G m r i a b c d v =
     (let va = v ! a + v ! b + m ! (blake2b_sigma ! r ! (2 * i));
          vd = rotr64 (xor (v ! d) va) 32;
          vc = v ! c + vd;
          vb = rotr64 (xor (v ! b) vc) 24;
          va = va + vb + m ! (blake2b_sigma ! r ! (2 * i + 1));
          vd = rotr64 (xor vd va) 16;
          vc = vc + vd;
          vb = rotr64 (xor vb vc) 63
      in v[a := va, b := vb, c := vc, d := vd])"

definition blake2b_ROUND :: "u64 list \<Rightarrow> nat \<Rightarrow> u64 list \<Rightarrow> u64 list" where
  "blake2b_ROUND m r v =
     (let v = blake2b_G m r 0 0 4 8 12 v;
          v = blake2b_G m r 1 1 5 9 13 v;
          v = blake2b_G m r 2 2 6 10 14 v;
          v = blake2b_G m r 3 3 7 11 15 v;
          v = blake2b_G m r 4 0 5 10 15 v;
          v = blake2b_G m r 5 1 6 11 12 v;
          v = blake2b_G m r 6 2 7 8 13 v;
          v = blake2b_G m r 7 3 4 9 14 v
      in v)"

definition blake2b_compress :: "blake2b_state \<Rightarrow> u8 list \<Rightarrow> blake2b_state" where
  "blake2b_compress st block =
     (let m = map (\<lambda>i. load64_le (drop (i * 8) block)) [0..<16];
          v = map (\<lambda>i. st_h st ! i) [0..<8] @
            [blake2b_iv ! 0, blake2b_iv ! 1, blake2b_iv ! 2, blake2b_iv ! 3,
             xor (blake2b_iv ! 4) (st_t0 st), xor (blake2b_iv ! 5) (st_t1 st),
             xor (blake2b_iv ! 6) (st_f0 st), xor (blake2b_iv ! 7) (st_f1 st)];
          v = fold (blake2b_ROUND m) [0..<12] v
      in st\<lparr>st_h := map (\<lambda>i. xor (xor (st_h st ! i) (v ! i)) (v ! (i + 8))) [0..<8]\<rparr>)"

section \<open>Hashing\<close>

definition blake2b_param :: "u8 list" where
  "blake2b_param = [64, 0, 1, 1] @ replicate 60 0"

definition blake2b_init :: blake2b_state where
  "blake2b_init =
     \<lparr>st_h = map (\<lambda>i. xor (blake2b_iv ! i) (load64_le (drop (8 * i) blake2b_param))) [0..<8],
      st_t0 = 0, st_t1 = 0, st_f0 = 0, st_f1 = 0, st_buf = replicate 128 0, st_buf_len = 0\<rparr>"

text \<open>\<^verbatim>\<open>memcpy(buf + off, src, n)\<close> with all of the source.\<close>

definition put_bytes :: "u8 list \<Rightarrow> nat \<Rightarrow> u8 list \<Rightarrow> u8 list" where
  "put_bytes buf off src = take off buf @ src @ drop (off + length src) buf"

function update_blocks :: "blake2b_state \<Rightarrow> u8 list \<Rightarrow> blake2b_state \<times> u8 list" where
  "update_blocks st in_bytes =
     (if length in_bytes > 128
      then update_blocks (blake2b_compress (blake2b_increment_counter st 128) (take 128 in_bytes)) (drop 128 in_bytes)
      else (st, in_bytes))"
  by pat_completeness auto
termination
  by (relation "measure (\<lambda>(st, b). length b)") auto

declare update_blocks.simps [simp del]

definition blake2b_update :: "blake2b_state \<Rightarrow> u8 list \<Rightarrow> blake2b_state" where
  "blake2b_update st in_bytes =
     (if in_bytes = [] then st
      else
        let left = st_buf_len st; fill = 128 - left;
            (st, in_bytes) =
              (if length in_bytes > fill then
                 let st = st\<lparr>st_buf_len := 0, st_buf := put_bytes (st_buf st) left (take fill in_bytes)\<rparr>;
                     st = blake2b_increment_counter st 128;
                     st = blake2b_compress st (st_buf st)
                 in update_blocks st (drop fill in_bytes)
               else (st, in_bytes))
        in st\<lparr>st_buf := put_bytes (st_buf st) (st_buf_len st) in_bytes,
              st_buf_len := st_buf_len st + length in_bytes\<rparr>)"

definition blake2b_final :: "blake2b_state \<Rightarrow> blake2b_state \<times> u8 list" where
  "blake2b_final st =
     (let st = blake2b_increment_counter st (of_nat (st_buf_len st));
          st = st\<lparr>st_f0 := - 1\<rparr>;
          st = st\<lparr>st_buf := put_bytes (st_buf st) (st_buf_len st) (replicate (128 - st_buf_len st) 0)\<rparr>;
          st = blake2b_compress st (st_buf st)
      in (st, concat (map (\<lambda>i. store64_le (st_h st ! i)) [0..<8])))"

definition blake2b :: "u8 list \<Rightarrow> u8 list" where
  "blake2b in_bytes = snd (blake2b_final (blake2b_update blake2b_init in_bytes))"

section \<open>The filter\<close>

text \<open>
  A file that hashes what is read from it. The source file and its \<^verbatim>\<open>fread\<close>, which returns
  the bytes it delivered, are parameters. The copies of the path and of the volume that
  \<^verbatim>\<open>blake2b_open\<close> makes are not part of the handle.
\<close>

record 'src blake2b_handle =
  bh_source :: 'src
  bh_state :: blake2b_state
  bh_pos :: u64
  bh_finalized :: bool
  bh_digest :: "u8 list"

type_synonym 'src fread = "'src \<Rightarrow> u64 \<Rightarrow> u64 \<Rightarrow> u8 list \<times> 'src"

definition blake2b_open :: "'src \<Rightarrow> 'src blake2b_handle" where
  "blake2b_open source =
     \<lparr>bh_source = source, bh_state = blake2b_init, bh_pos = 0, bh_finalized = False, bh_digest = replicate 64 0\<rparr>"

definition blake2b_read ::
    "'src fread \<Rightarrow> 'src blake2b_handle \<Rightarrow> u64 \<Rightarrow> u64 \<Rightarrow> (u8 list \<times> 'src blake2b_handle) res" where
  "blake2b_read fread h loc cnt =
     (if loc \<noteq> bh_pos h then Inl (Panic ''blake2b filter: non-sequential read (pos=%X, loc=%X)'')
      else case fread (bh_source h) loc cnt of (got, source) \<Rightarrow>
        Inr (got, h\<lparr>bh_source := source, bh_state := blake2b_update (bh_state h) got,
                    bh_pos := bh_pos h + of_nat (length got)\<rparr>))"

definition blake2b_check_hash :: "'src blake2b_handle \<Rightarrow> u8 list \<Rightarrow> bool \<times> 'src blake2b_handle" where
  "blake2b_check_hash h reference_hash =
     (let h = (if bh_finalized h then h
               else case blake2b_final (bh_state h) of (st, digest) \<Rightarrow>
                 h\<lparr>bh_state := st, bh_digest := digest, bh_finalized := True\<rparr>)
      in (bh_digest h = take 64 reference_hash, h))"

section \<open>RFC 7693\<close>

text \<open>
  The algorithm of RFC 7693, section 3, without a key: the mixing function with rotations, the
  compression function of a block with the number of bytes so far and the flag for the last
  block, and the loop over all blocks but the last.
\<close>

definition rfc_G :: "u64 list \<Rightarrow> nat \<Rightarrow> nat \<Rightarrow> nat \<Rightarrow> nat \<Rightarrow> u64 \<Rightarrow> u64 \<Rightarrow> u64 list" where
  "rfc_G v a b c d x y =
     (let v = v[a := v ! a + v ! b + x];
          v = v[d := word_rotr 32 (xor (v ! d) (v ! a))];
          v = v[c := v ! c + v ! d];
          v = v[b := word_rotr 24 (xor (v ! b) (v ! c))];
          v = v[a := v ! a + v ! b + y];
          v = v[d := word_rotr 16 (xor (v ! d) (v ! a))];
          v = v[c := v ! c + v ! d];
          v = v[b := word_rotr 63 (xor (v ! b) (v ! c))]
      in v)"

definition rfc_round :: "u64 list \<Rightarrow> nat \<Rightarrow> u64 list \<Rightarrow> u64 list" where
  "rfc_round m i v =
     (let s = blake2b_sigma ! (i mod 10);
          v = rfc_G v 0 4 8 12 (m ! (s ! 0)) (m ! (s ! 1));
          v = rfc_G v 1 5 9 13 (m ! (s ! 2)) (m ! (s ! 3));
          v = rfc_G v 2 6 10 14 (m ! (s ! 4)) (m ! (s ! 5));
          v = rfc_G v 3 7 11 15 (m ! (s ! 6)) (m ! (s ! 7));
          v = rfc_G v 0 5 10 15 (m ! (s ! 8)) (m ! (s ! 9));
          v = rfc_G v 1 6 11 12 (m ! (s ! 10)) (m ! (s ! 11));
          v = rfc_G v 2 7 8 13 (m ! (s ! 12)) (m ! (s ! 13));
          v = rfc_G v 3 4 9 14 (m ! (s ! 14)) (m ! (s ! 15))
      in v)"

definition rfc_F :: "u64 list \<Rightarrow> u8 list \<Rightarrow> nat \<Rightarrow> bool \<Rightarrow> u64 list" where
  "rfc_F h block t f =
     (let m = map (\<lambda>i. le_word (field block (8 * i) 8)) [0..<16];
          v = h @ blake2b_iv;
          v = v[12 := xor (v ! 12) (of_nat (t mod 2 ^ 64))];
          v = v[13 := xor (v ! 13) (of_nat (t div 2 ^ 64))];
          v = (if f then v[14 := not (v ! 14)] else v);
          v = fold (rfc_round m) [0..<12] v
      in map (\<lambda>i. xor (xor (h ! i) (v ! i)) (v ! (i + 8))) [0..<8])"

definition rfc_start :: "u64 list" where
  "rfc_start = blake2b_iv[0 := xor (blake2b_iv ! 0) (xor 0x01010000 64)]"

function rfc_blocks :: "u64 list \<Rightarrow> nat \<Rightarrow> u8 list \<Rightarrow> u64 list \<times> nat \<times> u8 list" where
  "rfc_blocks h n msg =
     (if length msg > 128 then rfc_blocks (rfc_F h (take 128 msg) (n + 128) False) (n + 128) (drop 128 msg)
      else (h, n, msg))"
  by pat_completeness auto
termination
  by (relation "measure (\<lambda>(h, n, msg). length msg)") auto

declare rfc_blocks.simps [simp del]

definition rfc_finish :: "u64 list \<times> nat \<times> u8 list \<Rightarrow> u8 list" where
  "rfc_finish r =
     (case r of (h, n, rest) \<Rightarrow>
        concat (map (le_bytes 8) (rfc_F h (rest @ replicate (128 - length rest) 0) (n + length rest) True)))"

definition rfc_blake2b :: "u8 list \<Rightarrow> u8 list" where
  "rfc_blake2b msg = rfc_finish (rfc_blocks rfc_start 0 msg)"

subsection \<open>Compression\<close>

lemma rotr64_word_rotr:
  assumes "0 < n" and "n < 64"
  shows "rotr64 w n = word_rotr n w"
proof (rule bit_word_eqI)
  fix k assume k: "k < LENGTH(64)"
  have "(k + n) mod 64 = (if k + n < 64 then k + n else k + n - 64)"
    using k assms by (simp add: le_mod_geq)
  then show "bit (rotr64 w n) k = bit (word_rotr n w) k"
    using assms k
    by (auto simp: rotr64_def bit_simps bit_word_rotr_iff add.commute dest: bit_imp_le_length)
qed

lemma blake2b_G_rfc:
  assumes "length v = 16" and "distinct [a, b, c, d]" and "set [a, b, c, d] \<subseteq> {..<16}"
  shows "blake2b_G m r i a b c d v =
    rfc_G v a b c d (m ! (blake2b_sigma ! r ! (2 * i))) (m ! (blake2b_sigma ! r ! (2 * i + 1)))"
proof -
  have ne: "a \<noteq> b" "a \<noteq> c" "a \<noteq> d" "b \<noteq> c" "b \<noteq> d" "c \<noteq> d" "b \<noteq> a" "c \<noteq> a" "d \<noteq> a" "c \<noteq> b" "d \<noteq> b" "d \<noteq> c"
    and lt: "a < 16" "b < 16" "c < 16" "d < 16" using assms(2,3) by auto
  have up: "v[a := p, d := q, c := r, b := s, a := w, d := z, c := y, b := x] = v[a := w, b := x, c := y, d := z]"
    for p q r s w x y z
    using ne lt assms(1) by (intro nth_equalityI) (auto simp: nth_list_update)
  show ?thesis
    unfolding blake2b_G_def rfc_G_def Let_def
    by (simp add: ne lt assms(1) up rotr64_word_rotr del: list_update_overwrite)
qed

lemma length_rfc_G [simp]: "length (rfc_G v a b c d x y) = length v"
  by (simp add: rfc_G_def Let_def)

lemma length_rfc_round [simp]: "length (rfc_round m i v) = length v"
  by (simp add: rfc_round_def Let_def)

lemma sigma_mod: "i < 12 \<Longrightarrow> blake2b_sigma ! i = blake2b_sigma ! (i mod 10)"
  by (auto simp: blake2b_sigma_def mod_if numeral_2_eq_2 nth_Cons' split: if_splits)

lemma blake2b_ROUND_rfc:
  assumes "length v = 16" and "i < 12"
  shows "blake2b_ROUND m i v = rfc_round m i v"
  using assms unfolding blake2b_ROUND_def rfc_round_def Let_def
  by (simp add: blake2b_G_rfc sigma_mod [OF assms(2)])

lemma fold_rounds:
  "length v = 16 \<Longrightarrow> \<forall>i\<in>set is. i < 12 \<Longrightarrow> fold (blake2b_ROUND m) is v = fold (rfc_round m) is v"
  by (induction "is" arbitrary: v) (simp_all add: blake2b_ROUND_rfc)

definition counter :: "blake2b_state \<Rightarrow> nat" where
  "counter st = unat (st_t0 st) + 2 ^ 64 * unat (st_t1 st)"

lemma counter_words:
  "st_t0 st = of_nat (counter st mod 2 ^ 64)" "st_t1 st = of_nat (counter st div 2 ^ 64)"
  using unat_bound [of "st_t0 st"] unat_bound [of "st_t1 st"] by (simp_all add: counter_def)

lemma list_of_nths: "length xs = n \<Longrightarrow> map ((!) xs) [0..<n] = xs"
  by (auto intro: nth_equalityI)

lemma compress_rfc:
  assumes "length (st_h st) = 8" and "st_f0 st = (if f then - 1 else 0)" and "st_f1 st = 0"
  shows "st_h (blake2b_compress st block) = rfc_F (st_h st) block (counter st) f"
proof -
  let ?h = "st_h st" and ?iv = "blake2b_iv"
  let ?m = "map (\<lambda>i. load64_le (drop (i * 8) block)) [0..<16]"
  let ?v = "map (\<lambda>i. ?h ! i) [0..<8] @ [?iv ! 0, ?iv ! 1, ?iv ! 2, ?iv ! 3,
      xor (?iv ! 4) (st_t0 st), xor (?iv ! 5) (st_t1 st), xor (?iv ! 6) (st_f0 st), xor (?iv ! 7) (st_f1 st)]"
  let ?w = "(?h @ ?iv)[12 := xor (?iv ! 4) (st_t0 st), 13 := xor (?iv ! 5) (st_t1 st)]"
  have m: "?m = map (\<lambda>i. le_word (field block (8 * i) 8)) [0..<16]"
    by (simp add: load64_le_def field_def mult.commute)
  have v: "?v = (if f then ?w[14 := not (?iv ! 6)] else ?w)"
    using assms(2,3) by (simp add: list_of_nths [OF assms(1)] blake2b_iv_def assms(1) list_update_append)
  have fo: "fold (blake2b_ROUND ?m) [0..<12] ?v = fold (rfc_round ?m) [0..<12] ?v"
    by (rule fold_rounds) simp_all
  have nths: "(?h @ ?iv) ! 12 = ?iv ! 4" "(?h @ ?iv)[12 := x] ! 13 = ?iv ! 5"
    "(?h @ ?iv)[12 := x, 13 := y] ! 14 = ?iv ! 6" for x y
    by (simp_all add: nth_append assms(1))
  show ?thesis
    unfolding blake2b_compress_def rfc_F_def Let_def blake2b_state.simps fo
    unfolding m v nths counter_words [symmetric] by (simp add: if_distrib)
qed

lemma counter_increment:
  assumes "counter st + unat inc < 2 ^ 128"
  shows "counter (blake2b_increment_counter st inc) = counter st + unat inc"
proof -
  have t1: "unat (st_t1 st) + 1 < 2 ^ 64" if "2 ^ 64 \<le> unat (st_t0 st) + unat inc"
  proof -
    have "2 ^ 64 * (unat (st_t1 st) + 1) \<le> counter st + unat inc" using that by (simp add: counter_def)
    also have "\<dots> < 2 ^ 64 * 2 ^ 64" using assms by simp
    finally show ?thesis by simp
  qed
  show ?thesis
  proof (cases "unat (st_t0 st) + unat inc < 2 ^ 64")
    case True
    then have "unat (st_t0 st + inc) = unat (st_t0 st) + unat inc" by (simp add: unat_add_exact)
    then show ?thesis by (simp add: blake2b_increment_counter_def counter_def Let_def word_less_nat_alt)
  next
    case False
    then have o: "unat (st_t0 st + inc) = unat (st_t0 st) + unat inc - 2 ^ 64"
      using unat_bound [of "st_t0 st"] unat_bound [of inc] by (simp add: unat_word_ariths le_mod_geq)
    then have "st_t0 st + inc < inc" using False unat_bound [of "st_t0 st"] by (simp add: word_less_nat_alt)
    moreover have "unat (st_t1 st + 1) = unat (st_t1 st) + 1" using t1 False by (simp add: unat_add_exact)
    ultimately show ?thesis using o False by (simp add: blake2b_increment_counter_def counter_def Let_def)
  qed
qed

subsection \<open>Absorbing input\<close>

text \<open>
  A state stands for the hash value \<open>h\<close> after \<open>n\<close> compressed bytes and the pending bytes
  \<open>p\<close>. What the buffer holds past them does not matter: it differs with how the input was cut
  into pieces.
\<close>

definition absorbed :: "blake2b_state \<Rightarrow> u64 list \<times> nat \<times> u8 list \<Rightarrow> bool" where
  "absorbed st r \<longleftrightarrow>
     (case r of (h, n, p) \<Rightarrow>
        st_h st = h \<and> length h = 8 \<and> counter st = n \<and> st_f0 st = 0 \<and> st_f1 st = 0
        \<and> length (st_buf st) = 128 \<and> st_buf_len st = length p \<and> length p \<le> 128
        \<and> take (length p) (st_buf st) = p)"

lemma length_rfc_F [simp]: "length (rfc_F h block t f) = 8"
  by (simp add: rfc_F_def Let_def)

lemma compress_keeps [simp]:
  "st_t0 (blake2b_compress st b) = st_t0 st" "st_t1 (blake2b_compress st b) = st_t1 st"
  "st_f0 (blake2b_compress st b) = st_f0 st" "st_f1 (blake2b_compress st b) = st_f1 st"
  "st_buf (blake2b_compress st b) = st_buf st" "st_buf_len (blake2b_compress st b) = st_buf_len st"
  by (simp_all add: blake2b_compress_def Let_def)

lemma increment_keeps [simp]:
  "st_h (blake2b_increment_counter st i) = st_h st"
  "st_f0 (blake2b_increment_counter st i) = st_f0 st" "st_f1 (blake2b_increment_counter st i) = st_f1 st"
  "st_buf (blake2b_increment_counter st i) = st_buf st" "st_buf_len (blake2b_increment_counter st i) = st_buf_len st"
  by (simp_all add: blake2b_increment_counter_def Let_def)

lemma counter_cong [simp]: "counter (blake2b_compress st b) = counter st"
  "counter (st\<lparr>st_buf_len := k\<rparr>) = counter st" "counter (st\<lparr>st_buf := bs\<rparr>) = counter st"
  "counter (st\<lparr>st_f0 := x\<rparr>) = counter st"
  by (simp_all add: counter_def)

text \<open>Compressing one block, from the buffer or from the input.\<close>

lemma absorb_block:
  fixes block :: "u8 list"
  assumes "st_h st = h" and "length h = 8" and "st_f0 st = 0" and "st_f1 st = 0" and "counter st + 128 < 2 ^ 128"
  defines "st' \<equiv> blake2b_compress (blake2b_increment_counter st 128) block"
  shows "st_h st' = rfc_F h block (counter st + 128) False" and "counter st' = counter st + 128"
    and "st_f0 st' = 0" and "st_f1 st' = 0"
proof -
  have c: "counter (blake2b_increment_counter st 128) = counter st + 128"
    using counter_increment [of st 128] assms(5) by simp
  show "st_h st' = rfc_F h block (counter st + 128) False"
    unfolding st'_def using assms(1-4) c by (subst compress_rfc) simp_all
qed (use assms counter_increment [of st 128] in \<open>simp_all add: st'_def\<close>)

lemma rfc_blocks_short: "length msg \<le> 128 \<Longrightarrow> rfc_blocks h n msg = (h, n, msg)"
  by (subst rfc_blocks.simps) simp

lemma rfc_blocks_long:
  "128 < length msg \<Longrightarrow> rfc_blocks h n msg = rfc_blocks (rfc_F h (take 128 msg) (n + 128) False) (n + 128) (drop 128 msg)"
  by (subst rfc_blocks.simps) simp

lemma update_blocks_rfc:
  assumes "update_blocks st in_bytes = (st', rest)" and "st_h st = h" and "length h = 8" and "st_f0 st = 0"
    and "st_f1 st = 0" and "counter st = n" and "n + length in_bytes < 2 ^ 128"
  shows "\<exists>h' n'. rfc_blocks h n in_bytes = (h', n', rest) \<and> st_h st' = h' \<and> length h' = 8 \<and> counter st' = n'
    \<and> st_f0 st' = 0 \<and> st_f1 st' = 0 \<and> st_buf st' = st_buf st \<and> st_buf_len st' = st_buf_len st \<and> length rest \<le> 128"
  using assms
proof (induction st in_bytes arbitrary: h n rule: update_blocks.induct)
  case (1 st in_bytes)
  show ?case
  proof (cases "128 < length in_bytes")
    case True
    let ?st = "blake2b_compress (blake2b_increment_counter st 128) (take 128 in_bytes)"
    have u: "update_blocks ?st (drop 128 in_bytes) = (st', rest)"
      using "1.prems"(1) True by (subst (asm) update_blocks.simps) simp
    note b = absorb_block [OF "1.prems"(2-5), of "take 128 in_bytes"]
    have "counter st + 128 < 2 ^ 128" using "1.prems"(6,7) True by linarith
    from b [OF this] "1.IH" [OF True u, of _ "n + 128"] "1.prems"(6,7) True
    show ?thesis by (simp add: rfc_blocks_long)
  next
    case False
    then show ?thesis using "1.prems" by (subst (asm) update_blocks.simps) (auto simp: rfc_blocks_short)
  qed
qed

lemma length_put_bytes [simp]: "off + length src \<le> length buf \<Longrightarrow> length (put_bytes buf off src) = length buf"
  by (simp add: put_bytes_def)

lemma take_put_bytes:
  "off \<le> length buf \<Longrightarrow> take (off + length src) (put_bytes buf off src) = take off buf @ src"
  by (simp add: put_bytes_def)

lemma put_bytes_full:
  "off + length src = length buf \<Longrightarrow> put_bytes buf off src = take off buf @ src"
  by (simp add: put_bytes_def)

lemma update_absorbed:
  assumes "absorbed st (h, n, p)" and "n + length p + length xs < 2 ^ 128"
  shows "absorbed (blake2b_update st xs) (rfc_blocks h n (p @ xs))"
proof -
  have a: "st_h st = h" "length h = 8" "counter st = n" "st_f0 st = 0" "st_f1 st = 0" "length (st_buf st) = 128"
    "st_buf_len st = length p" "length p \<le> 128" "take (length p) (st_buf st) = p"
    using assms(1) by (simp_all add: absorbed_def)
  consider "xs = []" | "xs \<noteq> []" "length xs \<le> 128 - length p" | "128 - length p < length xs" by linarith
  then show ?thesis
  proof cases
    case 1
    then show ?thesis using assms(1) a(8) by (simp add: blake2b_update_def rfc_blocks_short)
  next
    case 2
    have "take (length p + length xs) (put_bytes (st_buf st) (length p) xs) = p @ xs"
      using take_put_bytes [of "length p" "st_buf st" xs] a by simp
    then show ?thesis using 2 a
      by (simp add: blake2b_update_def rfc_blocks_short absorbed_def counter_def put_bytes_def Let_def)
  next
    case 3
    let ?f = "128 - length p"
    let ?buf = "put_bytes (st_buf st) (length p) (take ?f xs)"
    let ?st0 = "st\<lparr>st_buf_len := 0, st_buf := ?buf\<rparr>"
    let ?st1 = "blake2b_compress (blake2b_increment_counter ?st0 128) ?buf"
    have buf: "?buf = p @ take ?f xs" using a 3 by (subst put_bytes_full) auto
    then have len: "length ?buf = 128" using a(8) 3 by simp
    have msg: "take 128 (p @ xs) = ?buf" "drop 128 (p @ xs) = drop ?f xs" using a(8) buf by simp_all
    obtain st2 rest where u: "update_blocks ?st1 (drop ?f xs) = (st2, rest)" by (metis surj_pair)
    have c: "counter ?st0 = n" using a(3) by (simp add: counter_def)
    have b: "st_h ?st1 = rfc_F h ?buf (n + 128) False" "counter ?st1 = n + 128" "st_f0 ?st1 = 0" "st_f1 ?st1 = 0"
      using absorb_block [of ?st0 h ?buf] a c assms(2) 3 by simp_all
    have r: "rfc_blocks h n (p @ xs) = rfc_blocks (rfc_F h ?buf (n + 128) False) (n + 128) (drop ?f xs)"
      using 3 msg by (subst rfc_blocks_long) simp_all
    obtain h' n' where h': "rfc_blocks h n (p @ xs) = (h', n', rest)" "st_h st2 = h'" "length h' = 8" "counter st2 = n'"
      "st_f0 st2 = 0" "st_f1 st2 = 0" "st_buf st2 = ?buf" "st_buf_len st2 = 0" "length rest \<le> 128"
      using update_blocks_rfc [OF u b(1) _ b(3,4) b(2)] r assms(2) 3 by auto
    have "blake2b_update st xs = st2\<lparr>st_buf := put_bytes (st_buf st2) 0 rest, st_buf_len := length rest\<rparr>"
      using 3 u a(7) h'(8) by (auto simp: blake2b_update_def Let_def)
    moreover have "length (put_bytes (st_buf st2) 0 rest) = 128" "take (length rest) (put_bytes (st_buf st2) 0 rest) = rest"
      using h'(7,9) len length_put_bytes [of 0 rest "st_buf st2"] take_put_bytes [of 0 "st_buf st2" rest] by simp_all
    ultimately show ?thesis using h'(1-6,9) by (simp add: absorbed_def counter_def)
  qed
qed

lemma rfc_blocks_append:
  "rfc_blocks h n a = (h', n', p) \<Longrightarrow> rfc_blocks h' n' (p @ b) = rfc_blocks h n (a @ b)"
proof (induction h n a rule: rfc_blocks.induct)
  case (1 h n a)
  show ?case
  proof (cases "128 < length a")
    case True
    then have "rfc_blocks (rfc_F h (take 128 a) (n + 128) False) (n + 128) (drop 128 a) = (h', n', p)"
      using "1.prems" by (simp add: rfc_blocks_long)
    then show ?thesis using "1.IH" [OF True] True by (simp add: rfc_blocks_long)
  next
    case False
    then show ?thesis using "1.prems" by (simp add: rfc_blocks_short)
  qed
qed

lemma rfc_blocks_total: "rfc_blocks h n a = (h', n', p) \<Longrightarrow> n' + length p = n + length a"
proof (induction h n a rule: rfc_blocks.induct)
  case (1 h n a)
  show ?case
  proof (cases "128 < length a")
    case True
    then have "n' + length p = n + 128 + length (drop 128 a)"
      using "1.IH" [OF True] "1.prems" unfolding rfc_blocks_long [OF True] by blast
    then show ?thesis using True by simp
  next
    case False
    then show ?thesis using "1.prems" by (simp add: rfc_blocks_short)
  qed
qed

lemma final_absorbed:
  assumes "absorbed st r" and "fst (snd r) + length (snd (snd r)) < 2 ^ 128"
  shows "snd (blake2b_final st) = rfc_finish r"
proof -
  obtain h n p where r: "r = (h, n, p)" by (metis surj_pair)
  have a: "st_h st = h" "length h = 8" "counter st = n" "st_f0 st = 0" "st_f1 st = 0" "length (st_buf st) = 128"
    "st_buf_len st = length p" "length p \<le> 128" "take (length p) (st_buf st) = p"
    using assms(1) by (simp_all add: absorbed_def r)
  let ?block = "p @ replicate (128 - length p) 0"
  let ?st0 = "(blake2b_increment_counter st (of_nat (length p)))\<lparr>st_f0 := - 1\<rparr>"
  let ?st1 = "?st0\<lparr>st_buf := ?block\<rparr>"
  have buf: "put_bytes (st_buf st) (length p) (replicate (128 - length p) 0) = ?block"
    using a by (subst put_bytes_full) simp_all
  have "unat (of_nat (length p) :: u64) = length p" using a(8) by (intro of_nat_inverse [OF refl]) simp
  then have c: "counter ?st1 = n + length p"
    using counter_increment [of st "of_nat (length p)"] assms(2) a(3) r by simp
  have h: "st_h (blake2b_compress ?st1 ?block) = rfc_F h ?block (n + length p) True"
    unfolding c [symmetric] using a compress_rfc [of ?st1 True ?block] by simp
  have "snd (blake2b_final st) = concat (map (\<lambda>i. store64_le (st_h (blake2b_compress ?st1 ?block) ! i)) [0..<8])"
    using a(7) buf by (simp add: blake2b_final_def Let_def)
  also have "\<dots> = concat (map (le_bytes 8) (map ((!) (rfc_F h ?block (n + length p) True)) [0..<8]))"
    unfolding h by (simp add: store64_le_def comp_def)
  also have "\<dots> = rfc_finish r" by (simp only: list_of_nths length_rfc_F rfc_finish_def r prod.case)
  finally show ?thesis .
qed

lemma le_word_zeros: "le_word (replicate n 0) = 0"
proof -
  have "le_nat (replicate n 0) = 0" by (induction n) simp_all
  then show ?thesis by (simp add: le_word_def)
qed

lemma load_param: "i < 8 \<Longrightarrow> load64_le (drop (8 * i) blake2b_param) = (if i = 0 then 0x01010040 else 0)"
proof (cases "i = 0")
  case True
  have "take 8 blake2b_param = [64, 0, 1, 1, 0, 0, 0, 0]"
    by (simp add: blake2b_param_def numeral_eq_Suc)
  then show ?thesis using True by (simp add: load64_le_def le_word_def)
next
  case False
  then have "drop (8 * i) [64, 0, 1, 1 :: u8] = []" by simp
  then have "drop (8 * i) blake2b_param = replicate (64 - 8 * i) 0"
    using False unfolding blake2b_param_def drop_append by simp
  then show ?thesis using False by (simp add: load64_le_def le_word_zeros)
qed

lemma init_absorbed: "absorbed blake2b_init (rfc_start, 0, [])"
proof -
  have iv: "length blake2b_iv = 8" by (simp add: blake2b_iv_def)
  have "st_h blake2b_init = rfc_start"
    using iv by (intro nth_equalityI) (auto simp: blake2b_init_def rfc_start_def load_param nth_list_update)
  moreover have "length rfc_start = 8" using iv by (simp add: rfc_start_def)
  ultimately show ?thesis by (simp add: absorbed_def) (simp add: blake2b_init_def counter_def)
qed

lemma update_hash:
  assumes "absorbed st (rfc_blocks rfc_start 0 msg)" and "length msg + length xs < 2 ^ 128"
  shows "absorbed (blake2b_update st xs) (rfc_blocks rfc_start 0 (msg @ xs))"
proof -
  obtain h n p where r: "rfc_blocks rfc_start 0 msg = (h, n, p)" by (metis surj_pair)
  then have "n + length p = length msg" using rfc_blocks_total by fastforce
  then show ?thesis
    using update_absorbed [of st h n p xs] assms r rfc_blocks_append [OF r, of xs] by simp
qed

lemma final_hash:
  assumes "absorbed st (rfc_blocks rfc_start 0 msg)" and "length msg < 2 ^ 128"
  shows "snd (blake2b_final st) = rfc_blake2b msg"
proof -
  obtain h n p where r: "rfc_blocks rfc_start 0 msg = (h, n, p)" by (metis surj_pair)
  then have "n + length p = length msg" using rfc_blocks_total by fastforce
  then show ?thesis using final_absorbed [OF assms(1)] assms(2) r by (simp add: rfc_blake2b_def)
qed

lemma init_hash: "absorbed blake2b_init (rfc_blocks rfc_start 0 [])"
  using init_absorbed by (simp add: rfc_blocks_short)

lemma blake2b_rfc: "length msg < 2 ^ 128 \<Longrightarrow> blake2b msg = rfc_blake2b msg"
  using final_hash [OF update_hash [OF init_hash]] by (simp add: blake2b_def)



subsection \<open>Reading through the filter\<close>

fun filter_reads :: "'src fread \<Rightarrow> 'src blake2b_handle \<Rightarrow> (u64 \<times> u64) list \<Rightarrow> (u8 list \<times> 'src blake2b_handle) res" where
  "filter_reads fread h [] = Inr ([], h)"
| "filter_reads fread h ((loc, cnt) # reqs) =
     res_bind (blake2b_read fread h loc cnt) (\<lambda>(got, h).
     res_bind (filter_reads fread h reqs) (\<lambda>(more, h). Inr (got @ more, h)))"

lemma filter_reads_hash:
  assumes "filter_reads fread h reqs = Inr (bytes, h')" and "\<not> bh_finalized h"
    and "absorbed (bh_state h) (rfc_blocks rfc_start 0 msg)" and "bh_pos h = of_nat (length msg)"
    and "length msg + length bytes < 2 ^ 128"
  shows "absorbed (bh_state h') (rfc_blocks rfc_start 0 (msg @ bytes))
    \<and> bh_pos h' = of_nat (length (msg @ bytes)) \<and> \<not> bh_finalized h'"
  using assms
proof (induction reqs arbitrary: h msg bytes)
  case (Cons rq reqs)
  obtain loc cnt where rq: "rq = (loc, cnt)" by (metis surj_pair)
  obtain got h1 more where 1: "blake2b_read fread h loc cnt = Inr (got, h1)"
    "filter_reads fread h1 reqs = Inr (more, h')" "bytes = got @ more"
    using Cons.prems(1) by (auto simp: rq)
  then have h1: "bh_state h1 = blake2b_update (bh_state h) got" "bh_pos h1 = of_nat (length (msg @ got))"
    "\<not> bh_finalized h1"
    using Cons.prems(2,4) by (auto simp: blake2b_read_def split: if_splits prod.splits)
  have "absorbed (bh_state h1) (rfc_blocks rfc_start 0 (msg @ got))"
    unfolding h1(1) using update_hash [OF Cons.prems(3)] Cons.prems(5) 1(3) by simp
  from Cons.IH [OF 1(2) h1(3) this h1(2)] show ?case using Cons.prems(5) 1(3) by simp
qed auto

text \<open>
  C20. The filter checks exactly what was read through it: after any sequence of reads that does
  not panic, in pieces of any size and from any source file, the bytes were delivered in
  sequence from the start of the file, and checking against a reference digest succeeds exactly
  when that digest is the hash of all bytes delivered; checking again against another
  reference gives the answer for the same bytes.
\<close>

theorem filter_checks_what_was_read:
  assumes "filter_reads fread (blake2b_open src) reqs = Inr (bytes, h)" and "length bytes < 2 ^ 64"
    and "blake2b_check_hash h ref1 = (ok, h1)"
  shows "unat (bh_pos h) = length bytes
    \<and> (ok \<longleftrightarrow> blake2b bytes = take 64 ref1)
    \<and> (fst (blake2b_check_hash h1 ref2) \<longleftrightarrow> blake2b bytes = take 64 ref2)"
proof -
  have "length bytes < 2 ^ 128" using assms(2) by (rule order_less_trans) simp
  then have a: "absorbed (bh_state h) (rfc_blocks rfc_start 0 bytes)" "bh_pos h = of_nat (length bytes)" "\<not> bh_finalized h"
    using filter_reads_hash [OF assms(1), of "[]"] init_hash by (simp_all add: blake2b_open_def)
  have d: "snd (blake2b_final (bh_state h)) = blake2b bytes"
    using final_hash [OF a(1)] blake2b_rfc \<open>length bytes < 2 ^ 128\<close> by simp
  have "unat (bh_pos h) = length bytes" unfolding a(2) using assms(2) by (intro of_nat_inverse [OF refl]) simp
  then show ?thesis
    using assms(3) a(3) d by (auto simp: blake2b_check_hash_def Let_def split: prod.splits)
qed

text \<open>A file of five bytes, read in two pieces.\<close>

definition example_fread :: "u8 list fread" where
  "example_fread src loc cnt = (take (unat cnt) (drop (unat loc) src), src)"

theorem filter_checks_what_was_read_witness:
  "\<exists>h. filter_reads example_fread (blake2b_open [1, 2, 3, 4, 5]) [(0, 3), (3, 8)] = Inr ([1, 2, 3, 4, 5], h)
     \<and> fst (blake2b_check_hash h (blake2b [1, 2, 3, 4, 5]))"
proof -
  obtain h where h: "filter_reads example_fread (blake2b_open [1, 2, 3, 4, 5]) [(0, 3), (3, 8)] = Inr ([1, 2, 3, 4, 5], h)"
    by (simp add: example_fread_def blake2b_open_def blake2b_read_def)
  have "length (blake2b [1, 2, 3, 4, 5]) = 64"
    by (simp add: blake2b_def blake2b_final_def Let_def store64_le_def upt_rec)
  then have "fst (blake2b_check_hash h (blake2b [1, 2, 3, 4, 5]))"
    using filter_checks_what_was_read [OF h _ prod.collapse [symmetric], of "blake2b [1, 2, 3, 4, 5]"] by simp
  then show ?thesis using h by blast
qed

end
