(* ===== verification/Mtrr.thy ===== *)
theory Mtrr
  imports Limine_Bytes
begin

text \<open>
  The memory type range registers, \<^verbatim>\<open>common/mm/mtrr.c\<close>: saving and restoring them, and
  making a framebuffer write-combining. The processor is a record of the state the code
  touches, with a log of the operations whose order matters. The results of the
  \<^verbatim>\<open>CPUID\<close> instruction are a parameter.
\<close>

section \<open>The processor\<close>

datatype event = Wrmsr u32 u64 | Wbinvd | Flush_TLB | Set_cr0 u64

record cpu =
  msr :: "u32 \<Rightarrow> u64"
  cr0 :: u64
  interrupts :: bool
  saved_mtrrs :: "u64 list option"
  events :: "event list"

text \<open>Leaf 1 and leaf \<^verbatim>\<open>0x80000008\<close>: \<^verbatim>\<open>edx\<close> and \<^verbatim>\<open>eax\<close>, if the leaf exists.\<close>

record cpuid_leaves =
  leaf1_edx :: "u32 option"
  leaf80000008_eax :: "u32 option"

abbreviation rdmsr :: "cpu \<Rightarrow> u32 \<Rightarrow> u64" where
  "rdmsr c a \<equiv> msr c a"

definition wrmsr :: "u32 \<Rightarrow> u64 \<Rightarrow> cpu \<Rightarrow> cpu" where
  "wrmsr a v c = c\<lparr>msr := (msr c)(a := v), events := events c @ [Wrmsr a v]\<rparr>"

definition set_cr0 :: "u64 \<Rightarrow> cpu \<Rightarrow> cpu" where
  "set_cr0 v c = c\<lparr>cr0 := v, events := events c @ [Set_cr0 v]\<rparr>"

definition wbinvd :: "cpu \<Rightarrow> cpu" where
  "wbinvd c = c\<lparr>events := events c @ [Wbinvd]\<rparr>"

text \<open>Whichever control register is reloaded, the effect is on the TLB only.\<close>

definition flush_tlb :: "cpu \<Rightarrow> cpu" where
  "flush_tlb c = c\<lparr>events := events c @ [Flush_TLB]\<rparr>"

definition mtrr_supported :: "cpuid_leaves \<Rightarrow> bool" where
  "mtrr_supported ids = (case leaf1_edx ids of None \<Rightarrow> False | Some edx \<Rightarrow> bit edx 12)"

definition fixed_mtrrs :: "u32 list" where
  "fixed_mtrrs = [0x250, 0x258, 0x259, 0x268, 0x269, 0x26a, 0x26b, 0x26c, 0x26d, 0x26e, 0x26f]"

definition var_count :: "cpu \<Rightarrow> u8" where
  "var_count c = ucast (and (rdmsr c 0xfe) 0xff)"

definition fix_supported :: "cpu \<Rightarrow> bool" where
  "fix_supported c \<longleftrightarrow> bit (rdmsr c 0xfe) 8"

section \<open>Saving and restoring\<close>

text \<open>
  The array holds two words per variable range register, eleven for the fixed ranges and one
  for the default type. It comes from \<^verbatim>\<open>ext_mem_alloc\<close>, cleared.
\<close>

definition save_variable :: "cpu \<Rightarrow> nat \<Rightarrow> u64 list \<Rightarrow> u64 list" where
  "save_variable c n s =
     fold (\<lambda>j s. let i = 2 * j in s[i := rdmsr c (0x200 + of_nat i), i + 1 := rdmsr c (0x200 + of_nat i + 1)]) [0..<n] s"

definition save_fixed :: "cpu \<Rightarrow> nat \<Rightarrow> u64 list \<Rightarrow> u64 list" where
  "save_fixed c n s = fold (\<lambda>j s. s[n * 2 + j := rdmsr c (fixed_mtrrs ! j)]) [0..<11] s"

definition mtrr_save :: "cpuid_leaves \<Rightarrow> cpu \<Rightarrow> cpu" where
  "mtrr_save ids c =
     (if saved_mtrrs c \<noteq> None then c
      else if \<not> mtrr_supported ids then c
      else
        let ints = interrupts c;
            c = c\<lparr>interrupts := False\<rparr>;
            n = unat (var_count c);
            s = replicate (n * 2 + 11 + 1) 0;
            s = save_variable c n s;
            s = (if fix_supported c then save_fixed c n s else s);
            s = s[n * 2 + 11 := rdmsr c 0x2ff]
        in c\<lparr>saved_mtrrs := Some s, interrupts := ints\<rparr>)"

text \<open>The cache is switched off by \<^verbatim>\<open>CD\<close> of \<^verbatim>\<open>cr0\<close> set and \<^verbatim>\<open>NW\<close> clear.\<close>

definition no_fill_cr0 :: "u64 \<Rightarrow> u64" where
  "no_fill_cr0 v = and (or v (push_bit 30 1)) (not (push_bit 29 1))"

definition restore_variable :: "u64 list \<Rightarrow> nat \<Rightarrow> cpu \<Rightarrow> cpu" where
  "restore_variable s n c =
     fold (\<lambda>j c. let i = 2 * j in
       wrmsr (0x200 + of_nat i + 1) (s ! (i + 1)) (wrmsr (0x200 + of_nat i) (s ! i) c)) [0..<n] c"

definition restore_fixed :: "u64 list \<Rightarrow> nat \<Rightarrow> cpu \<Rightarrow> cpu" where
  "restore_fixed s n c = fold (\<lambda>j c. wrmsr (fixed_mtrrs ! j) (s ! (n * 2 + j)) c) [0..<11] c"

definition mtrr_restore :: "cpuid_leaves \<Rightarrow> cpu \<Rightarrow> cpu" where
  "mtrr_restore ids c =
     (if \<not> mtrr_supported ids then c
      else
        let n = unat (var_count c); fix = fix_supported c in
        case saved_mtrrs c of
          None \<Rightarrow> c
        | Some s \<Rightarrow>
            let ints = interrupts c;
                c = c\<lparr>interrupts := False\<rparr>;
                old_cr0 = cr0 c;
                c = set_cr0 (no_fill_cr0 old_cr0) c;
                c = wbinvd c;
                c = flush_tlb c;
                c = wrmsr 0x2ff (and (rdmsr c 0x2ff) (not (push_bit 11 1))) c;
                c = restore_variable s n c;
                c = (if fix then restore_fixed s n c else c);
                c = wrmsr 0x2ff (s ! (n * 2 + 11)) c;
                c = flush_tlb c;
                c = wbinvd c;
                c = set_cr0 old_cr0 c
            in c\<lparr>interrupts := ints\<rparr>)"

section \<open>Write combining\<close>

definition MTRR_TYPE_WC :: u64 where "MTRR_TYPE_WC = 1"

text \<open>\<^verbatim>\<open>__builtin_ctzll\<close> and \<^verbatim>\<open>__builtin_clzll\<close>.\<close>

definition ctzll :: "u64 \<Rightarrow> nat" where
  "ctzll x = length (takeWhile (\<lambda>i. \<not> bit x i) [0..<64])"

definition clzll :: "u64 \<Rightarrow> nat" where
  "clzll x = length (takeWhile (\<lambda>i. \<not> bit x (63 - i)) [0..<64])"

definition free_slot :: "cpu \<Rightarrow> nat \<Rightarrow> nat option" where
  "free_slot c n = List.find (\<lambda>i. \<not> bit (rdmsr c (0x200 + of_nat i * 2 + 1)) 11) [0..<n]"

definition wc_add_mtrr :: "u64 \<Rightarrow> u64 \<Rightarrow> u64 \<Rightarrow> nat \<Rightarrow> nat \<Rightarrow> cpu \<Rightarrow> bool \<times> cpu" where
  "wc_add_mtrr base sz type maxphysaddr n c =
     (case free_slot c n of
        None \<Rightarrow> (False, c)
      | Some slot \<Rightarrow>
          let mask = and (push_bit maxphysaddr 1 - 1) (not (sz - 1));
              c = wrmsr (0x200 + of_nat slot * 2) (or base type) c;
              c = wrmsr (0x200 + of_nat slot * 2 + 1) (or mask (push_bit 11 1)) c
          in (True, c))"

definition chunk_size :: "u64 \<Rightarrow> u64 \<Rightarrow> u64" where
  "chunk_size base span =
     (let align_k = (if base \<noteq> 0 then push_bit (ctzll base) 1 else span);
          size_k = push_bit (63 - clzll span) 1
      in if align_k < size_k then align_k else size_k)"

lemma takeWhile_first:
  assumes "P m" and "m < n" and "k = length (takeWhile (\<lambda>i. \<not> P i) [0..<n])"
  shows "P k" and "k \<le> m" and "\<forall>i<k. \<not> P i"
proof -
  have k: "takeWhile (\<lambda>i. \<not> P i) [0..<n] = [0..<k]"
    using takeWhile_eq_take [of "\<lambda>i. \<not> P i" "[0..<n]"] assms(3)
    by (metis length_takeWhile_le length_upt minus_nat.diff_0 take_upt add_0)
  show all: "\<forall>i<k. \<not> P i" using set_takeWhileD [of _ "\<lambda>i. \<not> P i" "[0..<n]"] k by simp
  show le: "k \<le> m" using all assms(1) not_less by blast
  then have "k < length [0..<n]" using assms(2) by simp
  then have "\<not> \<not> P ([0..<n] ! k)" unfolding assms(3) by (rule nth_length_takeWhile)
  then show "P k" using \<open>k < length [0..<n]\<close> by simp
qed

lemma nonzero_bit:
  assumes "(x::u64) \<noteq> 0"
  obtains m where "bit x m" "m < 64"
proof -
  obtain m where "bit x m" using assms by (metis bit_eq_iff bit_0_eq bot_apply bot_bool_def)
  then show ?thesis using that bit_imp_le_length [of x m] by simp
qed

lemma ctzll_bits:
  assumes "x \<noteq> 0"
  shows "bit x (ctzll x)" and "ctzll x < 64" and "\<forall>i<ctzll x. \<not> bit x i"
proof -
  obtain m where m: "bit x m" "m < 64" using nonzero_bit [OF assms] .
  note f = takeWhile_first [of "bit x" m 64 "ctzll x", OF m ctzll_def]
  show "bit x (ctzll x)" "\<forall>i<ctzll x. \<not> bit x i" using f(1,3) by blast+
  show "ctzll x < 64" using f(2) m(2) by (rule le_less_trans)
qed

lemma clzll_bits:
  assumes "x \<noteq> 0"
  shows "bit x (63 - clzll x)" and "clzll x < 64"
proof -
  obtain m where m: "bit x m" "m < 64" using nonzero_bit [OF assms] .
  then have "bit x (63 - (63 - m))" "63 - m < 64" by simp_all
  note f = takeWhile_first [of "\<lambda>i. bit x (63 - i)" "63 - m" 64 "clzll x", OF this clzll_def]
  show "bit x (63 - clzll x)" using f(1) .
  show "clzll x < 64" using f(2) by simp
qed

lemma unat_exp:
  assumes "j < 64"
  shows "unat (2 ^ j :: u64) = 2 ^ j"
proof (rule of_nat_inverse)
  show "(2::nat) ^ j < 2 ^ LENGTH(64)" by (rule power_strict_increasing) (use assms in simp_all)
qed simp

lemma bit_le_unat:
  assumes "bit (x::u64) j"
  shows "2 ^ j \<le> unat x"
proof (rule ccontr)
  assume "\<not> 2 ^ j \<le> unat x"
  then have "unat x div 2 ^ j = 0" by simp
  moreover have "bit (unat x) j" using assms by (simp add: bit_unsigned_iff)
  ultimately show False by (simp add: bit_iff_odd)
qed

lemma chunk_size_bound:
  assumes "span \<noteq> 0"
  shows "0 < unat (chunk_size base span)" and "unat (chunk_size base span) \<le> unat span"
proof -
  define A S :: u64 where "A = (if base \<noteq> 0 then push_bit (ctzll base) 1 else span)" and "S = push_bit (63 - clzll span) 1"
  have e: "chunk_size base span = (if A < S then A else S)" by (simp add: chunk_size_def A_def S_def Let_def)
  have "unat S = 2 ^ (63 - clzll span)" unfolding S_def using unat_exp [of "63 - clzll span"] by simp
  then have S: "0 < unat S" "unat S \<le> unat span" using bit_le_unat [OF clzll_bits(1) [OF assms]] by simp_all
  have A: "0 < unat A"
  proof (cases "base = 0")
    case True
    then show ?thesis using S by (simp add: A_def)
  next
    case False
    then have "unat A = 2 ^ ctzll base" unfolding A_def using unat_exp [OF ctzll_bits(2)] by simp
    then show ?thesis by simp
  qed
  show "0 < unat (chunk_size base span)" unfolding e using A S(1) by (cases "A < S") (simp_all only: if_True if_False)
  show "unat (chunk_size base span) \<le> unat span" unfolding e using S(2)
    by (cases "A < S") (simp_all add: word_less_nat_alt)
qed

function wc_add_chunks :: "u64 \<Rightarrow> u64 \<Rightarrow> u64 \<Rightarrow> nat \<Rightarrow> nat \<Rightarrow> cpu \<Rightarrow> bool \<times> cpu" where
  "wc_add_chunks base span type maxphysaddr n c =
     (if span = 0 then (True, c)
      else let k = chunk_size base span in
        case wc_add_mtrr base k type maxphysaddr n c of
          (False, c) \<Rightarrow> (False, c)
        | (True, c) \<Rightarrow> wc_add_chunks (base + k) (span - k) type maxphysaddr n c)"
  by pat_completeness auto
termination
proof (relation "measure (\<lambda>(base, span, ty, mp, n, c). unat span)", goal_cases)
  case (2 base span ty mp n c k)
  then have k: "k = chunk_size base span" "span \<noteq> 0" by simp_all
  note b = chunk_size_bound [OF k(2), of base, folded k(1)]
  have "unat (span - k) = unat span - unat k" using b(2) by (rule unat_sub_exact)
  then show ?case using b unfolding in_measure prod.case by linarith
qed simp

declare wc_add_chunks.simps [simp del]

text \<open>
  Does a page of the range lie in the range of a valid register? Base and end are page
  aligned, so the loop visits the pages from the one to before the other.
\<close>

definition range_pages :: "u64 \<Rightarrow> u64 \<Rightarrow> u64 list" where
  "range_pages base end = map (\<lambda>i. base + of_nat i * 0x1000) [0..<unat (end - base) div 0x1000]"

definition mtrr_clash :: "cpu \<Rightarrow> u64 \<Rightarrow> u64 \<Rightarrow> nat \<Rightarrow> bool" where
  "mtrr_clash c base end i =
     (let mb = rdmsr c (0x200 + of_nat i * 2);
          mm = rdmsr c (0x200 + of_nat i * 2 + 1)
      in bit mm 11 \<and>
         (let exist_mask = and mm (not 0xfff); exist_base = and mb (not 0xfff)
          in list_ex (\<lambda>a. and a exist_mask = and exist_base exist_mask) (range_pages base end)))"

definition mtrr_wc_add_fb_range :: "bool \<Rightarrow> cpuid_leaves \<Rightarrow> u64 \<Rightarrow> u64 \<Rightarrow> cpu \<Rightarrow> bool \<times> cpu" where
  "mtrr_wc_add_fb_range uefi ids base sz c =
     (if sz = 0 \<or> \<not> mtrr_supported ids then (False, c)
      else if \<not> bit (rdmsr c 0xfe) 10 then (False, c)
      else
        let n = unat (var_count c) in
        case leaf80000008_eax ids of
          None \<Rightarrow> (False, c)
        | Some eax \<Rightarrow>
            let maxphysaddr = unat (and eax 0xff) in
            if maxphysaddr < 32 \<or> maxphysaddr > 52 then (False, c)
            else case CHECKED_ADD base sz of
              None \<Rightarrow> (False, c)
            | Some raw_end \<Rightarrow>
                case ALIGN_UP raw_end 0x1000 of
                  None \<Rightarrow> (False, c)
                | Some end \<Rightarrow>
                    let base = and base (not 0xfff); sz = end - base in
                    if list_ex (mtrr_clash c base end) [0..<n] then (False, c)
                    else
                      let c = mtrr_save ids c;
                          c = (if uefi then c\<lparr>interrupts := False\<rparr> else c);
                          old_cr0 = cr0 c;
                          c = set_cr0 (no_fill_cr0 old_cr0) c;
                          c = wbinvd c;
                          c = flush_tlb c;
                          mtrr_def = rdmsr c 0x2ff;
                          c = wrmsr 0x2ff (and mtrr_def (not (push_bit 11 1))) c;
                          (ok, c) = wc_add_chunks base sz MTRR_TYPE_WC maxphysaddr n c;
                          c = wrmsr 0x2ff mtrr_def c;
                          c = flush_tlb c;
                          c = wbinvd c;
                          c = set_cr0 old_cr0 c;
                          c = (if uefi then c\<lparr>interrupts := True\<rparr> else c)
                      in (ok, c))"

section \<open>Saving and restoring is the identity\<close>

lemma wrmsr_simps [simp]:
  "msr (wrmsr a v c) = (msr c)(a := v)" "cr0 (wrmsr a v c) = cr0 c" "interrupts (wrmsr a v c) = interrupts c"
  "saved_mtrrs (wrmsr a v c) = saved_mtrrs c" "events (wrmsr a v c) = events c @ [Wrmsr a v]"
  by (simp_all add: wrmsr_def)

lemma cache_simps [simp]:
  "msr (set_cr0 v c) = msr c" "cr0 (set_cr0 v c) = v" "interrupts (set_cr0 v c) = interrupts c"
  "saved_mtrrs (set_cr0 v c) = saved_mtrrs c" "events (set_cr0 v c) = events c @ [Set_cr0 v]"
  "msr (wbinvd c) = msr c" "cr0 (wbinvd c) = cr0 c" "interrupts (wbinvd c) = interrupts c"
  "saved_mtrrs (wbinvd c) = saved_mtrrs c" "events (wbinvd c) = events c @ [Wbinvd]"
  "msr (flush_tlb c) = msr c" "cr0 (flush_tlb c) = cr0 c" "interrupts (flush_tlb c) = interrupts c"
  "saved_mtrrs (flush_tlb c) = saved_mtrrs c" "events (flush_tlb c) = events c @ [Flush_TLB]"
  by (simp_all add: set_cr0_def wbinvd_def flush_tlb_def)

definition variable_mtrrs :: "nat \<Rightarrow> u32 list" where
  "variable_mtrrs n = map (\<lambda>i. 0x200 + of_nat i) [0..<2 * n]"

lemma variable_mtrrs_Suc:
  "variable_mtrrs (Suc n) = variable_mtrrs n @ [0x200 + of_nat (2 * n), 0x200 + of_nat (2 * n) + 1]"
  by (simp add: variable_mtrrs_def)

lemma length_save_variable: "length (save_variable c n s) = length s"
  by (induction n arbitrary: s) (simp_all add: save_variable_def Let_def)

lemma save_variable_eq:
  "2 * n \<le> length s \<Longrightarrow> save_variable c n s = map (rdmsr c) (variable_mtrrs n) @ drop (2 * n) s"
proof (induction n)
  case (Suc n)
  let ?l = "map (rdmsr c) (variable_mtrrs n)"
  have l: "length ?l = 2 * n" by (simp add: variable_mtrrs_def)
  obtain a b t where d: "drop (2 * n) s = a # b # t" "t = drop (2 * Suc n) s"
    using Suc.prems by (metis Cons_nth_drop_Suc Suc_le_lessD add_Suc_right mult_2 mult_Suc_right numeral_2_eq_2 Suc_lessD plus_nat.simps(2) add_0)
  have "save_variable c (Suc n) s = (?l @ a # b # t)[2 * n := rdmsr c (0x200 + of_nat (2 * n)), 2 * n + 1 := rdmsr c (0x200 + of_nat (2 * n) + 1)]"
    using Suc d(1) by (simp add: save_variable_def Let_def)
  also have "\<dots> = ?l @ [rdmsr c (0x200 + of_nat (2 * n)), rdmsr c (0x200 + of_nat (2 * n) + 1)] @ t"
    using l by (simp add: list_update_append)
  finally show ?case using d(2) by (simp add: variable_mtrrs_Suc)
qed (simp add: save_variable_def variable_mtrrs_def)

lemma save_fixed_eq:
  assumes "n * 2 + 11 < length s"
  shows "save_fixed c n s = take (n * 2) s @ map (rdmsr c) fixed_mtrrs @ drop (n * 2 + 11) s"
proof -
  have "j \<le> 11 \<Longrightarrow> fold (\<lambda>j s. s[n * 2 + j := rdmsr c (fixed_mtrrs ! j)]) [0..<j] s =
    take (n * 2) s @ map (\<lambda>j. rdmsr c (fixed_mtrrs ! j)) [0..<j] @ drop (n * 2 + j) s" for j
  proof (induction j)
    case (Suc j)
    have "drop (n * 2 + j) s = s ! (n * 2 + j) # drop (n * 2 + Suc j) s"
      using Suc.prems assms by (simp add: Cons_nth_drop_Suc)
    then show ?case using Suc assms by (simp add: list_update_append)
  qed simp
  from this [of 11] show ?thesis
    by (simp add: save_fixed_def) (simp add: fixed_mtrrs_def upt_rec)
qed

text \<open>What the array holds after saving.\<close>

definition snapshot :: "(u32 \<Rightarrow> u64) \<Rightarrow> nat \<Rightarrow> bool \<Rightarrow> u64 list \<Rightarrow> bool" where
  "snapshot m n fix s \<longleftrightarrow>
     (\<forall>i<2 * n. s ! i = m (variable_mtrrs n ! i)) \<and> (fix \<longrightarrow> (\<forall>j<11. s ! (n * 2 + j) = m (fixed_mtrrs ! j)))
     \<and> s ! (n * 2 + 11) = m 0x2ff"

lemma mtrr_save_snapshot:
  assumes "saved_mtrrs c = None" and "mtrr_supported ids"
  shows "\<exists>s. mtrr_save ids c = c\<lparr>saved_mtrrs := Some s\<rparr> \<and> snapshot (msr c) (unat (var_count c)) (fix_supported c) s"
proof -
  let ?n = "unat (var_count c)"
  define s0 :: "u64 list" where "s0 = replicate (?n * 2 + 11 + 1) 0"
  define s1 where "s1 = save_variable c ?n s0"
  define s2 where "s2 = (if fix_supported c then save_fixed c ?n s1 else s1)"
  have vl: "length (variable_mtrrs ?n) = 2 * ?n" by (simp add: variable_mtrrs_def)
  have s1: "s1 = map (rdmsr c) (variable_mtrrs ?n) @ replicate 12 0"
    unfolding s1_def s0_def by (subst save_variable_eq) (simp_all add: mult.commute)
  have fl: "length fixed_mtrrs = 11" by (simp add: fixed_mtrrs_def)
  have s2: "s2 = map (rdmsr c) (variable_mtrrs ?n) @ (if fix_supported c then map (rdmsr c) fixed_mtrrs @ [0] else replicate 12 0)"
  proof (cases "fix_supported c")
    case True
    have "save_fixed c ?n s1 = take (?n * 2) s1 @ map (rdmsr c) fixed_mtrrs @ drop (?n * 2 + 11) s1"
      by (rule save_fixed_eq) (simp add: s1 vl mult.commute)
    then show ?thesis using True vl by (simp add: s2_def s1 mult.commute)
  qed (simp add: s2_def s1)
  have sv: "mtrr_save ids c = c\<lparr>saved_mtrrs := Some (s2[?n * 2 + 11 := rdmsr c 0x2ff])\<rparr>"
    using assms by (simp add: mtrr_save_def Let_def s2_def s1_def s0_def var_count_def fix_supported_def save_variable_def save_fixed_def)
  have "length s2 = ?n * 2 + 12" using vl fl by (simp add: s2 mult.commute)
  then have "snapshot (msr c) ?n (fix_supported c) (s2[?n * 2 + 11 := rdmsr c 0x2ff])"
    using vl fl by (auto simp: snapshot_def s2 nth_append nth_list_update mult.commute)
  with sv show ?thesis by blast
qed

text \<open>Writing back the values of a snapshot.\<close>

definition write_all :: "(u32 \<Rightarrow> u64) \<Rightarrow> u32 list \<Rightarrow> cpu \<Rightarrow> cpu" where
  "write_all m as c = fold (\<lambda>a. wrmsr a (m a)) as c"

lemma write_all_simps [simp]:
  "msr (write_all m as c) x = (if x \<in> set as then m x else msr c x)"
  "cr0 (write_all m as c) = cr0 c" "interrupts (write_all m as c) = interrupts c"
  "saved_mtrrs (write_all m as c) = saved_mtrrs c"
  "events (write_all m as c) = events c @ map (\<lambda>a. Wrmsr a (m a)) as"
  by (induction as arbitrary: c) (simp_all add: write_all_def)

lemma write_all_Nil [simp]: "write_all m [] c = c"
  by (simp add: write_all_def)

lemma write_all_append: "write_all m (as @ bs) c = write_all m bs (write_all m as c)"
  by (simp add: write_all_def)

lemma restore_variable_eq:
  assumes "\<forall>i<2 * n. s ! i = m (0x200 + of_nat i)"
  shows "restore_variable s n c = write_all m (variable_mtrrs n) c"
  using assms
proof (induction n)
  case (Suc n)
  have "s ! (2 * n) = m (0x200 + of_nat (2 * n))" "s ! (2 * n + 1) = m (0x200 + of_nat (2 * n) + 1)"
    using Suc.prems [rule_format, of "2 * n"] Suc.prems [rule_format, of "2 * n + 1"] by (simp_all add: add.commute add.left_commute)
  moreover have "restore_variable s (Suc n) c =
      wrmsr (0x200 + of_nat (2 * n) + 1) (s ! (2 * n + 1)) (wrmsr (0x200 + of_nat (2 * n)) (s ! (2 * n)) (restore_variable s n c))"
    by (simp add: restore_variable_def Let_def)
  ultimately show ?case using Suc unfolding variable_mtrrs_Suc write_all_append by (simp add: write_all_def)
qed (simp add: restore_variable_def write_all_def variable_mtrrs_def)

lemma restore_fixed_eq:
  assumes "\<forall>j<11. s ! (n * 2 + j) = m (fixed_mtrrs ! j)"
  shows "restore_fixed s n c = write_all m fixed_mtrrs c"
proof -
  have l: "map ((!) fixed_mtrrs) [0..<11] = fixed_mtrrs" by (simp add: fixed_mtrrs_def upt_rec)
  have "restore_fixed s n c = fold (\<lambda>j. wrmsr (fixed_mtrrs ! j) (m (fixed_mtrrs ! j))) [0..<11] c"
    unfolding restore_fixed_def using assms by (intro fold_cong refl) (simp only: set_upt atLeastLessThan_iff)
  also have "\<dots> = write_all m (map ((!) fixed_mtrrs) [0..<11]) c"
    by (simp only: write_all_def fold_map comp_def)
  finally show ?thesis unfolding l .
qed

lemma variable_nth: "i < 2 * n \<Longrightarrow> variable_mtrrs n ! i = 0x200 + of_nat i"
  by (simp add: variable_mtrrs_def)

text \<open>Restoring a snapshot, as one sequence of operations.\<close>

definition restored_regs :: "nat \<Rightarrow> bool \<Rightarrow> u32 list" where
  "restored_regs n fix = variable_mtrrs n @ (if fix then fixed_mtrrs else [])"

lemma mtrr_restore_eq:
  assumes "mtrr_supported ids" and "saved_mtrrs c = Some s" and "snapshot m (unat (var_count c)) (fix_supported c) s"
  defines "regs \<equiv> restored_regs (unat (var_count c)) (fix_supported c)"
  defines "off \<equiv> and (rdmsr c 0x2ff) (not (push_bit 11 1))"
  shows "msr (mtrr_restore ids c) = (\<lambda>x. if x = 0x2ff \<or> x \<in> set regs then m x else msr c x)"
    and "cr0 (mtrr_restore ids c) = cr0 c" and "interrupts (mtrr_restore ids c) = interrupts c"
    and "events (mtrr_restore ids c) = events c @
      [Set_cr0 (no_fill_cr0 (cr0 c)), Wbinvd, Flush_TLB, Wrmsr 0x2ff off] @
      map (\<lambda>a. Wrmsr a (m a)) regs @ [Wrmsr 0x2ff (m 0x2ff), Flush_TLB, Wbinvd, Set_cr0 (cr0 c)]"
proof -
  let ?n = "unat (var_count c)"
  have v: "restore_variable s ?n c' = write_all m (variable_mtrrs ?n) c'" for c'
    using assms(3) by (intro restore_variable_eq) (simp add: snapshot_def variable_nth)
  have f: "fix_supported c \<Longrightarrow> restore_fixed s ?n c' = write_all m fixed_mtrrs c'" for c'
    using assms(3) by (intro restore_fixed_eq) (simp add: snapshot_def)
  define c1 where "c1 = wrmsr 0x2ff off (flush_tlb (wbinvd (set_cr0 (no_fill_cr0 (cr0 c)) (c\<lparr>interrupts := False\<rparr>))))"
  have r: "(if fix_supported c then restore_fixed s ?n (restore_variable s ?n c') else restore_variable s ?n c')
    = write_all m regs c'" for c'
    using v f by (simp add: regs_def restored_regs_def write_all_append)
  have d: "s ! (?n * 2 + 11) = m 0x2ff" using assms(3) by (simp add: snapshot_def)
  have e: "mtrr_restore ids c =
    (set_cr0 (cr0 c) (wbinvd (flush_tlb (wrmsr 0x2ff (m 0x2ff) (write_all m regs c1)))))\<lparr>interrupts := interrupts c\<rparr>"
    using assms(1,2) by (simp add: mtrr_restore_def Let_def r d c1_def off_def)
  show "msr (mtrr_restore ids c) = (\<lambda>x. if x = 0x2ff \<or> x \<in> set regs then m x else msr c x)"
    unfolding e by (rule ext) (simp add: c1_def)
  show "cr0 (mtrr_restore ids c) = cr0 c" "interrupts (mtrr_restore ids c) = interrupts c" by (simp_all add: e)
  show "events (mtrr_restore ids c) = events c @
      [Set_cr0 (no_fill_cr0 (cr0 c)), Wbinvd, Flush_TLB, Wrmsr 0x2ff off] @
      map (\<lambda>a. Wrmsr a (m a)) regs @ [Wrmsr 0x2ff (m 0x2ff), Flush_TLB, Wbinvd, Set_cr0 (cr0 c)]"
    unfolding e by (simp add: c1_def)
qed

text \<open>
  C18. Saving the registers and restoring them later is the identity on them. Whatever was done to
  the processor in between, as long as the saved copy and the capability register are the
  same, after the restore every variable range register, the default type and, where the
  processor has them, every fixed range register holds the value it had when saved; no other
  register is written, and \<^verbatim>\<open>cr0\<close> and the interrupt flag are as before the restore.
\<close>

theorem mtrr_save_restore:
  assumes "saved_mtrrs c = None" and "mtrr_supported ids"
    and "saved_mtrrs c' = saved_mtrrs (mtrr_save ids c)" and "msr c' 0xfe = msr c 0xfe"
  shows "(\<forall>x. msr (mtrr_restore ids c') x =
      (if x = 0x2ff \<or> x \<in> set (variable_mtrrs (unat (var_count c))) \<or> fix_supported c \<and> x \<in> set fixed_mtrrs
       then msr c x else msr c' x))
    \<and> cr0 (mtrr_restore ids c') = cr0 c' \<and> interrupts (mtrr_restore ids c') = interrupts c'"
proof -
  obtain s where s: "mtrr_save ids c = c\<lparr>saved_mtrrs := Some s\<rparr>"
    "snapshot (msr c) (unat (var_count c)) (fix_supported c) s" using mtrr_save_snapshot [OF assms(1,2)] by blast
  have same: "var_count c' = var_count c" "fix_supported c' = fix_supported c"
    using assms(4) by (simp_all add: var_count_def fix_supported_def)
  have "saved_mtrrs c' = Some s" using assms(3) s(1) by simp
  note r = mtrr_restore_eq [OF assms(2) this, of "msr c", unfolded same, OF s(2)]
  show ?thesis using r(1-3) by (auto simp: restored_regs_def)
qed

theorem mtrr_save_restore_witness:
  "let ids = \<lparr>leaf1_edx = Some 0x1000, leaf80000008_eax = None\<rparr>;
       c = \<lparr>msr = (\<lambda>a. if a = 0xfe then 0x502 else ucast a), cr0 = 0x80000011, interrupts = True,
            saved_mtrrs = None, events = []\<rparr>;
       c' = wrmsr 0x200 0 (wrmsr 0x258 7 (mtrr_save ids c))
   in msr (mtrr_restore ids c') 0x200 = 0x200 \<and> msr (mtrr_restore ids c') 0x258 = 0x258"
proof -
  let ?ids = "\<lparr>leaf1_edx = Some 0x1000, leaf80000008_eax = None\<rparr>"
  let ?c = "\<lparr>msr = (\<lambda>a. if a = 0xfe then 0x502 else ucast a), cr0 = 0x80000011, interrupts = True,
      saved_mtrrs = None, events = []\<rparr>"
  have "mtrr_supported ?ids" by (simp add: mtrr_supported_def bit_numeral_rec)
  moreover have "msr (mtrr_save ?ids ?c) = msr ?c" by (simp add: mtrr_save_def Let_def)
  moreover have "unat (var_count ?c) = 2" "fix_supported ?c" by (simp_all add: var_count_def fix_supported_def bit_numeral_rec)
  moreover have "0x200 \<in> set (variable_mtrrs 2)" "0x258 \<in> set fixed_mtrrs"
    by (simp_all add: variable_mtrrs_def fixed_mtrrs_def upt_rec)
  ultimately show ?thesis
    using mtrr_save_restore [of ?c ?ids "wrmsr 0x200 0 (wrmsr 0x258 7 (mtrr_save ?ids ?c))"] by (simp add: Let_def)
qed

section \<open>Write combining covers the framebuffer exactly\<close>

definition mtrr_valid :: "(u32 \<Rightarrow> u64) \<Rightarrow> nat \<Rightarrow> bool" where
  "mtrr_valid m i \<longleftrightarrow> bit (m (0x200 + of_nat i * 2 + 1)) 11"

text \<open>Does the processor take the address to be in the range of a register?\<close>

definition mtrr_matches :: "(u32 \<Rightarrow> u64) \<Rightarrow> nat \<Rightarrow> u64 \<Rightarrow> bool" where
  "mtrr_matches m i x \<longleftrightarrow>
     mtrr_valid m i \<and>
     (let mask = and (m (0x200 + of_nat i * 2 + 1)) (not 0xfff)
      in and x mask = and (and (m (0x200 + of_nat i * 2)) (not 0xfff)) mask)"

definition mtrr_type :: "(u32 \<Rightarrow> u64) \<Rightarrow> nat \<Rightarrow> u64" where
  "mtrr_type m i = and (m (0x200 + of_nat i * 2)) 0xff"

lemma fff_mask: "(0xfff :: u64) = mask 12"
  by (simp add: mask_eq_exp_minus_1)

lemmas word_bits = bit_and_iff bit_or_iff bit_not_iff bit_mask_iff bit_push_bit_iff bit_1_iff possible_bit_word

lemma bit_above: "bit (x::u64) i \<Longrightarrow> i < 64"
  using bit_imp_le_length [of x i] by simp

lemma range_mask_bit:
  assumes "12 \<le> j" and "j \<le> mp" and "mp \<le> 52"
  shows "bit (and (or (and (push_bit mp 1 - 1) (not (2 ^ j - 1))) (push_bit 11 1)) (not 0xfff) :: u64) i \<longleftrightarrow> j \<le> i \<and> i < mp"
proof -
  have m: "push_bit mp 1 - 1 = (mask mp :: u64)" "2 ^ j - 1 = (mask j :: u64)" by (simp_all add: mask_eq_exp_minus_1)
  show ?thesis unfolding m fff_mask word_bits using assms by auto
qed

lemma small_word_bit:
  assumes "unat (x::u64) < 2 ^ n" and "bit x i"
  shows "i < n"
proof -
  have "(2::nat) ^ i < 2 ^ n" using bit_le_unat [OF assms(2)] assms(1) by (rule le_less_trans)
  then show ?thesis by simp
qed

lemma range_match:
  fixes b x :: u64
  assumes "12 \<le> j" and "j \<le> mp" and "mp \<le> 52" and "2 ^ j dvd unat b" and "unat b < 2 ^ mp" and "unat x < 2 ^ mp"
  defines "M \<equiv> and (or (and (push_bit mp 1 - 1) (not (2 ^ j - 1))) (push_bit 11 1)) (not 0xfff)"
  shows "and x M = and (and (or b 1) (not 0xfff)) M \<longleftrightarrow> unat b \<le> unat x \<and> unat x < unat b + 2 ^ j"
proof -
  note M = range_mask_bit [OF assms(1-3), folded M_def]
  have "and x M = and (and (or b 1) (not 0xfff)) M \<longleftrightarrow> (\<forall>i. j \<le> i \<and> i < mp \<longrightarrow> bit x i = bit b i)"
  proof -
    have "bit (and x M) i \<longleftrightarrow> bit x i \<and> j \<le> i \<and> i < mp"
      "bit (and (and (or b 1) (not 0xfff)) M) i \<longleftrightarrow> bit b i \<and> j \<le> i \<and> i < mp" for i
      unfolding fff_mask word_bits M using assms(1,3) by auto
    then show ?thesis unfolding bit_eq_iff by (auto dest: bit_above)
  qed
  also have "\<dots> \<longleftrightarrow> drop_bit j x = drop_bit j b"
  proof
    assume a: "\<forall>i. j \<le> i \<and> i < mp \<longrightarrow> bit x i = bit b i"
    have "bit x (j + i) = bit b (j + i)" for i
      using a small_word_bit [OF assms(6)] small_word_bit [OF assms(5)] by (metis le_add1)
    then show "drop_bit j x = drop_bit j b" by (intro bit_word_eqI) (simp add: bit_simps)
  next
    assume "drop_bit j x = drop_bit j b"
    then have "bit (drop_bit j x) i = bit (drop_bit j b) i" for i by simp
    then have "bit x (j + i) = bit b (j + i)" for i by (simp add: bit_simps)
    then show "\<forall>i. j \<le> i \<and> i < mp \<longrightarrow> bit x i = bit b i" by (metis le_add_diff_inverse)
  qed
  also have "\<dots> \<longleftrightarrow> unat x div 2 ^ j = unat b div 2 ^ j"
    by (simp only: word_unat_eq_iff unat_drop_bit)
  also have "\<dots> \<longleftrightarrow> unat b \<le> unat x \<and> unat x < unat b + 2 ^ j"
  proof -
    obtain q where q: "unat b = 2 ^ j * q" using assms(4) by blast
    have "unat x div 2 ^ j = q \<longleftrightarrow> 2 ^ j * q \<le> unat x \<and> unat x < 2 ^ j * q + 2 ^ j"
      using dividend_less_times_div [of "2 ^ j" "unat x"] by (auto simp: div_nat_eqI add.commute)
    then show ?thesis unfolding q by simp
  qed
  finally show ?thesis .
qed

text \<open>The registers are apart.\<close>

lemma reg_number: "i < 256 \<Longrightarrow> unat (0x200 + of_nat i * 2 :: u32) = 0x200 + 2 * i"
  by (rule of_nat_inverse) (simp_all add: mult.commute)

lemma reg_number_mask: "i < 256 \<Longrightarrow> unat (0x200 + of_nat i * 2 + 1 :: u32) = 0x201 + 2 * i"
  using of_nat_inverse [of "0x201 + 2 * i" "0x200 + of_nat i * 2 + 1 :: u32"] by (simp add: mult.commute)

lemma regs_distinct:
  assumes "i < 256" and "k < 256"
  shows "(0x200 + of_nat i * 2 :: u32) = 0x200 + of_nat k * 2 \<longleftrightarrow> i = k"
    and "(0x200 + of_nat i * 2 + 1 :: u32) = 0x200 + of_nat k * 2 + 1 \<longleftrightarrow> i = k"
    and "(0x200 + of_nat i * 2 :: u32) \<noteq> 0x200 + of_nat k * 2 + 1"
    and "(0x200 + of_nat i * 2 + 1 :: u32) \<noteq> 0x200 + of_nat k * 2"
  using reg_number [OF assms(1)] reg_number [OF assms(2)] reg_number_mask [OF assms(1)] reg_number_mask [OF assms(2)]
  by (simp_all only: word_unat_eq_iff) presburger+

text \<open>
  What programming a number of free registers leaves: the ones that were valid are untouched,
  and the new ones have the given type and match exactly the given addresses.
\<close>

definition programmed :: "nat \<Rightarrow> nat \<Rightarrow> u64 \<Rightarrow> nat set \<Rightarrow> (u32 \<Rightarrow> u64) \<Rightarrow> (u32 \<Rightarrow> u64) \<Rightarrow> bool" where
  "programmed n mp type R m m' \<longleftrightarrow>
     (\<forall>i<n. mtrr_valid m i \<longrightarrow> mtrr_valid m' i \<and> m' (0x200 + of_nat i * 2) = m (0x200 + of_nat i * 2)
        \<and> m' (0x200 + of_nat i * 2 + 1) = m (0x200 + of_nat i * 2 + 1))
     \<and> (\<forall>i<n. mtrr_valid m' i \<and> \<not> mtrr_valid m i \<longrightarrow> mtrr_type m' i = type)
     \<and> (\<forall>x. unat x < 2 ^ mp \<longrightarrow>
          ((\<exists>i<n. \<not> mtrr_valid m i \<and> mtrr_matches m' i x) \<longleftrightarrow> unat x \<in> R))"

lemma programmed_refl: "programmed n mp type {} m m"
  by (simp add: programmed_def mtrr_matches_def)

lemma programmed_trans:
  assumes "programmed n mp type R m m1" and "programmed n mp type S m1 m2"
  shows "programmed n mp type (R \<union> S) m m2"
proof -
  have same: "mtrr_matches m2 i x = mtrr_matches m1 i x \<and> mtrr_type m2 i = mtrr_type m1 i" if "i < n" "mtrr_valid m1 i" for i x
    using assms(2) that by (simp add: programmed_def mtrr_matches_def mtrr_type_def)
  have old: "mtrr_valid m1 i" if "i < n" "mtrr_valid m i" for i using assms(1) that by (simp add: programmed_def)
  show ?thesis unfolding programmed_def
  proof (intro conjI allI impI)
    fix i assume i: "i < n" "mtrr_valid m2 i \<and> \<not> mtrr_valid m i"
    show "mtrr_type m2 i = type"
      using i assms same [of i] by (cases "mtrr_valid m1 i") (simp_all add: programmed_def)
  next
    fix x :: u64 assume x: "unat x < 2 ^ mp"
    have "(\<exists>i<n. \<not> mtrr_valid m i \<and> mtrr_matches m2 i x) \<longleftrightarrow>
      (\<exists>i<n. \<not> mtrr_valid m i \<and> mtrr_matches m1 i x) \<or> (\<exists>i<n. \<not> mtrr_valid m1 i \<and> mtrr_matches m2 i x)"
      using same old by (metis mtrr_matches_def)
    then show "(\<exists>i<n. \<not> mtrr_valid m i \<and> mtrr_matches m2 i x) \<longleftrightarrow> unat x \<in> R \<union> S"
      using assms x by (simp add: programmed_def)
  qed (use assms in \<open>simp_all add: programmed_def\<close>)
qed

lemma low_bits_clear: "2 ^ j dvd unat (b::u64) \<longleftrightarrow> (\<forall>i<j. \<not> bit b i)"
proof -
  have "2 ^ j dvd unat b \<longleftrightarrow> take_bit j (unat b) = 0" by (simp add: take_bit_eq_mod dvd_eq_mod_eq_0)
  also have "\<dots> \<longleftrightarrow> (\<forall>i<j. \<not> bit (unat b) i)" by (auto simp: bit_eq_iff bit_take_bit_iff)
  also have "\<dots> \<longleftrightarrow> (\<forall>i<j. \<not> bit b i)" by (simp add: bit_unsigned_iff)
  finally show ?thesis .
qed

lemma clzll_top:
  assumes "bit x m"
  shows "m \<le> 63 - clzll x"
proof (rule ccontr)
  assume "\<not> m \<le> 63 - clzll x"
  moreover have m: "m < 64" using bit_above [OF assms] .
  moreover have "x \<noteq> 0" using assms by auto
  then have "clzll x < 64" using clzll_bits(2) by blast
  ultimately have "63 - m < clzll x" by linarith
  moreover have "bit x (63 - (63 - m))" "63 - m < 64" using assms m by simp_all
  ultimately show False
    using takeWhile_first(3) [of "\<lambda>i. bit x (63 - i)" "63 - m" 64 "clzll x", OF _ _ clzll_def] by blast
qed

lemma chunk_size_power:
  assumes "4096 dvd unat base" and "4096 dvd unat span" and "span \<noteq> 0"
  obtains j where "chunk_size base span = 2 ^ j" "12 \<le> j" "j < 64" "2 ^ j dvd unat base" "2 ^ j \<le> unat span"
proof -
  let ?a = "ctzll base" and ?b = "63 - clzll span"
  have page: "2 ^ 12 = (4096::nat)" by simp
  obtain m where m: "bit span m" using nonzero_bit [OF assms(3)] by blast
  then have "12 \<le> m" using assms(2) low_bits_clear [of 12 span] unfolding page by (meson not_less)
  then have b: "12 \<le> ?b" "?b < 64" "2 ^ ?b \<le> unat span"
    using clzll_top [OF m] bit_le_unat [OF clzll_bits(1) [OF assms(3)]] by simp_all
  have ub: "unat (2 ^ ?b :: u64) = 2 ^ ?b" using unat_exp [OF b(2)] .
  show ?thesis
  proof (cases "base = 0")
    case True
    then have "chunk_size base span = 2 ^ ?b"
      using b(3) ub by (simp add: chunk_size_def Let_def word_less_nat_alt)
    then show ?thesis using that [of ?b] b True by simp
  next
    case False
    note a = ctzll_bits [OF False]
    have ua: "unat (2 ^ ?a :: u64) = 2 ^ ?a" using unat_exp [OF a(2)] .
    have a12: "12 \<le> ?a" using assms(1) low_bits_clear [of 12 base] a(1) unfolding page by (meson not_less)
    have da: "2 ^ ?a dvd unat base" using a(3) low_bits_clear by blast
    have k: "chunk_size base span = (if (2::u64) ^ ?a < 2 ^ ?b then 2 ^ ?a else 2 ^ ?b)"
      using False by (simp add: chunk_size_def Let_def)
    show ?thesis
    proof (cases "(2::u64) ^ ?a < 2 ^ ?b")
      case True
      then have "unat ((2::u64) ^ ?a) < unat ((2::u64) ^ ?b)" by (simp only: word_less_nat_alt)
      then have "2 ^ ?a \<le> unat span" using ua ub b(3) by linarith
      then show ?thesis using that [of ?a] k True a12 a(2) da by simp
    next
      case f: False
      then have "?b \<le> ?a" using ua ub by (simp add: word_less_nat_alt)
      then have "2 ^ ?b dvd unat base" using da le_imp_power_dvd dvd_trans by blast
      then show ?thesis using that [of ?b] k f b by simp
    qed
  qed
qed

lemma wc_add_mtrr_programs:
  assumes "wc_add_mtrr b (2 ^ j) MTRR_TYPE_WC mp n c = (True, c')" and "n \<le> 256"
    and "12 \<le> j" and "mp \<le> 52" and "2 ^ j dvd unat b" and "unat b + 2 ^ j \<le> 2 ^ mp"
  shows "programmed n mp MTRR_TYPE_WC {unat b..<unat b + 2 ^ j} (msr c) (msr c')
    \<and> (\<exists>slot<n. \<exists>v w. msr c' = (msr c)(0x200 + of_nat slot * 2 := v, 0x200 + of_nat slot * 2 + 1 := w)
        \<and> events c' = events c @ [Wrmsr (0x200 + of_nat slot * 2) v, Wrmsr (0x200 + of_nat slot * 2 + 1) w])
    \<and> cr0 c' = cr0 c \<and> interrupts c' = interrupts c \<and> saved_mtrrs c' = saved_mtrrs c"
proof -
  have "(2::nat) ^ j \<le> 2 ^ mp" using assms(6) by (rule add_leD2)
  then have jm: "j \<le> mp" by simp
  obtain slot where slot: "free_slot c n = Some slot" using assms(1) by (auto simp: wc_add_mtrr_def split: option.splits)
  then have sl: "slot < n" "\<not> mtrr_valid (msr c) slot"
    by (auto simp: free_slot_def find_Some_iff mtrr_valid_def)
  define v w where "v = or b MTRR_TYPE_WC"
    and "w = or (and (push_bit mp 1 - 1) (not (2 ^ j - 1))) (push_bit 11 (1::u64))"
  have m: "msr c' = (msr c)(0x200 + of_nat slot * 2 := v, 0x200 + of_nat slot * 2 + 1 := w)"
    "events c' = events c @ [Wrmsr (0x200 + of_nat slot * 2) v, Wrmsr (0x200 + of_nat slot * 2 + 1) w]"
    "cr0 c' = cr0 c" "interrupts c' = interrupts c" "saved_mtrrs c' = saved_mtrrs c"
    using assms(1) slot by (auto simp: wc_add_mtrr_def Let_def v_def w_def)
  have rest: "msr c' (0x200 + of_nat i * 2) = (if i = slot then v else msr c (0x200 + of_nat i * 2))"
    "msr c' (0x200 + of_nat i * 2 + 1) = (if i = slot then w else msr c (0x200 + of_nat i * 2 + 1))" if "i < n" for i
    using regs_distinct [of i slot] that sl(1) assms(2) unfolding m(1) by simp_all
  have w11: "bit w 11" unfolding w_def word_bits by simp
  have valid: "mtrr_valid (msr c') i \<longleftrightarrow> i = slot \<or> mtrr_valid (msr c) i" if "i < n" for i
    using rest(2) [OF that] w11 by (simp add: mtrr_valid_def)
  have ty: "and v 0xff = MTRR_TYPE_WC"
  proof -
    have "(0xff::u64) = mask 8" by (simp add: mask_eq_exp_minus_1)
    moreover have "\<not> bit b i" if "i < 8" for i using assms(3,5) that low_bits_clear [of j b] by auto
    ultimately show ?thesis
      unfolding v_def MTRR_TYPE_WC_def by (intro bit_word_eqI) (auto simp only: word_bits)
  qed
  have match: "mtrr_matches (msr c') slot x \<longleftrightarrow> unat x \<in> {unat b..<unat b + 2 ^ j}" if "unat x < 2 ^ mp" for x
  proof -
    have "unat b < 2 ^ mp" using assms(6) by (rule less_le_trans [rotated]) simp
    from range_match [OF assms(3) jm assms(4,5) this that] show ?thesis
      using valid [OF sl(1)] rest [OF sl(1)] by (simp add: mtrr_matches_def Let_def v_def w_def MTRR_TYPE_WC_def)
  qed
  have "programmed n mp MTRR_TYPE_WC {unat b..<unat b + 2 ^ j} (msr c) (msr c')"
    unfolding programmed_def
  proof (intro conjI allI impI)
    fix i assume "i < n" "mtrr_valid (msr c') i \<and> \<not> mtrr_valid (msr c) i"
    then show "mtrr_type (msr c') i = MTRR_TYPE_WC" using valid rest(1) ty by (auto simp: mtrr_type_def)
  next
    fix x :: u64 assume "unat x < 2 ^ mp"
    then show "(\<exists>i<n. \<not> mtrr_valid (msr c) i \<and> mtrr_matches (msr c') i x) \<longleftrightarrow> unat x \<in> {unat b..<unat b + 2 ^ j}"
      using match sl valid by (metis mtrr_matches_def)
  qed (use valid rest sl in auto)
  then show ?thesis using m sl by blast
qed

lemma slot_in_variable:
  assumes "slot < n"
  shows "0x200 + of_nat slot * 2 \<in> set (variable_mtrrs n)" and "0x200 + of_nat slot * 2 + 1 \<in> set (variable_mtrrs n)"
proof -
  have "2 * slot < 2 * n" "2 * slot + 1 < 2 * n" using assms by simp_all
  then have "0x200 + of_nat (2 * slot) \<in> set (variable_mtrrs n)" "0x200 + of_nat (2 * slot + 1) \<in> set (variable_mtrrs n)"
    unfolding variable_mtrrs_def set_map set_upt by (auto intro!: imageI simp del: of_nat_mult of_nat_Suc)
  then show "0x200 + of_nat slot * 2 \<in> set (variable_mtrrs n)" "0x200 + of_nat slot * 2 + 1 \<in> set (variable_mtrrs n)"
    by (simp_all add: mult.commute add.commute add.left_commute)
qed

text \<open>Successful or not, adding registers only writes variable range registers.\<close>

definition only_regs :: "u32 set \<Rightarrow> cpu \<Rightarrow> cpu \<Rightarrow> bool" where
  "only_regs R c c' \<longleftrightarrow>
     (\<exists>ws. events c' = events c @ map (\<lambda>(a, v). Wrmsr a v) ws \<and> fst ` set ws \<subseteq> R)
     \<and> (\<forall>a. a \<notin> R \<longrightarrow> msr c' a = msr c a)
     \<and> cr0 c' = cr0 c \<and> interrupts c' = interrupts c \<and> saved_mtrrs c' = saved_mtrrs c"

lemma only_regs_refl: "only_regs R c c"
  unfolding only_regs_def by (intro conjI exI [of _ "[]"]) simp_all

lemma only_regs_trans:
  assumes "only_regs R c c1" and "only_regs R c1 c2"
  shows "only_regs R c c2"
proof -
  obtain ws vs where "events c1 = events c @ map (\<lambda>(a, v). Wrmsr a v) ws" "fst ` set ws \<subseteq> R"
    "events c2 = events c1 @ map (\<lambda>(a, v). Wrmsr a v) vs" "fst ` set vs \<subseteq> R"
    using assms unfolding only_regs_def by blast
  then have "\<exists>us. events c2 = events c @ map (\<lambda>(a, v). Wrmsr a v) us \<and> fst ` set us \<subseteq> R"
    by (intro exI [of _ "ws @ vs"]) auto
  then show ?thesis using assms unfolding only_regs_def by simp
qed

lemma only_regs_wrmsr: "a \<in> R \<Longrightarrow> only_regs R c (wrmsr a v c)"
  unfolding only_regs_def by (intro conjI exI [of _ "[(a, v)]"]) auto

lemma only_regs_fold: "(\<And>x c. x \<in> set xs \<Longrightarrow> only_regs R c (f x c)) \<Longrightarrow> only_regs R c (fold f xs c)"
  by (induction xs arbitrary: c) (auto intro: only_regs_refl only_regs_trans)

lemma wc_add_mtrr_only: "wc_add_mtrr b k type mp n c = (ok, c') \<Longrightarrow> only_regs (set (variable_mtrrs n)) c c'"
proof (cases "free_slot c n")
  case None
  then show "wc_add_mtrr b k type mp n c = (ok, c') \<Longrightarrow> only_regs (set (variable_mtrrs n)) c c'"
    by (simp add: wc_add_mtrr_def only_regs_refl)
next
  case (Some slot)
  then have sl: "slot < n" by (auto simp: free_slot_def find_Some_iff)
  assume "wc_add_mtrr b k type mp n c = (ok, c')"
  then obtain v w where "c' = wrmsr (0x200 + of_nat slot * 2 + 1) w (wrmsr (0x200 + of_nat slot * 2) v c)"
    using Some by (auto simp: wc_add_mtrr_def Let_def)
  then show ?thesis
    using slot_in_variable [OF sl] unfolding only_regs_def
    by (intro conjI exI [of _ "[(0x200 + of_nat slot * 2, v), (0x200 + of_nat slot * 2 + 1, w)]"]) auto
qed

lemma wc_add_chunks_only: "wc_add_chunks base span type mp n c = (ok, c') \<Longrightarrow> only_regs (set (variable_mtrrs n)) c c'"
proof (induction base span type mp n c rule: wc_add_chunks.induct)
  case (1 base span type mp n c)
  show ?case
  proof (cases "span = 0")
    case True
    then show ?thesis using "1.prems" by (subst (asm) wc_add_chunks.simps) (simp add: only_regs_refl)
  next
    case False
    obtain ok1 c1 where a: "wc_add_mtrr base (chunk_size base span) type mp n c = (ok1, c1)" by (metis surj_pair)
    note o = wc_add_mtrr_only [OF a]
    show ?thesis
    proof (cases ok1)
      case True
      then have "wc_add_chunks (base + chunk_size base span) (span - chunk_size base span) type mp n c1 = (ok, c')"
        using "1.prems" False a by (subst (asm) wc_add_chunks.simps) (simp add: Let_def)
      then show ?thesis using "1.IH" [OF False refl a [symmetric]] True o only_regs_trans by blast
    next
      case f: False
      then show ?thesis using "1.prems" False a o by (subst (asm) wc_add_chunks.simps) (simp add: Let_def)
    qed
  qed
qed

lemma wc_add_chunks_programs:
  assumes "wc_add_chunks base span MTRR_TYPE_WC mp n c = (True, c')" and "n \<le> 256" and "mp \<le> 52"
    and "4096 dvd unat base" and "4096 dvd unat span" and "unat base + unat span \<le> 2 ^ mp"
  shows "programmed n mp MTRR_TYPE_WC {unat base..<unat base + unat span} (msr c) (msr c')"
  using assms
proof (induction base span MTRR_TYPE_WC mp n c rule: wc_add_chunks.induct)
  case (1 base span mp n c)
  show ?case
  proof (cases "span = 0")
    case True
    then show ?thesis using "1.prems"(1) by (subst (asm) wc_add_chunks.simps) (simp add: programmed_refl)
  next
    case False
    obtain j where j: "chunk_size base span = 2 ^ j" "12 \<le> j" "j < 64" "2 ^ j dvd unat base" "2 ^ j \<le> unat span"
      using chunk_size_power [OF "1.prems"(4,5) False] .
    obtain ok1 c1 where a: "wc_add_mtrr base (2 ^ j) MTRR_TYPE_WC mp n c = (ok1, c1)" by (metis surj_pair)
    have ok1: "ok1" and rest: "wc_add_chunks (base + 2 ^ j) (span - 2 ^ j) MTRR_TYPE_WC mp n c1 = (True, c')"
      using "1.prems"(1) False a j(1) by (subst (asm) wc_add_chunks.simps, simp add: Let_def split: bool.splits)+
    have u: "unat (2 ^ j :: u64) = 2 ^ j" using unat_exp [OF j(3)] .
    have "(2::nat) ^ mp \<le> 2 ^ 52" using "1.prems"(3) by (rule power_increasing) simp
    then have le: "unat base + unat span < 2 ^ 64" using "1.prems"(6) by simp
    have b: "unat (base + 2 ^ j) = unat base + 2 ^ j" using u j(5) le by (subst unat_add_exact) simp_all
    have s: "unat (span - 2 ^ j) = unat span - 2 ^ j" using u j(5) by (subst unat_sub_exact) simp_all
    have page: "4096 dvd (2::nat) ^ j" using le_imp_power_dvd [OF j(2), of "2::nat"] by simp
    have p1: "programmed n mp MTRR_TYPE_WC {unat base..<unat base + 2 ^ j} (msr c) (msr c1)"
      using wc_add_mtrr_programs [of base j mp n c c1] a ok1 "1.prems"(2,3,6) j(2,4,5) by simp
    have p2: "programmed n mp MTRR_TYPE_WC {unat base + 2 ^ j..<unat base + unat span} (msr c1) (msr c')"
      using "1.hyps" [OF False refl, unfolded j(1), OF a [symmetric]] ok1 rest "1.prems"(2-6) b s page j(5) by simp
    have "{unat base..<unat base + 2 ^ j} \<union> {unat base + 2 ^ j..<unat base + unat span} = {unat base..<unat base + unat span}"
      using j(5) by auto
    then show ?thesis using programmed_trans [OF p1 p2] by (simp only:)
  qed
qed

lemma variable_not_def:
  assumes "n \<le> 40"
  shows "0x2ff \<notin> set (variable_mtrrs n)"
proof -
  have "(0x2ff::u32) \<noteq> 0x200 + of_nat i" if "i < 2 * n" for i
  proof
    assume e: "(0x2ff::u32) = 0x200 + of_nat i"
    have "unat (0x200 + of_nat i :: u32) = 0x200 + i" using that assms by (intro of_nat_inverse) simp_all
    then have "unat (0x2ff::u32) = 0x200 + i" by (simp only: e)
    then show False using that assms by simp
  qed
  then show ?thesis by (auto simp: variable_mtrrs_def)
qed

lemma unat_page_base: "unat (and (x::u64) (not 0xfff)) = unat x div 4096 * 4096"
proof -
  have "and x (not 0xfff) = push_bit 12 (drop_bit 12 x)"
    unfolding fff_mask by (rule bit_word_eqI) (auto simp: bit_simps)
  moreover have "unat (push_bit 12 (drop_bit 12 x)) = unat (drop_bit 12 x) * 2 ^ 12"
  proof -
    have "unat x div 4096 * 4096 < 2 ^ 64"
      using unat_bound [of x] by (intro le_less_trans [OF div_times_less_eq_dividend]) simp
    then show ?thesis
      by (subst unsigned_push_bit_eq) (simp add: push_bit_eq_mult take_bit_nat_eq_self unat_drop_bit)
  qed
  ultimately show ?thesis by (simp add: unat_drop_bit)
qed

lemma page_in_range:
  assumes "4096 dvd unat b" and "4096 dvd unat e" and "unat b \<le> unat x" and "unat x < unat e"
  shows "and x (not 0xfff) \<in> set (range_pages b e)"
proof -
  let ?i = "(unat x - unat b) div 4096"
  obtain q where q: "unat b = 4096 * q" using assms(1) by blast
  obtain r where r: "unat e = 4096 * r" using assms(2) by blast
  have d: "unat x div 4096 = q + ?i" using assms(3) unfolding q by (simp add: div_nat_eqI less_eq_div_iff_mult_less_eq)
  have "unat x div 4096 < r" using assms(4) r by (simp add: less_mult_imp_div_less mult.commute)
  then have i: "?i < unat (e - b) div 4096"
    using d assms(3,4) q r by (subst unat_sub_exact) (simp_all add: diff_mult_distrib2 [symmetric])
  have "b + of_nat ?i * 0x1000 = of_nat (4096 * q + ?i * 4096)" using word_of_unat [OF q] by simp
  also have "4096 * q + ?i * 4096 = unat (and x (not 0xfff))" unfolding unat_page_base d by simp
  finally have "and x (not 0xfff) = b + of_nat ?i * 0x1000" by simp
  then show ?thesis using i unfolding range_pages_def set_map set_upt by (auto intro!: image_eqI [of _ _ ?i])
qed

lemma no_clash_no_match:
  assumes "\<not> mtrr_clash c b e i" and "4096 dvd unat b" and "4096 dvd unat e" and "unat b \<le> unat x" and "unat x < unat e"
  shows "\<not> mtrr_matches (msr c) i x"
proof
  assume m: "mtrr_matches (msr c) i x"
  let ?M = "and (msr c (0x200 + of_nat i * 2 + 1)) (not 0xfff)" and ?a = "and x (not 0xfff)"
  have "and ?a ?M = and x ?M" by (rule bit_word_eqI) (auto simp: bit_simps)
  then have "and ?a ?M = and (and (msr c (0x200 + of_nat i * 2)) (not 0xfff)) ?M" "mtrr_valid (msr c) i"
    using m by (simp_all add: mtrr_matches_def Let_def)
  then have "mtrr_clash c b e i"
    using page_in_range [OF assms(2-5)] unfolding mtrr_clash_def Let_def list_ex_iff mtrr_valid_def by blast
  then show False using assms(1) by blast
qed

text \<open>What a call comes to: either nothing was touched, or the whole sequence ran.\<close>

definition wc_prologue :: "cpuid_leaves \<Rightarrow> bool \<Rightarrow> cpu \<Rightarrow> cpu" where
  "wc_prologue ids uefi c =
     (let c1 = mtrr_save ids c; c2 = (if uefi then c1\<lparr>interrupts := False\<rparr> else c1)
      in wrmsr 0x2ff (and (rdmsr c 0x2ff) (not (push_bit 11 1))) (flush_tlb (wbinvd (set_cr0 (no_fill_cr0 (cr0 c)) c2))))"

definition wc_epilogue :: "bool \<Rightarrow> u64 \<Rightarrow> u64 \<Rightarrow> cpu \<Rightarrow> cpu" where
  "wc_epilogue uefi def0 old c =
     (let c1 = set_cr0 old (wbinvd (flush_tlb (wrmsr 0x2ff def0 c)))
      in if uefi then c1\<lparr>interrupts := True\<rparr> else c1)"

lemma mtrr_save_same:
  "msr (mtrr_save ids c) = msr c" "cr0 (mtrr_save ids c) = cr0 c" "events (mtrr_save ids c) = events c"
  by (simp_all add: mtrr_save_def Let_def)

lemma wc_range_cases:
  assumes "mtrr_wc_add_fb_range uefi ids base sz c = (ok, c')"
  obtains (refused) "\<not> ok" "c' = c"
  | (ran) eax e c2 where "leaf80000008_eax ids = Some eax" "32 \<le> unat (and eax 0xff)" "unat (and eax 0xff) \<le> 52"
      "unat (and base (not 0xfff)) = unat base div 4096 * 4096"
      "unat e = (unat base + unat sz + 4095) div 4096 * 4096"
      "\<forall>i<unat (var_count c). \<not> mtrr_clash c (and base (not 0xfff)) e i"
      "wc_add_chunks (and base (not 0xfff)) (e - and base (not 0xfff)) MTRR_TYPE_WC (unat (and eax 0xff))
         (unat (var_count c)) (wc_prologue ids uefi c) = (ok, c2)"
      "c' = wc_epilogue uefi (msr c 0x2ff) (cr0 c) c2"
proof -
  let ?b = "and base (not 0xfff)" and ?n = "unat (var_count c)"
  consider "mtrr_wc_add_fb_range uefi ids base sz c = (False, c)"
    | eax r e where "leaf80000008_eax ids = Some eax" "\<not> (unat (and eax 0xff) < 32 \<or> unat (and eax 0xff) > 52)"
      "CHECKED_ADD base sz = Some r" "ALIGN_UP r 0x1000 = Some e" "\<not> list_ex (mtrr_clash c ?b e) [0..<?n]"
      "sz \<noteq> 0" "mtrr_supported ids" "bit (rdmsr c 0xfe) 10"
  proof (cases "sz = 0 \<or> \<not> mtrr_supported ids \<or> \<not> bit (rdmsr c 0xfe) 10")
    case True
    then show ?thesis using that(1) by (auto simp: mtrr_wc_add_fb_range_def)
  next
    case f: False
    show ?thesis
    proof (cases "leaf80000008_eax ids")
      case (Some eax)
      show ?thesis
      proof (cases "CHECKED_ADD base sz")
        case r: (Some r)
        show ?thesis
        proof (cases "ALIGN_UP r 0x1000")
          case (Some e)
          then show ?thesis using f \<open>leaf80000008_eax ids = Some eax\<close> r that(2) [of eax r e]
            by (cases "unat (and eax 0xff) < 32 \<or> unat (and eax 0xff) > 52"; cases "list_ex (mtrr_clash c ?b e) [0..<?n]")
              (simp_all add: mtrr_wc_add_fb_range_def Let_def that(1))
        qed (use f Some r that(1) in \<open>simp add: mtrr_wc_add_fb_range_def Let_def\<close>)
      qed (use f Some that(1) in \<open>simp add: mtrr_wc_add_fb_range_def Let_def\<close>)
    qed (use f that(1) in \<open>simp add: mtrr_wc_add_fb_range_def\<close>)
  qed
  then show thesis
  proof cases
    case 1
    then show ?thesis using refused assms by simp
  next
    case 2
    obtain ok2 c2 where w: "wc_add_chunks ?b (e - ?b) MTRR_TYPE_WC (unat (and eax 0xff)) ?n (wc_prologue ids uefi c) = (ok2, c2)"
      by (metis surj_pair)
    have "mtrr_wc_add_fb_range uefi ids base sz c = (ok2, wc_epilogue uefi (msr c 0x2ff) (cr0 c) c2)"
      using 2 w unfolding mtrr_wc_add_fb_range_def wc_prologue_def wc_epilogue_def
      by (simp add: Let_def mtrr_save_same split: if_splits)
    then have r: "ok2 = ok" "c' = wc_epilogue uefi (msr c 0x2ff) (cr0 c) c2" using assms by simp_all
    have "unat e = (unat base + unat sz + 4095) div 4096 * 4096"
      using ALIGN_UP_unat [OF 2(4)] CHECKED_ADD_unat [OF 2(3)] by simp
    then show ?thesis
      using ran [of eax e c2] 2(1,2,5) w r unat_page_base by (simp add: list_all_iff [symmetric] list_ex_iff atLeast0LessThan)
  qed
qed

lemma programmed_cong:
  assumes "\<forall>a\<in>set (variable_mtrrs n). m a = k a \<and> m' a = k' a"
  shows "programmed n mp type R m m' = programmed n mp type R k k'"
proof -
  have "m (0x200 + of_nat i * 2) = k (0x200 + of_nat i * 2) \<and> m (0x200 + of_nat i * 2 + 1) = k (0x200 + of_nat i * 2 + 1)
    \<and> m' (0x200 + of_nat i * 2) = k' (0x200 + of_nat i * 2) \<and> m' (0x200 + of_nat i * 2 + 1) = k' (0x200 + of_nat i * 2 + 1)"
    if "i < n" for i
    using assms slot_in_variable [OF that] by blast
  then show ?thesis
    unfolding programmed_def mtrr_matches_def mtrr_valid_def mtrr_type_def Let_def
    by (intro arg_cong2 [of _ _ _ _ "(\<and>)"] all_cong1 imp_cong refl arg_cong2 [of _ _ _ _ "(=)"] ex_cong1 conj_cong) auto
qed

text \<open>
  C16. When a framebuffer was made write-combining, the new registers have the write-combining
  type and together match exactly the pages of the framebuffer: every address from the page of
  its first byte to the end of the page of its last byte, and no other address of the physical
  address space. Every register that was in use is as it was, and none of them matches in that
  range. The default type register and \<^verbatim>\<open>cr0\<close> are as before. (The variable range
  registers lie below the fixed ones, so there are at most 40.)
\<close>

theorem framebuffer_write_combining:
  assumes "mtrr_wc_add_fb_range uefi ids base sz c = (True, c')" and "unat (var_count c) \<le> 40"
    and "leaf80000008_eax ids = Some eax" and "mp = unat (and eax 0xff)"
    and "unat base + unat sz \<le> 2 ^ mp"
  defines "fb \<equiv> {unat base div 4096 * 4096..<(unat base + unat sz + 4095) div 4096 * 4096}"
  shows "programmed (unat (var_count c)) mp MTRR_TYPE_WC fb (msr c) (msr c')
    \<and> (\<forall>i<unat (var_count c). \<forall>x. unat x \<in> fb \<longrightarrow> \<not> mtrr_matches (msr c) i x)
    \<and> msr c' 0x2ff = msr c 0x2ff \<and> cr0 c' = cr0 c"
  using assms(1)
proof (cases rule: wc_range_cases)
  case (ran eax' e c2)
  let ?n = "unat (var_count c)" and ?b = "and base (not 0xfff)"
  have mp: "mp = unat (and eax' 0xff)" "12 \<le> mp" "mp \<le> 52" using assms(3,4) ran(1-3) by simp_all
  have dv: "4096 dvd unat ?b" "4096 dvd unat e" using ran(4,5) by simp_all
  have le: "unat ?b \<le> unat e" unfolding ran(4,5) by (intro mult_le_mono div_le_mono) simp_all
  have top: "unat e \<le> 2 ^ mp"
  proof -
    obtain q where q: "(2::nat) ^ mp = 4096 * q" using le_imp_power_dvd [OF mp(2), of "2::nat"] by auto
    have "(unat base + unat sz + 4095) div 4096 \<le> (2 ^ mp + 4095) div 4096" using assms(5) by (intro div_le_mono) simp
    also have "\<dots> = q" unfolding q by simp
    finally show ?thesis using q ran(5) by simp
  qed
  have span: "unat (e - ?b) = unat e - unat ?b" using le by (rule unat_sub_exact)
  have fb: "fb = {unat ?b..<unat ?b + unat (e - ?b)}" using le span unfolding fb_def ran(4,5) by simp
  let ?c1 = "wc_prologue ids uefi c"
  have c1: "msr ?c1 = (msr c)(0x2ff := and (rdmsr c 0x2ff) (not (push_bit 11 1)))"
    by (simp add: wc_prologue_def Let_def mtrr_save_same)
  have c': "msr c' = (msr c2)(0x2ff := msr c 0x2ff)" "cr0 c' = cr0 c" by (simp_all add: ran(8) wc_epilogue_def Let_def)
  have "programmed ?n mp MTRR_TYPE_WC fb (msr ?c1) (msr c2)"
    unfolding fb using assms(2) mp dv le top span
    by (intro wc_add_chunks_programs [OF ran(7) [folded mp(1)]]) (simp_all add: dvd_diff_nat)
  also have "programmed ?n mp MTRR_TYPE_WC fb (msr ?c1) (msr c2) = programmed ?n mp MTRR_TYPE_WC fb (msr c) (msr c')"
    using variable_not_def [OF assms(2)] by (intro programmed_cong) (auto simp: c1 c')
  finally have p: "programmed ?n mp MTRR_TYPE_WC fb (msr c) (msr c')" .
  have "\<not> mtrr_matches (msr c) i x" if "i < ?n" "unat x \<in> fb" for i x
    using no_clash_no_match [OF ran(6) [rule_format, OF that(1)] dv] that(2) le span unfolding fb by simp
  then show ?thesis using p c' by auto
qed simp

text \<open>A processor with two variable range registers, both free.\<close>

definition two_free :: cpu where
  "two_free = \<lparr>msr = (\<lambda>a. if a = 0xfe then 0x402 else 0), cr0 = 0x80000011, interrupts = True,
     saved_mtrrs = None, events = []\<rparr>"

definition wc_leaves :: cpuid_leaves where
  "wc_leaves = \<lparr>leaf1_edx = Some 0x1000, leaf80000008_eax = Some 0x24\<rparr>"

lemma example_chunks: "chunk_size 0x10000 0x3000 = 0x2000" "chunk_size 0x12000 0x1000 = 0x1000"
proof -
  have "ctzll 0x10000 = 16" "ctzll 0x12000 = 13" by (simp_all add: ctzll_def upt_rec bit_numeral_rec)
  moreover have "clzll 0x3000 = 50" "clzll 0x1000 = 51" by (simp_all add: clzll_def upt_rec bit_numeral_rec)
  ultimately show "chunk_size 0x10000 0x3000 = 0x2000" "chunk_size 0x12000 0x1000 = 0x1000"
    by (simp_all add: chunk_size_def)
qed

lemma example_wc_chunks:
  assumes "msr c 0x201 = 0" and "msr c 0x203 = 0"
  shows "fst (wc_add_chunks 0x10000 0x3000 ty mp 2 c)"
proof -
  obtain c1 where c1: "wc_add_mtrr 0x10000 0x2000 ty mp 2 c = (True, c1)" "msr c1 0x203 = 0" "bit (msr c1 0x201) 11"
    using assms by (simp add: wc_add_mtrr_def free_slot_def upt_rec Let_def bit_simps)
  obtain c2 where c2: "wc_add_mtrr 0x12000 0x1000 ty mp 2 c1 = (True, c2)"
    using c1 by (simp add: wc_add_mtrr_def free_slot_def upt_rec Let_def)
  have "wc_add_chunks 0x13000 0 ty mp 2 c2 = (True, c2)" by (subst wc_add_chunks.simps) simp
  then have "wc_add_chunks 0x12000 0x1000 ty mp 2 c1 = (True, c2)"
    by (subst wc_add_chunks.simps) (simp add: example_chunks c2)
  then show ?thesis by (subst wc_add_chunks.simps) (simp add: example_chunks c1)
qed

lemma example_wc_range: "fst (mtrr_wc_add_fb_range False wc_leaves 0x10000 0x3000 two_free)"
  by (simp add: mtrr_wc_add_fb_range_def wc_leaves_def two_free_def mtrr_supported_def bit_numeral_rec var_count_def
    CHECKED_ADD_def ALIGN_UP_def DIV_ROUNDUP_def mtrr_clash_def range_pages_def upt_rec mtrr_save_def
    save_variable_def fix_supported_def Let_def case_prod_unfold example_wc_chunks)

theorem framebuffer_write_combining_witness:
  "\<exists>c'. mtrr_wc_add_fb_range False wc_leaves 0x10000 0x3000 two_free = (True, c') \<and>
     (\<exists>i<2. mtrr_matches (msr c') i 0x12fff \<and> mtrr_type (msr c') i = 1) \<and>
     (\<forall>i<2. \<not> mtrr_matches (msr c') i 0x13000)"
proof -
  obtain c' where c': "mtrr_wc_add_fb_range False wc_leaves 0x10000 0x3000 two_free = (True, c')"
    using example_wc_range by (cases "mtrr_wc_add_fb_range False wc_leaves 0x10000 0x3000 two_free") simp
  have n: "unat (var_count two_free) = 2" by (simp add: var_count_def two_free_def)
  have free: "\<not> mtrr_valid (msr two_free) i" if "i < 2" for i :: nat
    using that by (auto simp: mtrr_valid_def two_free_def less_2_cases_iff)
  have p: "programmed 2 36 MTRR_TYPE_WC {0x10000..<0x13000} (msr two_free) (msr c')"
    using framebuffer_write_combining [OF c', of "0x24" "36"] by (simp add: n wc_leaves_def)
  then have "\<exists>i<2. mtrr_matches (msr c') i 0x12fff" "\<not> (\<exists>i<2. mtrr_matches (msr c') i 0x13000)"
    unfolding programmed_def using free
    by (auto dest: spec [where x = "0x12fff"] spec [where x = "0x13000"])
  moreover have "mtrr_type (msr c') i = 1" if "i < 2" "mtrr_matches (msr c') i 0x12fff" for i
    using p free that unfolding programmed_def by (simp add: mtrr_matches_def MTRR_TYPE_WC_def)
  ultimately show ?thesis using c' by blast
qed

section \<open>The prescribed order\<close>

text \<open>
  The procedure of the processor manual for changing the registers: the cache goes to no-fill
  mode, is written back, the TLB is flushed, the MTRRs are disabled; only then are the ranges
  written; the default type register is written back, the TLB flushed, the cache written back
  again and only then enabled.
\<close>

datatype phase = Normal | No_Fill | Written_Back | Ready | Disabled | Enabled | Flushed | Clean

fun phase_step :: "phase \<Rightarrow> event \<Rightarrow> phase option" where
  "phase_step Normal (Set_cr0 v) = (if bit v 30 \<and> \<not> bit v 29 then Some No_Fill else None)"
| "phase_step No_Fill Wbinvd = Some Written_Back"
| "phase_step Written_Back Flush_TLB = Some Ready"
| "phase_step Ready (Wrmsr a v) = (if a = 0x2ff \<and> \<not> bit v 11 then Some Disabled else None)"
| "phase_step Disabled (Wrmsr a v) = (if a = 0x2ff then Some Enabled else Some Disabled)"
| "phase_step Enabled Flush_TLB = Some Flushed"
| "phase_step Flushed Wbinvd = Some Clean"
| "phase_step Clean (Set_cr0 v) = Some Normal"
| "phase_step _ _ = None"

fun phases :: "phase \<Rightarrow> event list \<Rightarrow> phase option" where
  "phases p [] = Some p"
| "phases p (e # es) = (case phase_step p e of None \<Rightarrow> None | Some q \<Rightarrow> phases q es)"

lemma phases_append: "phases p (es @ fs) = (case phases p es of None \<Rightarrow> None | Some q \<Rightarrow> phases q fs)"
  by (induction es arbitrary: p) (auto split: option.splits)

lemma no_fill_bits: "bit (no_fill_cr0 v) 30 \<and> \<not> bit (no_fill_cr0 v) 29"
  unfolding no_fill_cr0_def word_bits by simp

lemma phases_range_writes: "0x2ff \<notin> fst ` set ws \<Longrightarrow> phases Disabled (map (\<lambda>(a, v). Wrmsr a v) ws) = Some Disabled"
  by (induction ws) auto

lemma phases_whole:
  assumes "only_regs R c1 c2" and "0x2ff \<notin> R"
    and "events c1 = es @ [Set_cr0 (no_fill_cr0 v), Wbinvd, Flush_TLB, Wrmsr 0x2ff (and w (not (push_bit 11 1)))]"
    and "events c' = events c2 @ [Wrmsr 0x2ff x, Flush_TLB, Wbinvd, Set_cr0 y]"
  shows "\<exists>fs. events c' = es @ fs \<and> phases Normal fs = Some Normal"
proof -
  obtain ws where ws: "events c2 = events c1 @ map (\<lambda>(a, v). Wrmsr a v) ws" "fst ` set ws \<subseteq> R"
    using assms(1) unfolding only_regs_def by blast
  then have "0x2ff \<notin> fst ` set ws" using assms(2) by blast
  note mid = phases_range_writes [OF this]
  have off: "\<not> bit (and w (not (push_bit 11 1))) 11" unfolding word_bits by simp
  show ?thesis
    using ws assms(3,4) mid no_fill_bits [of v] off
    by (intro exI [of _ "[Set_cr0 (no_fill_cr0 v), Wbinvd, Flush_TLB, Wrmsr 0x2ff (and w (not (push_bit 11 1)))] @
      map (\<lambda>(a, v). Wrmsr a v) ws @ [Wrmsr 0x2ff x, Flush_TLB, Wbinvd, Set_cr0 y]"]) (simp add: phases_append)
qed

lemma restore_variable_only: "only_regs (set (variable_mtrrs n)) c (restore_variable s n c)"
proof -
  have "0x200 + of_nat (2 * j) \<in> set (variable_mtrrs n)" "0x200 + of_nat (2 * j) + 1 \<in> set (variable_mtrrs n)" if "j < n" for j
    using slot_in_variable [OF that] by (simp_all add: mult.commute)
  then show ?thesis
    unfolding restore_variable_def Let_def
    by (intro only_regs_fold only_regs_trans [OF only_regs_wrmsr only_regs_wrmsr]) simp_all
qed

lemma restore_fixed_only: "only_regs (set fixed_mtrrs) c (restore_fixed s n c)"
proof -
  have "length fixed_mtrrs = 11" by (simp add: fixed_mtrrs_def)
  then show ?thesis unfolding restore_fixed_def by (intro only_regs_fold only_regs_wrmsr) simp
qed

lemma only_regs_mono: "only_regs R c c' \<Longrightarrow> R \<subseteq> S \<Longrightarrow> only_regs S c c'"
  unfolding only_regs_def by blast



end
