(* ===== verification/Guid.thy ===== *)
theory Guid
  imports Libc_String Limine_Bytes
begin

text \<open>
  GUIDs in text, \<^verbatim>\<open>common/lib/guid.c\<close>. The functions write a \<^verbatim>\<open>struct guid\<close> byte
  by byte, so a destination is the list of its 16 bytes; \<open>guid_bytes\<close> is the layout of the
  structure in memory.
\<close>

record guid =
  guid_a :: u32
  guid_b :: u16
  guid_c :: u16
  guid_d :: "u8 list"

definition guid_wf :: "guid \<Rightarrow> bool" where
  "guid_wf g \<longleftrightarrow> length (guid_d g) = 8"

definition guid_bytes :: "guid \<Rightarrow> u8 list" where
  "guid_bytes g = le_bytes 4 (guid_a g) @ le_bytes 2 (guid_b g) @ le_bytes 2 (guid_c g) @ guid_d g"

function valid_guid_from :: "cptr \<Rightarrow> nat \<Rightarrow> bool option" where
  "valid_guid_from s i =
     Option.bind (rd s i) (\<lambda>c.
       if i \<in> {8, 13, 18, 23} then
         (if c \<noteq> ch CHR ''-'' then Some False else valid_guid_from s (i + 1))
       else if i = 36 then Some (c = 0)
       else if digit_to_int c = -1 then Some False
       else valid_guid_from s (i + 1))"
  by pat_completeness auto
termination
  by (relation "measure (\<lambda>(s, i). length s - i)") (auto simp: rd_def split: if_splits)

declare valid_guid_from.simps [simp del]

definition is_valid_guid :: "cptr \<Rightarrow> bool option" where
  "is_valid_guid s = valid_guid_from s 0"

text \<open>The loop from the last character down; its argument is one more than the index.\<close>

primrec le_cluster_loop :: "u8 list \<Rightarrow> cptr \<Rightarrow> nat \<Rightarrow> nat \<Rightarrow> u8 list option" where
  "le_cluster_loop dest s 0 p = Some dest"
| "le_cluster_loop dest s (Suc i) p =
     Option.bind (rd s i) (\<lambda>c.
       let val = of_int (digit_to_int c) in
       if length dest \<le> p then None
       else if i mod 2 = 1 then le_cluster_loop (dest[p := val]) s i p
       else le_cluster_loop (dest[p := or (dest ! p) (push_bit 4 val)]) s i (p + 1))"

definition guid_convert_le_cluster :: "u8 list \<Rightarrow> cptr \<Rightarrow> nat \<Rightarrow> u8 list option" where
  "guid_convert_le_cluster dest s len = le_cluster_loop dest s len 0"

function be_cluster_loop :: "u8 list \<Rightarrow> cptr \<Rightarrow> nat \<Rightarrow> nat \<Rightarrow> nat \<Rightarrow> u8 list option" where
  "be_cluster_loop dest s len i p =
     (if len \<le> i then Some dest
      else Option.bind (rd s i) (\<lambda>c.
        let val = of_int (digit_to_int c) in
        if length dest \<le> p then None
        else if i mod 2 = 1 then be_cluster_loop (dest[p := or (dest ! p) val]) s len (i + 1) (p + 1)
        else be_cluster_loop (dest[p := push_bit 4 val]) s len (i + 1) p))"
  by pat_completeness auto
termination
  by (relation "measure (\<lambda>(dest, s, len, i, p). len - i)") auto

declare be_cluster_loop.simps [simp del]

definition guid_convert_be_cluster :: "u8 list \<Rightarrow> cptr \<Rightarrow> nat \<Rightarrow> u8 list option" where
  "guid_convert_be_cluster dest s len = be_cluster_loop dest s len 0 0"

text \<open>Writing at \<^verbatim>\<open>(uint8_t *)guid + off\<close>.\<close>

definition at_offset :: "nat \<Rightarrow> (u8 list \<Rightarrow> u8 list option) \<Rightarrow> u8 list \<Rightarrow> u8 list option" where
  "at_offset off f dest = map_option (\<lambda>d. take off dest @ d) (f (drop off dest))"

definition string_to_guid_be :: "u8 list \<Rightarrow> cptr \<Rightarrow> (bool \<times> u8 list) option" where
  "string_to_guid_be dest s =
     Option.bind (is_valid_guid s) (\<lambda>ok.
       if \<not> ok then Some (False, dest)
       else
         Option.bind (at_offset 0 (\<lambda>d. guid_convert_be_cluster d s 8) dest) (\<lambda>dest.
         Option.bind (at_offset 4 (\<lambda>d. guid_convert_be_cluster d (drop 9 s) 4) dest) (\<lambda>dest.
         Option.bind (at_offset 6 (\<lambda>d. guid_convert_be_cluster d (drop 14 s) 4) dest) (\<lambda>dest.
         Option.bind (at_offset 8 (\<lambda>d. guid_convert_be_cluster d (drop 19 s) 4) dest) (\<lambda>dest.
         Option.bind (at_offset 10 (\<lambda>d. guid_convert_be_cluster d (drop 24 s) 12) dest) (\<lambda>dest.
           Some (True, dest)))))))"

definition string_to_guid_mixed :: "u8 list \<Rightarrow> cptr \<Rightarrow> (bool \<times> u8 list) option" where
  "string_to_guid_mixed dest s =
     Option.bind (is_valid_guid s) (\<lambda>ok.
       if \<not> ok then Some (False, dest)
       else
         Option.bind (at_offset 0 (\<lambda>d. guid_convert_le_cluster d s 8) dest) (\<lambda>dest.
         Option.bind (at_offset 4 (\<lambda>d. guid_convert_le_cluster d (drop 9 s) 4) dest) (\<lambda>dest.
         Option.bind (at_offset 6 (\<lambda>d. guid_convert_le_cluster d (drop 14 s) 4) dest) (\<lambda>dest.
         Option.bind (at_offset 8 (\<lambda>d. guid_convert_be_cluster d (drop 19 s) 4) dest) (\<lambda>dest.
         Option.bind (at_offset 10 (\<lambda>d. guid_convert_be_cluster d (drop 24 s) 12) dest) (\<lambda>dest.
           Some (True, dest)))))))"

definition hex_digits :: "u8 list" where
  "hex_digits = chars ''0123456789abcdef''"

definition uint_to_hex :: "u32 \<Rightarrow> nat \<Rightarrow> u8 list" where
  "uint_to_hex num len = map (\<lambda>i. hex_digits ! unat (and (drop_bit ((len - 1 - i) * 4) num) 0xf)) [0..<len]"

definition guid_to_string :: "guid \<Rightarrow> u8 list" where
  "guid_to_string g =
     (let d = (\<lambda>i. uint_to_hex (ucast (guid_d g ! i)) 2) in
      uint_to_hex (guid_a g) 8 @ [ch CHR ''-''] @
      uint_to_hex (ucast (guid_b g)) 4 @ [ch CHR ''-''] @
      uint_to_hex (ucast (guid_c g)) 4 @ [ch CHR ''-''] @
      d 0 @ d 1 @ [ch CHR ''-''] @ d 2 @ d 3 @ d 4 @ d 5 @ d 6 @ d 7 @ [0])"

section \<open>Digits\<close>

lemma hex_digit_value:
  assumes "n < 16"
  shows "digit_to_int (hex_digits ! n) = int n"
proof -
  have "\<forall>n\<in>set [0..<16]. digit_to_int (hex_digits ! n) = int n"
    by (simp add: hex_digits_def digit_to_int_def upt_rec)
  then show ?thesis using assms by simp
qed

text \<open>The character for one hexadecimal digit of a number, and its value.\<close>

definition hex_at :: "u32 \<Rightarrow> nat \<Rightarrow> u8" where
  "hex_at x k = hex_digits ! unat (and (drop_bit k x) 0xf)"

lemma unat_and_15: "unat (and (x::'a::len word) 0xf) = unat x mod 16"
proof -
  have "and x 0xf = take_bit 4 x" by (simp add: take_bit_eq_mask mask_eq_exp_minus_1)
  then show ?thesis by (simp only: unsigned_take_bit_eq) (simp add: take_bit_eq_mod)
qed

lemma digit_hex_at: "digit_to_int (hex_at x k) = int (unat x div 2 ^ k mod 16)"
  by (simp add: hex_at_def hex_digit_value unat_and_15 unat_drop_bit)

lemma digit_hex_at_neq [simp]: "digit_to_int (hex_at x k) \<noteq> -1"
  by (simp add: digit_hex_at)

lemma byte_from_hex:
  "or (of_int (digit_to_int (hex_at x k))) (push_bit 4 (of_int (digit_to_int (hex_at x (k + 4))))) =
     (ucast (drop_bit k x) :: u8)"
proof -
  let ?n = "unat x div 2 ^ k"
  have k4: "unat x div 2 ^ (k + 4) = ?n div 16" by (simp add: power_add div_mult2_eq)
  have "unat (or (of_nat (?n mod 16)) (push_bit 4 (of_nat (?n div 16 mod 16))) :: u8)
      = ?n mod 16 + ?n div 16 mod 16 * 16"
    by (subst unat_or_push_bit) (simp_all add: of_nat_inverse)
  also have "\<dots> = ?n mod (16 * 16)" by (simp only: mod_mult2_eq)
  also have "\<dots> = unat (ucast (drop_bit k x) :: u8)" by (simp add: unat_ucast_byte unat_drop_bit)
  finally show ?thesis by (simp only: word_unat_eq_iff digit_hex_at k4 of_int_of_nat_eq)
qed

lemma byte_from_hex_be:
  "or (push_bit 4 (of_int (digit_to_int (hex_at x 4)))) (of_int (digit_to_int (hex_at x 0))) = (ucast x :: u8)"
  using byte_from_hex [of x 0] by (simp add: or.commute)

lemmas byte_from_hex_at =
  byte_from_hex [of _ 0, simplified] byte_from_hex [of _ 8, simplified]
  byte_from_hex [of _ 16, simplified] byte_from_hex [of _ 24, simplified] byte_from_hex_be

lemma uint_to_hex_cases:
  "uint_to_hex x 2 = [hex_at x 4, hex_at x 0]"
  "uint_to_hex x 4 = [hex_at x 12, hex_at x 8, hex_at x 4, hex_at x 0]"
  "uint_to_hex x 8 = [hex_at x 28, hex_at x 24, hex_at x 20, hex_at x 16, hex_at x 12, hex_at x 8, hex_at x 4, hex_at x 0]"
  by (simp_all add: uint_to_hex_def hex_at_def upt_rec)

section \<open>Reading back what was written\<close>

named_theorems guid_steps \<open>one round of the loops over a GUID string\<close>

lemma valid_guid_digit [guid_steps]:
  "rd s i = Some c \<Longrightarrow> i \<notin> {8, 13, 18, 23, 36} \<Longrightarrow> digit_to_int c \<noteq> -1 \<Longrightarrow>
     valid_guid_from s i = valid_guid_from s (i + 1)"
  by (subst valid_guid_from.simps) simp

lemma valid_guid_dash [guid_steps]:
  "rd s i = Some (ch CHR ''-'') \<Longrightarrow> i \<in> {8, 13, 18, 23} \<Longrightarrow> valid_guid_from s i = valid_guid_from s (i + 1)"
  by (subst valid_guid_from.simps) auto

lemma valid_guid_end [guid_steps]: "rd s i = Some c \<Longrightarrow> i = 36 \<Longrightarrow> valid_guid_from s i = Some (c = 0)"
  by (subst valid_guid_from.simps) simp

lemma be_cluster_step [guid_steps]:
  assumes "i < len" and "rd s i = Some c" and "p < length dest"
  shows "be_cluster_loop dest s len i p =
    (if i mod 2 = 1
     then be_cluster_loop (dest[p := or (dest ! p) (of_int (digit_to_int c))]) s len (i + 1) (p + 1)
     else be_cluster_loop (dest[p := push_bit 4 (of_int (digit_to_int c))]) s len (i + 1) p)"
  using assms by (subst be_cluster_loop.simps) (simp add: Let_def)

lemma be_cluster_stop [guid_steps]: "len \<le> i \<Longrightarrow> be_cluster_loop dest s len i p = Some dest"
  by (subst be_cluster_loop.simps) simp

lemma le_cluster_step [guid_steps]:
  assumes "rd s (i - 1) = Some c" and "p < length dest" and "0 < i"
  shows "le_cluster_loop dest s i p =
    (if (i - 1) mod 2 = 1 then le_cluster_loop (dest[p := of_int (digit_to_int c)]) s (i - 1) p
     else le_cluster_loop (dest[p := or (dest ! p) (push_bit 4 (of_int (digit_to_int c)))]) s (i - 1) (p + 1))"
  using assms by (cases i) (simp_all add: Let_def)

lemma le_cluster_stop [guid_steps]: "le_cluster_loop dest s 0 p = Some dest"
  by simp

lemma list_8: "length xs = 8 \<Longrightarrow> \<exists>a b c d e f g h. xs = [a, b, c, d, e, f, g, h]"
  by (simp add: numeral_eq_Suc length_Suc_conv) blast

lemma list_16: "length xs = 16 \<Longrightarrow> \<exists>a b c d e f g h i j k l m n p q.
    xs = [a, b, c, d, e, f, g, h, i, j, k, l, m, n, p, q]"
proof -
  assume "length xs = 16"
  then have "length (take 8 xs) = 8" "length (drop 8 xs) = 8" by simp_all
  from list_8 [OF this(1)] list_8 [OF this(2)] show ?thesis
    by (metis append_Cons append_Nil append_take_drop_id)
qed

lemma guid_string_expand:
  assumes "guid_d g = [d0, d1, d2, d3, d4, d5, d6, d7]"
  shows "guid_to_string g =
    (let a = guid_a g; b = ucast (guid_b g); c = ucast (guid_c g) in
    [hex_at a 28, hex_at a 24, hex_at a 20, hex_at a 16, hex_at a 12, hex_at a 8, hex_at a 4, hex_at a 0,
     ch CHR ''-'', hex_at b 12, hex_at b 8, hex_at b 4, hex_at b 0,
     ch CHR ''-'', hex_at c 12, hex_at c 8, hex_at c 4, hex_at c 0,
     ch CHR ''-'', hex_at (ucast d0) 4, hex_at (ucast d0) 0, hex_at (ucast d1) 4, hex_at (ucast d1) 0,
     ch CHR ''-'', hex_at (ucast d2) 4, hex_at (ucast d2) 0, hex_at (ucast d3) 4, hex_at (ucast d3) 0,
     hex_at (ucast d4) 4, hex_at (ucast d4) 0, hex_at (ucast d5) 4, hex_at (ucast d5) 0,
     hex_at (ucast d6) 4, hex_at (ucast d6) 0, hex_at (ucast d7) 4, hex_at (ucast d7) 0, 0])"
  by (simp add: guid_to_string_def assms uint_to_hex_cases Let_def)

lemma guid_string_valid: "guid_wf g \<Longrightarrow> is_valid_guid (guid_to_string g) = Some True"
  using list_8 [of "guid_d g"]
  by (auto simp: guid_wf_def guid_string_expand is_valid_guid_def guid_steps rd_def Let_def)

lemmas cluster_eval = guid_convert_le_cluster_def guid_convert_be_cluster_def guid_steps rd_def
  byte_from_hex_at le_bytes_def upt_rec

declare le_cluster_loop.simps [simp del]

lemma le_cluster_4:
  "guid_convert_le_cluster (a # b # rest) (hex_at x 12 # hex_at x 8 # hex_at x 4 # hex_at x 0 # t) 4 =
     Some (ucast x # ucast (drop_bit 8 x) # rest)"
  by (simp add: cluster_eval)

lemma le_cluster_8:
  "guid_convert_le_cluster (a # b # c # d # rest)
     (hex_at x 28 # hex_at x 24 # hex_at x 20 # hex_at x 16 # hex_at x 12 # hex_at x 8 # hex_at x 4 # hex_at x 0 # t) 8 =
     Some (ucast x # ucast (drop_bit 8 x) # ucast (drop_bit 16 x) # ucast (drop_bit 24 x) # rest)"
  by (simp add: cluster_eval)

lemma be_cluster_4:
  "guid_convert_be_cluster (a # b # rest) (hex_at x 4 # hex_at x 0 # hex_at y 4 # hex_at y 0 # t) 4 =
     Some (ucast x # ucast y # rest)"
  by (simp add: cluster_eval)

lemma be_cluster_12:
  "guid_convert_be_cluster [a, b, c, d, e, f]
     [hex_at u 4, hex_at u 0, hex_at v 4, hex_at v 0, hex_at w 4, hex_at w 0,
      hex_at x 4, hex_at x 0, hex_at y 4, hex_at y 0, hex_at z 4, hex_at z 0, 0] 12 =
     Some [ucast u, ucast v, ucast w, ucast x, ucast y, ucast z]"
  by (simp add: cluster_eval)

lemma u16_bytes: "(ucast (drop_bit n (ucast (x::u16) :: u32)) :: u8) = ucast (drop_bit n x)"
  by (rule bit_word_eqI) (auto simp: bit_simps dest: bit_imp_le_length)

lemma u16_byte: "(ucast (ucast (x::u16) :: u32) :: u8) = ucast x"
  using u16_bytes [of 0 x] by simp

lemma u8_byte: "(ucast (ucast (x::u8) :: u32) :: u8) = x"
  by (rule bit_word_eqI) (auto simp: bit_simps)

text \<open>
  C25. Writing a GUID as text and reading the text back gives the same structure: the string is
  valid, and the 16 bytes stored are those of the GUID, whatever the destination held before.
\<close>

theorem guid_roundtrip:
  assumes "guid_wf g" and "length dest = 16"
  shows "string_to_guid_mixed dest (guid_to_string g) = Some (True, guid_bytes g)"
proof -
  obtain d0 d1 d2 d3 d4 d5 d6 d7 where d: "guid_d g = [d0, d1, d2, d3, d4, d5, d6, d7]"
    using list_8 assms(1) unfolding guid_wf_def by blast
  obtain x0 x1 x2 x3 x4 x5 x6 x7 y0 y1 y2 y3 y4 y5 y6 y7
    where x: "dest = [x0, x1, x2, x3, x4, x5, x6, x7, y0, y1, y2, y3, y4, y5, y6, y7]"
    using list_16 [OF assms(2)] by blast
  show ?thesis
    using guid_string_valid [OF assms(1)] unfolding guid_string_expand [OF d] Let_def x
    by (simp add: string_to_guid_mixed_def at_offset_def le_cluster_8 le_cluster_4 be_cluster_4
      be_cluster_12 guid_bytes_def d u16_bytes u16_byte u8_byte le_bytes_def upt_rec)
qed

theorem guid_roundtrip_witness:
  "string_to_guid_mixed (replicate 16 0)
     (guid_to_string \<lparr>guid_a = 0xC12A7328, guid_b = 0xF81F, guid_c = 0x11D2,
        guid_d = [0xBA, 0x4B, 0, 0xA0, 0xC9, 0x3E, 0xC9, 0x3B]\<rparr>) =
   Some (True, [0x28, 0x73, 0x2A, 0xC1, 0x1F, 0xF8, 0xD2, 0x11, 0xBA, 0x4B, 0, 0xA0, 0xC9, 0x3E, 0xC9, 0x3B])"
  by (subst guid_roundtrip) (simp_all add: guid_wf_def guid_bytes_def le_bytes_def upt_rec drop_bit_eq_div)

end
