(* ===== verification/Volume.thy ===== *)
theory Volume
  imports Guid
begin

text \<open>
  Volumes: the structure of \<^verbatim>\<open>common/lib/part.h\<close>, the block cache and
  \<^verbatim>\<open>volume_read\<close> of \<^verbatim>\<open>common/lib/part.s2.c\<close>, and the sector reads of
  \<^verbatim>\<open>common/drivers/disk.s2.c\<close> they go through. The firmware calls at the bottom, the
  UEFI Block I/O protocol and BIOS interrupt 13h, are parameters.
\<close>

section \<open>The structure\<close>

datatype cache_state = CACHE_NOT_READY | CACHE_READY

text \<open>
  Volumes refer to each other by pointers; here they are numbers of a store. \<open>device\<close> is the
  Block I/O protocol instance on UEFI and the drive number on BIOS.
\<close>

type_synonym vid = nat

record volume =
  device :: nat
  fastest_xfer_size :: u64
  vol_index :: int
  is_optical :: bool
  pxe :: bool
  vol_partition :: int
  sector_size :: int
  backing_dev :: "vid option"
  extended :: "vid option"
  cache_status :: cache_state
  cache :: "u8 list option"
  cached_block :: u64
  ebr_part :: "vid option"
  ebr_walk_index :: int
  ebr_walk_depth :: nat
  ebr_walk_size :: u64
  ebr_walk_chain :: "u64 list"
  first_sect :: u64
  sect_count :: u64
  guid_valid :: bool
  vol_guid :: "u8 list"
  part_guid_valid :: bool
  part_guid :: "u8 list"
  part_type_guid_valid :: bool
  part_type_guid :: "u8 list"
  fslabel_valid :: bool
  fslabel :: cptr

text \<open>The disk size is unknown.\<close>

abbreviation size_unknown :: "volume \<Rightarrow> bool" where
  "size_unknown v \<equiv> sect_count v = - 1"

section \<open>Reading sectors\<close>

datatype disk_status = DISK_SUCCESS | DISK_NO_MEDIA | DISK_FAILURE

datatype efi_status = EFI_SUCCESS | EFI_NO_MEDIA | EFI_ERROR

text \<open>
  A reader gets the volume, what the buffer holds, the first sector and their number, and
  returns what the buffer holds then.
\<close>

type_synonym disk_reader = "volume \<Rightarrow> u8 list \<Rightarrow> u64 \<Rightarrow> u64 \<Rightarrow> (disk_status \<times> u8 list) res"

type_synonym read_blocks = "nat \<Rightarrow> u64 \<Rightarrow> u64 \<Rightarrow> u8 list \<Rightarrow> efi_status \<times> u8 list"

type_synonym int13_read = "nat \<Rightarrow> u64 \<Rightarrow> u16 \<Rightarrow> bool \<times> u8 list"

definition disk_read_sectors_uefi :: "read_blocks \<Rightarrow> arch \<Rightarrow> disk_reader" where
  "disk_read_sectors_uefi ReadBlocks arch v buf block cnt =
     (case ReadBlocks (device v) block (size_t_of arch (cnt * of_int (sector_size v))) buf of
        (EFI_SUCCESS, buf) \<Rightarrow> Inr (DISK_SUCCESS, buf)
      | (EFI_NO_MEDIA, buf) \<Rightarrow> Inr (DISK_NO_MEDIA, buf)
      | (EFI_ERROR, buf) \<Rightarrow> Inr (DISK_FAILURE, buf))"

definition xfer_sizes :: "nat list" where
  "xfer_sizes = [1, 2, 4, 8, 16, 24, 32, 48, 64]"

definition XFER_BUF_SIZE :: nat where
  "XFER_BUF_SIZE = xfer_sizes ! (length xfer_sizes - 1) * 512"

text \<open>
  The interrupt returns the carry flag and what the transfer buffer holds; the disk address
  packet has a 16-bit count.
\<close>

definition disk_read_sectors_bios :: "int13_read \<Rightarrow> disk_reader" where
  "disk_read_sectors_bios int13 v buf block cnt =
     (let n = unat (size_t_of I386 (cnt * of_int (sector_size v))) in
      if n > XFER_BUF_SIZE then Inl (Panic ''XFER'')
      else case int13 (device v) block (ucast cnt) of
             (True, _) \<Rightarrow> Inr (DISK_FAILURE, buf)
           | (False, xfer_buf) \<Rightarrow> Inr (DISK_SUCCESS, take n xfer_buf @ drop n buf))"

text \<open>The one of the build.\<close>

datatype firmware = UEFI_firmware read_blocks | BIOS_firmware int13_read

fun disk_read_sectors :: "firmware \<Rightarrow> arch \<Rightarrow> disk_reader" where
  "disk_read_sectors (UEFI_firmware ReadBlocks) arch = disk_read_sectors_uefi ReadBlocks arch"
| "disk_read_sectors (BIOS_firmware int13) arch = disk_read_sectors_bios int13"

section \<open>The block cache\<close>

text \<open>
  The sectors to read for a block: from the volume's first sector, in units of the device's
  sectors, and clamped to the end of the volume.
\<close>

definition cache_span :: "volume \<Rightarrow> u64 \<Rightarrow> (u64 \<times> u64) option" where
  "cache_span v block =
     (let k = of_int (sector_size v div 512) in
      if first_sect v mod k \<noteq> 0 then None
      else
        let first = first_sect v div k; xfer_size = fastest_xfer_size v in
        case CHECKED_MUL block (fastest_xfer_size v) of
          None \<Rightarrow> None
        | Some block_offset \<Rightarrow>
            case CHECKED_ADD first block_offset of
              None \<Rightarrow> None
            | Some read_sector \<Rightarrow>
                if size_unknown v then Some (read_sector, xfer_size)
                else case DIV_ROUNDUP (sect_count v) k of
                       None \<Rightarrow> None
                     | Some volume_sectors \<Rightarrow>
                         let end_sector = first + C_MIN volume_sectors (- 1 - first) in
                         if read_sector \<ge> end_sector then None
                         else
                           let remaining = end_sector - read_sector
                           in Some (read_sector, if xfer_size > remaining then remaining else xfer_size))"

text \<open>The cache comes from the allocator, cleared, when the volume is first read.\<close>

definition cache_alloc :: "volume \<Rightarrow> volume res" where
  "cache_alloc v =
     (case cache v of
        Some _ \<Rightarrow> Inr v
      | None \<Rightarrow>
          case CHECKED_MUL (fastest_xfer_size v) (of_int (sector_size v)) of
            None \<Rightarrow> Inl (Panic ''cache_block: block size overflow'')
          | Some n \<Rightarrow> Inr (v\<lparr>cache := Some (replicate (unat n) 0)\<rparr>))"

definition cache_block :: "disk_reader \<Rightarrow> arch \<Rightarrow> volume \<Rightarrow> u64 \<Rightarrow> (bool \<times> volume) res" where
  "cache_block reader arch v block =
     (if cache_status v = CACHE_READY \<and> block = cached_block v then Inr (True, v)
      else
        res_bind (cache_alloc (v\<lparr>cache_status := CACHE_NOT_READY\<rparr>)) (\<lambda>v.
          case cache_span v block of
            None \<Rightarrow> Inr (False, v)
          | Some (read_sector, xfer_size) \<Rightarrow>
              res_bind (reader v (the (cache v)) read_sector (size_t_of arch xfer_size)) (\<lambda>(ret, buf).
                let v = v\<lparr>cache := Some buf\<rparr> in
                if ret \<noteq> DISK_SUCCESS then Inr (False, v)
                else Inr (True, v\<lparr>cache_status := CACHE_READY, cached_block := block\<rparr>))))"

definition read_chunk :: "u64 \<Rightarrow> u64 \<Rightarrow> u64 \<Rightarrow> u64 \<Rightarrow> u64" where
  "read_chunk block_size loc cnt progress =
     (let chunk = cnt - progress; offset = (loc + progress) mod block_size
      in if chunk > block_size - offset then block_size - offset else chunk)"

lemma read_chunk_bounds:
  assumes "block_size \<noteq> 0" and "progress < cnt"
  shows "0 < unat (read_chunk block_size loc cnt progress)"
    and "unat progress + unat (read_chunk block_size loc cnt progress) \<le> unat cnt"
    and "unat ((loc + progress) mod block_size) + unat (read_chunk block_size loc cnt progress) \<le> unat block_size"
proof -
  let ?o = "(loc + progress) mod block_size"
  have b: "0 < unat block_size" using assms(1) by (simp only: unat_gt_0 simp_thms)
  then have o: "unat ?o < unat block_size" by (simp add: unat_mod)
  have bo: "unat (block_size - ?o) = unat block_size - unat ?o" using o by (simp add: unat_sub_exact)
  have p: "unat progress < unat cnt" using assms(2) by (simp add: word_less_nat_alt)
  have cp: "unat (cnt - progress) = unat cnt - unat progress" using p by (simp add: unat_sub_exact)
  have e: "unat (read_chunk block_size loc cnt progress) = min (unat cnt - unat progress) (unat block_size - unat ?o)"
    using bo cp by (simp add: read_chunk_def Let_def word_less_nat_alt min_def)
  show "0 < unat (read_chunk block_size loc cnt progress)"
    "unat progress + unat (read_chunk block_size loc cnt progress) \<le> unat cnt"
    "unat ?o + unat (read_chunk block_size loc cnt progress) \<le> unat block_size"
    unfolding e using o p by simp_all
qed

text \<open>
  Copying out of the cache block by block. A block size of zero would divide by zero, which
  stops the machine. The bytes copied so far are \<open>out\<close>.
\<close>

function read_loop :: "disk_reader \<Rightarrow> arch \<Rightarrow> u64 \<Rightarrow> u64 \<Rightarrow> u64 \<Rightarrow> u64 \<Rightarrow> u8 list \<Rightarrow> volume \<Rightarrow> (u8 list option \<times> volume) res" where
  "read_loop reader arch block_size loc cnt progress out v =
     (if \<not> progress < cnt then Inr (Some out, v)
      else if block_size = 0 then Inl (Panic ''division by zero'')
      else case cache_block reader arch v ((loc + progress) div block_size) of
             Inl e \<Rightarrow> Inl e
           | Inr (ok, v) \<Rightarrow>
               if \<not> ok then Inr (None, v)
               else
                 let offset = (loc + progress) mod block_size;
                     chunk = read_chunk block_size loc cnt progress
                 in read_loop reader arch block_size loc cnt (progress + chunk)
                      (out @ field (the (cache v)) (unat offset) (unat chunk)) v)"
  by pat_completeness auto
termination
proof (relation "measure (\<lambda>(reader, a, bs, loc, cnt, progress, out, v). unat cnt - unat progress)", goal_cases)
  case (2 reader a bs loc cnt progress out v r ok v' offset chunk)
  then have c: "progress < cnt" "bs \<noteq> 0" "chunk = read_chunk bs loc cnt progress" by simp_all
  note b = read_chunk_bounds [OF c(2,1), of loc, folded c(3)]
  have "unat (progress + chunk) = unat progress + unat chunk"
    using b(2) unat_bound [of cnt] by (intro unat_add_exact) simp
  then show ?case using b by simp
qed simp

declare read_loop.simps [simp del]

text \<open>On success the bytes are returned, and the volume with its cache in any case.\<close>

definition volume_read :: "disk_reader \<Rightarrow> arch \<Rightarrow> volume \<Rightarrow> u64 \<Rightarrow> u64 \<Rightarrow> (u8 list option \<times> volume) res" where
  "volume_read reader arch v loc cnt =
     (if pxe v then Inl (Panic ''Attempted volume_read() on pxe'')
      else if fastest_xfer_size v = 0 \<or> sector_size v < 512 \<or> sector_size v mod 512 \<noteq> 0 then Inr (None, v)
      else
        let block_size = size_t_of arch (fastest_xfer_size v * of_int (sector_size v));
            body = read_loop reader arch block_size loc cnt 0 [] v
        in if size_unknown v then body
           else case CHECKED_MUL (sect_count v) 512 of
                  None \<Rightarrow> Inr (None, v)
                | Some part_size \<Rightarrow>
                    if loc \<ge> part_size \<or> cnt > part_size - loc then Inr (None, v) else body)"

section \<open>What a volume holds\<close>

text \<open>
  What is relied on of the firmware: a successful read delivers the bytes of the medium from
  the given block on, and the buffer keeps its size. \<open>blk\<close> is the block size of a device.
\<close>

type_synonym media = "nat \<Rightarrow> nat \<Rightarrow> u8"

definition ReadBlocks_ok :: "read_blocks \<Rightarrow> (nat \<Rightarrow> nat) \<Rightarrow> media \<Rightarrow> bool" where
  "ReadBlocks_ok ReadBlocks blk medium \<longleftrightarrow>
     (\<forall>dev lba n buf. unat n \<le> length buf \<longrightarrow>
        (case ReadBlocks dev lba n buf of (st, buf') \<Rightarrow>
           length buf' = length buf \<and>
           (st = EFI_SUCCESS \<longrightarrow> (\<forall>i<unat n. buf' ! i = medium dev (unat lba * blk dev + i)))))"

definition int13_ok :: "int13_read \<Rightarrow> (nat \<Rightarrow> nat) \<Rightarrow> media \<Rightarrow> bool" where
  "int13_ok int13 blk medium \<longleftrightarrow>
     (\<forall>dev lba n buf. int13 dev lba n = (False, buf) \<and> unat n * blk dev \<le> XFER_BUF_SIZE \<longrightarrow>
        length buf = XFER_BUF_SIZE \<and> (\<forall>i<unat n * blk dev. buf ! i = medium dev (unat lba * blk dev + i)))"

text \<open>What the cache relies on of a sector read.\<close>

definition reads_medium :: "disk_reader \<Rightarrow> arch \<Rightarrow> (nat \<Rightarrow> nat) \<Rightarrow> media \<Rightarrow> bool" where
  "reads_medium reader arch blk medium \<longleftrightarrow>
     (\<forall>v buf lba n st buf'.
        reader v buf lba n = Inr (st, buf') \<and> sector_size v = int (blk (device v)) \<and> 512 \<le> blk (device v) \<and>
        unat n * blk (device v) \<le> length buf \<and> unat n * blk (device v) < 2 ^ size_t_bits arch \<longrightarrow>
        length buf' = length buf \<and>
        (st = DISK_SUCCESS \<longrightarrow>
          (\<forall>i<unat n * blk (device v). buf' ! i = medium (device v) (unat lba * blk (device v) + i))))"

lemma size_t_le_64: "n < 2 ^ size_t_bits arch \<Longrightarrow> n < (2::nat) ^ 64"
  by (erule less_le_trans) (simp add: size_t_bits_def)

lemma unat_bytes_product:
  assumes "sector_size v = int b" and "unat n * b < 2 ^ size_t_bits arch"
  shows "unat (size_t_of arch (n * of_int (sector_size v))) = unat n * b"
proof -
  have "n * of_int (sector_size v) = of_nat (unat n * b)" using assms(1) by simp
  then have u: "unat (n * of_int (sector_size v)) = unat n * b"
    using size_t_le_64 [OF assms(2)] by (intro of_nat_inverse) simp_all
  show ?thesis using u assms(2) by (subst size_t_of_small) simp_all
qed

lemma uefi_reads_medium:
  assumes "ReadBlocks_ok ReadBlocks blk medium"
  shows "reads_medium (disk_read_sectors_uefi ReadBlocks arch) arch blk medium"
proof -
  have "length buf' = length buf \<and> (st = DISK_SUCCESS \<longrightarrow>
      (\<forall>i<unat n * blk (device v). buf' ! i = medium (device v) (unat lba * blk (device v) + i)))"
    if r: "disk_read_sectors_uefi ReadBlocks arch v buf lba n = Inr (st, buf')"
      and b: "sector_size v = int (blk (device v))" "unat n * blk (device v) \<le> length buf"
        "unat n * blk (device v) < 2 ^ size_t_bits arch" for v buf lba n st buf'
  proof -
    let ?n = "size_t_of arch (n * of_int (sector_size v))"
    note u = unat_bytes_product [OF b(1,3)]
    obtain e buf2 where e: "ReadBlocks (device v) lba ?n buf = (e, buf2)" by (metis surj_pair)
    have "unat ?n \<le> length buf" using u b(2) by simp
    note ok = assms [unfolded ReadBlocks_ok_def, rule_format, OF this, of "device v" lba, unfolded e prod.case u]
    then have "length buf2 = length buf"
      "e = EFI_SUCCESS \<longrightarrow> (\<forall>i<unat n * blk (device v). buf2 ! i = medium (device v) (unat lba * blk (device v) + i))"
      by blast+
    then show ?thesis using r e by (cases e) (auto simp: disk_read_sectors_uefi_def)
  qed
  then show ?thesis unfolding reads_medium_def by blast
qed

lemma bios_reads_medium:
  assumes "int13_ok int13 blk medium"
  shows "reads_medium (disk_read_sectors_bios int13) I386 blk medium"
proof -
  have "length buf' = length buf \<and> (st = DISK_SUCCESS \<longrightarrow>
      (\<forall>i<unat n * blk (device v). buf' ! i = medium (device v) (unat lba * blk (device v) + i)))"
    if r: "disk_read_sectors_bios int13 v buf lba n = Inr (st, buf')"
      and b: "sector_size v = int (blk (device v))" "512 \<le> blk (device v)" "unat n * blk (device v) \<le> length buf"
        "unat n * blk (device v) < 2 ^ size_t_bits I386" for v buf lba n st buf'
  proof -
    let ?n = "unat n * blk (device v)"
    note u = unat_bytes_product [OF b(1,4)]
    have le: "?n \<le> XFER_BUF_SIZE" using r u by (auto simp: disk_read_sectors_bios_def Let_def split: if_splits)
    have "unat n * 512 \<le> ?n" using b(2) by simp
    also have "\<dots> \<le> 32768" using le by (simp add: XFER_BUF_SIZE_def xfer_sizes_def)
    finally have "unat n < 2 ^ 16" by simp
    then have n16: "unat (ucast n :: u16) = unat n" by (simp add: unsigned_ucast_eq take_bit_nat_eq_self)
    obtain carry xfer where i: "int13 (device v) lba (ucast n) = (carry, xfer)" by (metis surj_pair)
    show ?thesis
    proof (cases carry)
      case True
      then show ?thesis using r i u le by (auto simp: disk_read_sectors_bios_def Let_def)
    next
      case False
      then have x: "length xfer = XFER_BUF_SIZE" "\<forall>j<?n. xfer ! j = medium (device v) (unat lba * blk (device v) + j)"
        using assms [unfolded int13_ok_def, rule_format, of "device v" lba "ucast n" xfer] i le n16 by simp_all
      have "buf' = take ?n xfer @ drop ?n buf" using r i u le False by (auto simp: disk_read_sectors_bios_def Let_def)
      then show ?thesis using x le b(3) by (simp add: nth_append)
    qed
  qed
  then show ?thesis unfolding reads_medium_def by blast
qed

text \<open>The bytes of a volume and where they are on the medium.\<close>

definition in_volume :: "volume \<Rightarrow> nat \<Rightarrow> bool" where
  "in_volume v a \<longleftrightarrow> size_unknown v \<or> a < unat (sect_count v) * 512"

definition vol_byte :: "media \<Rightarrow> volume \<Rightarrow> nat \<Rightarrow> u8" where
  "vol_byte medium v a = medium (device v) (unat (first_sect v) * 512 + a)"

definition vol_bytes :: "media \<Rightarrow> volume \<Rightarrow> nat \<Rightarrow> nat \<Rightarrow> u8 list" where
  "vol_bytes medium v loc n = map (\<lambda>i. vol_byte medium v (loc + i)) [0..<n]"

definition block_bytes :: "volume \<Rightarrow> nat" where
  "block_bytes v = unat (fastest_xfer_size v) * nat (sector_size v)"

definition vol_wf :: "arch \<Rightarrow> (nat \<Rightarrow> nat) \<Rightarrow> volume \<Rightarrow> bool" where
  "vol_wf arch blk v \<longleftrightarrow>
     sector_size v = int (blk (device v)) \<and> block_bytes v < 2 ^ size_t_bits arch \<and>
     (\<not> size_unknown v \<longrightarrow> unat (first_sect v) + unat (sect_count v) < 2 ^ 64)"

text \<open>The cache, when ready, holds the bytes of its block, as far as they are in the volume.\<close>

definition cache_ok :: "media \<Rightarrow> volume \<Rightarrow> bool" where
  "cache_ok medium v \<longleftrightarrow>
     (case cache v of
        None \<Rightarrow> cache_status v = CACHE_NOT_READY
      | Some buf \<Rightarrow>
          length buf = block_bytes v \<and>
          (cache_status v = CACHE_READY \<longrightarrow>
             (\<forall>i<block_bytes v. in_volume v (unat (cached_block v) * block_bytes v + i) \<longrightarrow>
                buf ! i = vol_byte medium v (unat (cached_block v) * block_bytes v + i))))"

definition vol_ok :: "arch \<Rightarrow> (nat \<Rightarrow> nat) \<Rightarrow> media \<Rightarrow> volume \<Rightarrow> bool" where
  "vol_ok arch blk medium v \<longleftrightarrow> vol_wf arch blk v \<and> cache_ok medium v"

text \<open>Reading changes only the cache of a volume.\<close>

definition same_volume :: "volume \<Rightarrow> volume \<Rightarrow> bool" where
  "same_volume v v' \<longleftrightarrow> (\<exists>st c b. v' = v\<lparr>cache_status := st, cache := c, cached_block := b\<rparr>)"

lemma same_volume_refl [simp]: "same_volume v v"
  unfolding same_volume_def by (intro exI [of _ "cache_status v"] exI [of _ "cache v"] exI [of _ "cached_block v"]) simp

lemma same_volume_trans:
  assumes "same_volume u v" and "same_volume v w"
  shows "same_volume u w"
proof -
  obtain st c b st' c' b' where "v = u\<lparr>cache_status := st, cache := c, cached_block := b\<rparr>"
    "w = v\<lparr>cache_status := st', cache := c', cached_block := b'\<rparr>"
    using assms unfolding same_volume_def by blast
  then have "w = u\<lparr>cache_status := st', cache := c', cached_block := b'\<rparr>" by simp
  then show ?thesis unfolding same_volume_def by blast
qed

lemma same_volume_updates [simp]:
  "same_volume v (v\<lparr>cache_status := st, cache := c, cached_block := b\<rparr>)"
  "same_volume v (v\<lparr>cache_status := st, cache := c\<rparr>)"
proof -
  show "same_volume v (v\<lparr>cache_status := st, cache := c, cached_block := b\<rparr>)" for b unfolding same_volume_def by blast
  from this [of "cached_block v"] show "same_volume v (v\<lparr>cache_status := st, cache := c\<rparr>)" by simp
qed

lemma cache_span_same [simp]:
  "cache_span (v\<lparr>cache_status := st, cache := c, cached_block := b\<rparr>) = cache_span v"
  by (rule ext) (simp add: cache_span_def cong: option.case_cong if_cong)

lemma same_volumeD:
  assumes "same_volume v v'"
  shows "vol_wf arch blk v' = vol_wf arch blk v" "block_bytes v' = block_bytes v" "in_volume v' = in_volume v"
    "vol_byte medium v' = vol_byte medium v" "cache_span v' = cache_span v" "device v' = device v"
    "sector_size v' = sector_size v" "vol_bytes medium v' = vol_bytes medium v"
proof -
  obtain st c b where v': "v' = v\<lparr>cache_status := st, cache := c, cached_block := b\<rparr>"
    using assms unfolding same_volume_def by blast
  show "vol_wf arch blk v' = vol_wf arch blk v" "block_bytes v' = block_bytes v" "in_volume v' = in_volume v"
    "vol_byte medium v' = vol_byte medium v" "cache_span v' = cache_span v" "device v' = device v"
    "sector_size v' = sector_size v" "vol_bytes medium v' = vol_bytes medium v"
    unfolding v' by (simp_all add: vol_wf_def block_bytes_def in_volume_def vol_byte_def vol_bytes_def fun_eq_iff)
qed

section \<open>Reading gives the bytes of the volume\<close>

lemma DIV_ROUNDUP_unat:
  assumes "DIV_ROUNDUP a b = Some (q::'a::len word)" and "b \<noteq> 0"
  shows "unat q = (unat a + (unat b - 1)) div unat b"
proof -
  obtain s where s: "CHECKED_ADD a (b - 1) = Some s" "q = s div b" using assms(1) by (auto simp: DIV_ROUNDUP_def)
  have "unat (b - 1) = unat b - 1" using assms(2) by (simp add: unat_minus_one)
  then show ?thesis using CHECKED_ADD_unat [OF s(1)] s(2) by (simp add: unat_div)
qed

lemma roundup_bounds:
  assumes "0 < (k::nat)"
  shows "n \<le> (n + (k - 1)) div k * k" and "(n + (k - 1)) div k * k < n + k"
  using div_mult_mod_eq [of "n + (k - 1)" k] mod_less_divisor [OF assms, of "n + (k - 1)"] assms by linarith+

text \<open>The end of a volume does not wrap.\<close>

lemma end_sector_fits:
  assumes "0 < (k::nat)" and "f * k + c < 2 ^ 64" and "vs * k < c + k"
  shows "f + vs < 2 ^ 64"
proof (rule ccontr)
  assume "\<not> f + vs < 2 ^ 64"
  then have "2 ^ 64 * k \<le> (f + vs) * k" by simp
  then show False using assms by (simp add: add_mult_distrib)
qed

lemma end_sector_exact:
  fixes first vs :: u64
  assumes "unat first + unat vs < 2 ^ 64"
  shows "unat (first + C_MIN vs (- 1 - first)) = unat first + unat vs"
proof -
  have m1: "unat (- 1 :: u64) = 2 ^ 64 - 1" by (simp add: unsigned_minus_1_eq_mask mask_eq_exp_minus_1)
  have "unat (- 1 - first) = 2 ^ 64 - 1 - unat first"
    using unat_bound [of first] unat_sub_exact [of first "- 1"] unfolding m1 by simp
  then have "unat vs \<le> unat (- 1 - first)" using assms by simp
  then have "C_MIN vs (- 1 - first) = vs" by (simp add: word_le_nat_alt min_def)
  then show ?thesis using assms by (simp add: unat_add_exact)
qed

text \<open>The geometry of a volume that can be read.\<close>

lemma geometry:
  assumes "vol_wf arch blk v" and "fastest_xfer_size v \<noteq> 0" and "512 \<le> sector_size v" and "sector_size v mod 512 = 0"
  defines "k \<equiv> nat (sector_size v) div 512"
  shows "nat (sector_size v) = 512 * k" and "0 < k" and "0 < unat (fastest_xfer_size v)"
    and "unat (of_int (sector_size v div 512) :: u64) = k"
    and "block_bytes v = unat (fastest_xfer_size v) * (512 * k)" and "0 < block_bytes v"
    and "unat (size_t_of arch (fastest_xfer_size v * of_int (sector_size v))) = block_bytes v"
proof -
  obtain m where m: "sector_size v = 512 * m" using assms(4) by (metis mod_eq_0_iff_dvd dvdE)
  then have mp: "0 < m" using assms(3) by simp
  have k: "k = nat m" using m mp by (simp add: k_def nat_mult_distrib)
  show s: "nat (sector_size v) = 512 * k" using m mp k by (simp add: nat_mult_distrib)
  show kp: "0 < k" using k mp by simp
  show f: "0 < unat (fastest_xfer_size v)" using assms(2) by (simp only: unat_gt_0 simp_thms)
  show b: "block_bytes v = unat (fastest_xfer_size v) * (512 * k)" by (simp add: block_bytes_def s)
  show "0 < block_bytes v" using b f kp by simp
  have lt: "block_bytes v < 2 ^ size_t_bits arch" using assms(1) by (simp add: vol_wf_def)
  have "k \<le> block_bytes v" unfolding b using f by (cases "unat (fastest_xfer_size v)") simp_all
  then have "k < 2 ^ 64" using size_t_le_64 [OF lt] by simp
  moreover have "(of_int (sector_size v div 512) :: u64) = of_nat k" using m k mp by simp
  ultimately show "unat (of_int (sector_size v div 512) :: u64) = k" by (intro of_nat_inverse) simp_all
  have "sector_size v = int (nat (sector_size v))" using assms(3) by simp
  from unat_bytes_product [OF this, of "fastest_xfer_size v" arch] lt
  show "unat (size_t_of arch (fastest_xfer_size v * of_int (sector_size v))) = block_bytes v"
    by (simp add: block_bytes_def)
qed

lemma cache_span_Some:
  assumes "vol_wf arch blk v" and "fastest_xfer_size v \<noteq> 0" and "512 \<le> sector_size v" and "sector_size v mod 512 = 0"
    and "cache_span v block = Some (s, n)"
  defines "k \<equiv> nat (sector_size v) div 512"
  shows "unat s * (512 * k) = unat (first_sect v) * 512 + unat block * block_bytes v"
    and "unat n \<le> unat (fastest_xfer_size v)"
    and "i < block_bytes v \<Longrightarrow> in_volume v (unat block * block_bytes v + i) \<Longrightarrow> i < unat n * (512 * k)"
    and "\<not> size_unknown v \<Longrightarrow> (unat s + unat n) * (512 * k) < (unat (first_sect v) + unat (sect_count v)) * 512 + 512 * k"
proof -
  note g = geometry [OF assms(1-4), folded k_def]
  let ?f = "unat (fastest_xfer_size v)" and ?K = "of_int (sector_size v div 512) :: u64"
  define first where "first = first_sect v div ?K"
  have K0: "?K \<noteq> 0" using g(2,4) by (metis less_irrefl unat_0)
  have al: "first_sect v mod ?K = 0" using assms(5) by (auto simp: cache_span_def Let_def split: if_splits)
  then have "unat (first_sect v) mod k = 0" using g(4) by (metis unat_0 unat_mod)
  moreover have uf: "unat first = unat (first_sect v) div k" using g(4) by (simp add: first_def unat_div)
  ultimately have fs: "unat (first_sect v) = unat first * k" by (metis mod_0_imp_dvd dvd_div_mult_self)
  obtain off where off: "CHECKED_MUL block (fastest_xfer_size v) = Some off" "CHECKED_ADD first off = Some s"
    using assms(5) al by (auto simp: cache_span_def Let_def first_def split: option.splits if_splits)
  have s: "unat s = unat first + unat block * ?f" using CHECKED_ADD_unat [OF off(2)] CHECKED_MUL_unat [OF off(1)] by simp
  have bb: "unat block * block_bytes v = unat block * ?f * (512 * k)" by (simp add: g(5))
  show start: "unat s * (512 * k) = unat (first_sect v) * 512 + unat block * block_bytes v"
    unfolding bb s fs by (simp add: algebra_simps)
  have all: "unat n \<le> ?f \<and> (i < block_bytes v \<longrightarrow> in_volume v (unat block * block_bytes v + i) \<longrightarrow> i < unat n * (512 * k))
      \<and> (\<not> size_unknown v \<longrightarrow> (unat s + unat n) * (512 * k) < (unat (first_sect v) + unat (sect_count v)) * 512 + 512 * k)"
  proof (cases "size_unknown v")
    case True
    then have "n = fastest_xfer_size v" using assms(5) al off by (simp add: cache_span_def Let_def first_def)
    then show ?thesis
      using True g(5) by simp
  next
    case False
    then obtain vs where vs: "DIV_ROUNDUP (sect_count v) ?K = Some vs"
      and lt: "s < first + C_MIN vs (- 1 - first)"
      and n: "n = (let r = first + C_MIN vs (- 1 - first) - s in if fastest_xfer_size v > r then r else fastest_xfer_size v)"
      using assms(5) al off by (auto simp: cache_span_def Let_def first_def not_le split: option.splits if_splits)
    have uvs: "unat vs = (unat (sect_count v) + (k - 1)) div k" using DIV_ROUNDUP_unat [OF vs K0] g(4) by simp
    note up = roundup_bounds [OF g(2), of "unat (sect_count v)", folded uvs]
    have room: "unat first * k + unat (sect_count v) < 2 ^ 64" using assms(1) False fs by (simp add: vol_wf_def)
    note fit = end_sector_fits [OF g(2) room up(2)]
    note ee = end_sector_exact [OF fit]
    have e: "unat s < unat first + unat vs"
      "unat n = min (unat first + unat vs - unat s) ?f"
      using lt n ee by (auto simp: Let_def word_less_nat_alt unat_sub_exact min_def)
    have top: "(unat s + unat n) * k \<le> (unat first + unat vs) * k" using e by (intro mult_le_mono1) auto
    have "i < unat n * (512 * k)" if i: "i < block_bytes v" "in_volume v (unat block * block_bytes v + i)"
    proof (cases "unat n = ?f")
      case True
      then show ?thesis using i(1) g(5) by simp
    next
      case f: False
      then have "unat s + unat n = unat first + unat vs" using e by auto
      then have "(unat s + unat n) * (512 * k) = (unat first + unat vs) * (512 * k)" by simp
      then have sum: "unat s * (512 * k) + unat n * (512 * k) = unat first * k * 512 + unat vs * k * 512"
        by (simp only: add_mult_distrib add_mult_distrib2 ac_simps)
      have "unat block * block_bytes v + i < unat vs * k * 512" using i(2) False up(1) by (simp add: in_volume_def)
      then show ?thesis using sum start fs by linarith
    qed
    moreover have "(unat s + unat n) * (512 * k) < (unat (first_sect v) + unat (sect_count v)) * 512 + 512 * k"
      using top up(2) fs by (simp add: algebra_simps)
    ultimately show ?thesis using e(2) by simp
  qed
  then show "unat n \<le> ?f" and "i < block_bytes v \<Longrightarrow> in_volume v (unat block * block_bytes v + i) \<Longrightarrow> i < unat n * (512 * k)"
    and "\<not> size_unknown v \<Longrightarrow> (unat s + unat n) * (512 * k) < (unat (first_sect v) + unat (sect_count v)) * 512 + 512 * k"
    by blast+
qed

lemma cache_alloc_ok:
  assumes "vol_ok arch blk medium v" and "512 \<le> sector_size v" and "fastest_xfer_size v \<noteq> 0"
    and "cache_alloc (v\<lparr>cache_status := CACHE_NOT_READY\<rparr>) = Inr v1"
  shows "\<exists>buf. v1 = v\<lparr>cache_status := CACHE_NOT_READY, cache := Some buf\<rparr> \<and> length buf = block_bytes v"
proof (cases "cache v")
  case None
  let ?s = "of_int (sector_size v) :: u64"
  obtain n where n: "CHECKED_MUL (fastest_xfer_size v) ?s = Some n"
    "v1 = v\<lparr>cache_status := CACHE_NOT_READY, cache := Some (replicate (unat n) 0)\<rparr>"
    using None assms(4) by (auto simp: cache_alloc_def split: option.splits)
  have "0 < unat (fastest_xfer_size v)" using assms(3) by (simp only: unat_gt_0 simp_thms)
  then have "nat (sector_size v) \<le> block_bytes v"
    unfolding block_bytes_def by (cases "unat (fastest_xfer_size v)") simp_all
  also have "\<dots> < 2 ^ 64" using assms(1) by (intro size_t_le_64 [of _ arch]) (simp add: vol_ok_def vol_wf_def)
  finally have "unat ?s = nat (sector_size v)" using assms(2) by (intro of_nat_inverse) simp_all
  then have "unat n = block_bytes v" using CHECKED_MUL_unat [OF n(1)] by (simp add: block_bytes_def)
  then show ?thesis using n(2) by (intro exI [of _ "replicate (unat n) 0"]) simp
next
  case (Some buf)
  then have "v1 = v\<lparr>cache_status := CACHE_NOT_READY, cache := Some buf\<rparr>"
    using assms(4) by (auto simp: cache_alloc_def intro!: volume.equality)
  then show ?thesis using Some assms(1) by (auto simp: vol_ok_def cache_ok_def)
qed

lemma cache_block_ok:
  assumes "reads_medium reader arch blk medium" and "vol_ok arch blk medium v"
    and g: "fastest_xfer_size v \<noteq> 0" "512 \<le> sector_size v" "sector_size v mod 512 = 0"
    and "cache_block reader arch v block = Inr (ok, v')"
  shows "same_volume v v' \<and> vol_ok arch blk medium v' \<and> (ok \<longrightarrow> cache_status v' = CACHE_READY \<and> cached_block v' = block)"
proof (cases "cache_status v = CACHE_READY \<and> block = cached_block v")
  case True
  then show ?thesis using assms(2,6) by (simp add: cache_block_def)
next
  case False
  have wf: "vol_wf arch blk v" using assms(2) by (simp add: vol_ok_def)
  obtain v1 where v1: "cache_alloc (v\<lparr>cache_status := CACHE_NOT_READY\<rparr>) = Inr v1"
    using False assms(6) unfolding cache_block_def by (auto simp del: not_le)
  obtain buf where b: "v1 = v\<lparr>cache_status := CACHE_NOT_READY, cache := Some buf\<rparr>" "length buf = block_bytes v"
    using cache_alloc_ok [OF assms(2) g(2,1) v1] by blast
  have same: "same_volume v v1" unfolding b(1) by (rule same_volume_updates(2))
  note D = same_volumeD [OF same]
  show ?thesis
  proof (cases "cache_span v block")
    case None
    then have "v' = v1" "\<not> ok" using assms(6) unfolding cache_block_def if_not_P [OF False] v1 by (simp_all add: D)
    then show ?thesis using b wf same D(1,2) by (simp add: vol_ok_def cache_ok_def)
  next
    case (Some p)
    then obtain sec n where sn: "cache_span v block = Some (sec, n)" by (cases p) simp
    note sp = cache_span_Some [OF wf g sn]
    let ?k = "nat (sector_size v) div 512"
    note geo = geometry [OF wf g]
    have nb: "unat n * nat (sector_size v) \<le> block_bytes v" using sp(2) by (simp add: block_bytes_def)
    have lt: "block_bytes v < 2 ^ size_t_bits arch" using wf by (simp add: vol_wf_def)
    have "unat n \<le> unat (fastest_xfer_size v) * 1" using sp(2) by simp
    also have "\<dots> \<le> block_bytes v" using g(2) unfolding block_bytes_def by (intro mult_le_mono2) simp
    finally have n: "size_t_of arch n = n" using lt by (simp add: size_t_of_small)
    have c: "cache v1 = Some buf" by (simp add: b(1))
    obtain st buf2 where r: "reader v1 buf sec n = Inr (st, buf2)" and ok: "ok = (st = DISK_SUCCESS)"
      and v1': "v' = (if ok then v1\<lparr>cache := Some buf2, cache_status := CACHE_READY, cached_block := block\<rparr>
                       else v1\<lparr>cache := Some buf2\<rparr>)"
      using assms(6) sn n c unfolding cache_block_def if_not_P [OF False] v1
      by (auto simp: Let_def D split: if_splits)
    have v': "v' = (if ok then v\<lparr>cache_status := CACHE_READY, cache := Some buf2, cached_block := block\<rparr>
                    else v\<lparr>cache_status := CACHE_NOT_READY, cache := Some buf2\<rparr>)"
      unfolding v1' b(1) by simp
    have dev: "sector_size v = int (blk (device v))" using wf by (simp add: vol_wf_def)
    then have "sector_size v1 = int (blk (device v1))" "512 \<le> blk (device v1)"
      "unat n * blk (device v1) \<le> length buf" "unat n * blk (device v1) < 2 ^ size_t_bits arch"
      using g(2) nb b lt by simp_all
    then have rd: "length buf2 = block_bytes v"
      "st = DISK_SUCCESS \<Longrightarrow> i < unat n * nat (sector_size v) \<Longrightarrow>
         buf2 ! i = medium (device v) (unat sec * nat (sector_size v) + i)" for i
      using assms(1) [unfolded reads_medium_def, rule_format, of v1 buf sec n st buf2] r b dev by simp_all
    show ?thesis
    proof (cases ok)
      case True
      have "buf2 ! i = vol_byte medium v (unat block * block_bytes v + i)"
        if "i < block_bytes v" "in_volume v (unat block * block_bytes v + i)" for i
        using rd(2) [of i] sp(3) [OF that] sp(1) geo(1) ok True by (simp add: vol_byte_def add.assoc)
      then show ?thesis
        using True v' wf rd(1) same_volumeD [OF same_volume_updates(1) [where v = v and st = CACHE_READY and c = "Some buf2" and b = block]]
        by (simp add: vol_ok_def cache_ok_def)
    next
      case f: False
      then show ?thesis
        using v' wf rd(1) same_volumeD(1,2) [OF same_volume_updates(2) [where v = v and st = CACHE_NOT_READY and c = "Some buf2"]]
        by (simp add: vol_ok_def cache_ok_def)
    qed
  qed
qed

lemma length_vol_bytes [simp]: "length (vol_bytes medium v loc n) = n"
  by (simp add: vol_bytes_def)

lemma vol_bytes_add: "vol_bytes medium v loc (m + n) = vol_bytes medium v loc m @ vol_bytes medium v (loc + m) n"
  by (rule nth_equalityI) (auto simp: vol_bytes_def nth_append)

text \<open>What is copied out of a ready cache.\<close>

lemma cached_bytes:
  assumes "vol_ok arch blk medium v" and "cache_status v = CACHE_READY" and "a div block_bytes v = unat (cached_block v)"
    and "a mod block_bytes v + n \<le> block_bytes v" and "\<forall>b. a \<le> b \<and> b < a + n \<longrightarrow> in_volume v b"
  shows "field (the (cache v)) (a mod block_bytes v) n = vol_bytes medium v a n"
proof -
  let ?b = "block_bytes v"
  obtain buf where buf: "cache v = Some buf" "length buf = ?b"
    "\<forall>i<?b. in_volume v (a div ?b * ?b + i) \<longrightarrow> buf ! i = vol_byte medium v (a div ?b * ?b + i)"
    using assms(1-3) by (auto simp: vol_ok_def cache_ok_def split: option.splits)
  show ?thesis
  proof (rule nth_equalityI)
    show "length (field (the (cache v)) (a mod ?b) n) = length (vol_bytes medium v a n)" using buf assms(4) by simp
    fix i assume "i < length (field (the (cache v)) (a mod ?b) n)"
    then have i: "i < n" using buf assms(4) by simp
    have e: "a div ?b * ?b + (a mod ?b + i) = a + i" by (metis add.assoc div_mult_mod_eq)
    have "buf ! (a mod ?b + i) = vol_byte medium v (a + i)"
      using buf(3) [rule_format, of "a mod ?b + i"] assms(4,5) i unfolding e by simp
    then show "field (the (cache v)) (a mod ?b) n ! i = vol_bytes medium v a n ! i"
      using i buf assms(4) by (simp add: field_def vol_bytes_def)
  qed
qed

lemma read_loop_ok:
  assumes "reads_medium reader arch blk medium" and "vol_ok arch blk medium v"
    and "fastest_xfer_size v \<noteq> 0" "512 \<le> sector_size v" "sector_size v mod 512 = 0"
    and "unat bs = block_bytes v" and "unat loc + unat cnt \<le> 2 ^ 64"
    and "\<forall>a. unat loc \<le> a \<and> a < unat loc + unat cnt \<longrightarrow> in_volume v a" and "unat progress \<le> unat cnt"
    and "read_loop reader arch bs loc cnt progress out v = Inr (r, v')"
  shows "same_volume v v' \<and> vol_ok arch blk medium v' \<and>
    (\<forall>bytes. r = Some bytes \<longrightarrow> bytes = out @ vol_bytes medium v (unat loc + unat progress) (unat cnt - unat progress))"
  using assms
proof (induction reader arch bs loc cnt progress out v rule: read_loop.induct)
  case (1 reader arch bs loc cnt progress out v)
  note ok = "1.prems"(2) and g = "1.prems"(3-5) and bs = "1.prems"(6) and range = "1.prems"(7,8)
  show ?case
  proof (cases "progress < cnt")
    case False
    then have "unat cnt \<le> unat progress" by (simp add: word_less_nat_alt)
    moreover have "r = Some out" "v' = v" using False "1.prems"(10) by (subst (asm) read_loop.simps, simp)+
    ultimately show ?thesis using ok by (simp add: vol_bytes_def)
  next
    case True
    let ?a = "unat loc + unat progress" and ?n = "unat (read_chunk bs loc cnt progress)"
    have p: "unat progress < unat cnt" using True by (simp add: word_less_nat_alt)
    have wf: "vol_wf arch blk v" using ok by (simp add: vol_ok_def)
    have bs0: "bs \<noteq> 0" using geometry(6) [OF wf g] bs by auto
    obtain hit v1 where c: "cache_block reader arch v ((loc + progress) div bs) = Inr (hit, v1)"
      using "1.prems"(10) True bs0 by (subst (asm) read_loop.simps) (auto split: sum.splits)
    note cb = cache_block_ok [OF "1.prems"(1) ok g c]
    then have D: "same_volume v v1" and ok1: "vol_ok arch blk medium v1" by simp_all
    note D' = same_volumeD [OF D]
    show ?thesis
    proof (cases hit)
      case False
      then have "r = None" "v' = v1" using "1.prems"(10) True bs0 c by (subst (asm) read_loop.simps, simp)+
      then show ?thesis using cb by simp
    next
      case hit: True
      have a: "unat (loc + progress) = ?a" using range(1) p by (subst unat_add_exact) simp_all
      note ch = read_chunk_bounds [OF bs0 True, of loc, unfolded unat_mod a bs]
      have pc: "unat (progress + read_chunk bs loc cnt progress) = unat progress + ?n"
        using ch(2) unat_bound [of cnt] by (subst unat_add_exact) simp_all
      have in1: "\<forall>b. ?a \<le> b \<and> b < ?a + ?n \<longrightarrow> in_volume v1 b" using range(2) ch(2) D'(3) by simp
      have f: "field (the (cache v1)) (unat ((loc + progress) mod bs)) ?n = vol_bytes medium v ?a ?n"
        using cached_bytes [OF ok1 _ _ _ in1] cb hit ch(3) bs a D' by (simp add: unat_mod unat_div)
      have rec: "read_loop reader arch bs loc cnt (progress + read_chunk bs loc cnt progress)
          (out @ field (the (cache v1)) (unat ((loc + progress) mod bs)) ?n) v1 = Inr (r, v')"
        using "1.prems"(10) True bs0 c hit by (subst (asm) read_loop.simps) (simp add: Let_def)
      have g1: "fastest_xfer_size v1 \<noteq> 0" "512 \<le> sector_size v1" "sector_size v1 mod 512 = 0"
        using g D' D unfolding same_volume_def by auto
      have "same_volume v1 v' \<and> vol_ok arch blk medium v' \<and> (\<forall>bytes. r = Some bytes \<longrightarrow>
          bytes = (out @ field (the (cache v1)) (unat ((loc + progress) mod bs)) ?n) @
            vol_bytes medium v1 (unat loc + unat (progress + read_chunk bs loc cnt progress))
              (unat cnt - unat (progress + read_chunk bs loc cnt progress)))"
        using "1.prems"(1) ok1 g1 bs range D' pc ch(2) rec hit
        by (intro "1.IH" [OF _ bs0 c refl _ refl refl]) (use True in simp_all)
      moreover have "vol_bytes medium v ?a (unat cnt - unat progress) =
          vol_bytes medium v ?a ?n @ vol_bytes medium v (?a + ?n) (unat cnt - (unat progress + ?n))"
        using vol_bytes_add [of medium v ?a ?n "unat cnt - (unat progress + ?n)"] ch(2) by simp
      ultimately show ?thesis using D same_volume_trans unfolding f pc D'(8) by (auto simp: add.assoc)
    qed
  qed
qed

definition firmware_ok :: "firmware \<Rightarrow> arch \<Rightarrow> (nat \<Rightarrow> nat) \<Rightarrow> media \<Rightarrow> bool" where
  "firmware_ok fw arch blk medium \<longleftrightarrow>
     (case fw of UEFI_firmware ReadBlocks \<Rightarrow> ReadBlocks_ok ReadBlocks blk medium
      | BIOS_firmware int13 \<Rightarrow> arch = I386 \<and> int13_ok int13 blk medium)"

lemma disk_read_sectors_ok:
  "firmware_ok fw arch blk medium \<Longrightarrow> reads_medium (disk_read_sectors fw arch) arch blk medium"
  by (cases fw) (auto simp: firmware_ok_def uefi_reads_medium bios_reads_medium)

text \<open>The cases of a call.\<close>

lemma volume_read_cases:
  assumes "volume_read reader arch v loc cnt = Inr (r, v')"
  obtains (refused) "r = None" "v' = v"
  | (loop) "fastest_xfer_size v \<noteq> 0" "512 \<le> sector_size v" "sector_size v mod 512 = 0"
      "\<And>a. a < unat loc + unat cnt \<Longrightarrow> in_volume v a" "size_unknown v \<or> unat loc + unat cnt < 2 ^ 64"
      "read_loop reader arch (size_t_of arch (fastest_xfer_size v * of_int (sector_size v))) loc cnt 0 [] v = Inr (r, v')"
proof (cases "pxe v \<or> fastest_xfer_size v = 0 \<or> sector_size v < 512 \<or> sector_size v mod 512 \<noteq> 0")
  case True
  then show thesis using assms refused by (auto simp: volume_read_def split: if_splits)
next
  case False
  show thesis
  proof (cases "size_unknown v")
    case True
    then show thesis using assms False loop by (simp add: volume_read_def in_volume_def Let_def)
  next
    case known: False
    show thesis
    proof (cases "CHECKED_MUL (sect_count v) 512")
      case None
      then show thesis using assms False known refused by (simp add: volume_read_def Let_def)
    next
      case (Some ps)
      have ps: "unat ps = unat (sect_count v) * 512" using CHECKED_MUL_unat [OF Some] by simp
      show thesis
      proof (cases "loc \<ge> ps \<or> cnt > ps - loc")
        case True
        then show thesis using assms False known Some refused by (auto simp: volume_read_def Let_def)
      next
        case f: False
        then have "unat loc < unat ps" "unat cnt \<le> unat (ps - loc)" by (simp_all add: word_le_nat_alt word_less_nat_alt)
        then have le: "unat loc + unat cnt \<le> unat ps" by (simp add: unat_sub_exact)
        then have "in_volume v a" if "a < unat loc + unat cnt" for a using ps that by (simp add: in_volume_def)
        moreover have "unat loc + unat cnt < 2 ^ 64" using le unat_bound [of ps] by simp
        ultimately show thesis using assms False known Some f loop by (simp add: volume_read_def Let_def)
      qed
    qed
  qed
qed

lemma volume_read_ok:
  assumes "reads_medium reader arch blk medium" and "vol_ok arch blk medium v"
    and "size_unknown v \<Longrightarrow> unat loc + unat cnt \<le> 2 ^ 64"
    and "volume_read reader arch v loc cnt = Inr (r, v')"
  shows "same_volume v v' \<and> vol_ok arch blk medium v' \<and>
    (\<forall>bytes. r = Some bytes \<longrightarrow> bytes = vol_bytes medium v (unat loc) (unat cnt) \<and>
       (\<forall>a<unat loc + unat cnt. in_volume v a))"
  using assms(4)
proof (cases rule: volume_read_cases)
  case refused
  then show ?thesis using assms(2) by simp
next
  case loop
  have wf: "vol_wf arch blk v" using assms(2) by (simp add: vol_ok_def)
  have range: "unat loc + unat cnt \<le> 2 ^ 64" using loop(5) assms(3) by fastforce
  show ?thesis
    using read_loop_ok [OF assms(1,2) loop(1-3) geometry(7) [OF wf loop(1-3)] range _ _ loop(6)] loop(4) by simp
qed

text \<open>Whatever the range, also one that wraps on a disk of unknown size, the invariant is kept.\<close>

lemma read_loop_keeps:
  assumes "reads_medium reader arch blk medium" and "vol_ok arch blk medium v"
    and "fastest_xfer_size v \<noteq> 0" "512 \<le> sector_size v" "sector_size v mod 512 = 0" and "unat bs = block_bytes v"
    and "unat progress \<le> unat cnt" and "length out = unat progress"
    and "read_loop reader arch bs loc cnt progress out v = Inr (r, v')"
  shows "same_volume v v' \<and> vol_ok arch blk medium v' \<and> (\<forall>bytes. r = Some bytes \<longrightarrow> length bytes = unat cnt)"
  using assms
proof (induction reader arch bs loc cnt progress out v rule: read_loop.induct)
  case (1 reader arch bs loc cnt progress out v)
  note ok = "1.prems"(2) and g = "1.prems"(3-5) and bs = "1.prems"(6)
  show ?case
  proof (cases "progress < cnt")
    case False
    then have "unat cnt \<le> unat progress" by (simp add: word_less_nat_alt)
    moreover have "r = Some out" "v' = v" using False "1.prems"(9) by (subst (asm) read_loop.simps, simp)+
    ultimately show ?thesis using ok "1.prems"(7,8) by simp
  next
    case True
    let ?n = "unat (read_chunk bs loc cnt progress)"
    have bs0: "bs \<noteq> 0" using geometry(6) [of arch blk v] ok g bs by (auto simp: vol_ok_def)
    obtain hit v1 where c: "cache_block reader arch v ((loc + progress) div bs) = Inr (hit, v1)"
      using "1.prems"(9) True bs0 by (subst (asm) read_loop.simps) (auto split: sum.splits)
    note cb = cache_block_ok [OF "1.prems"(1) ok g c]
    then have D: "same_volume v v1" and ok1: "vol_ok arch blk medium v1" by simp_all
    note D' = same_volumeD [OF D]
    show ?thesis
    proof (cases hit)
      case False
      then have "r = None" "v' = v1" using "1.prems"(9) True bs0 c by (subst (asm) read_loop.simps, simp)+
      then show ?thesis using cb by simp
    next
      case hit: True
      note ch = read_chunk_bounds [OF bs0 True, of loc]
      have pc: "unat (progress + read_chunk bs loc cnt progress) = unat progress + ?n"
        using ch(2) unat_bound [of cnt] by (subst unat_add_exact) simp_all
      obtain buf where "cache v1 = Some buf" "length buf = block_bytes v1"
        using ok1 cb hit by (auto simp: vol_ok_def cache_ok_def split: option.splits)
      then have l: "length (field (the (cache v1)) (unat ((loc + progress) mod bs)) ?n) = ?n" using ch(3) bs D' by simp
      have rec: "read_loop reader arch bs loc cnt (progress + read_chunk bs loc cnt progress)
          (out @ field (the (cache v1)) (unat ((loc + progress) mod bs)) ?n) v1 = Inr (r, v')"
        using "1.prems"(9) True bs0 c hit by (subst (asm) read_loop.simps) (simp add: Let_def)
      have g1: "fastest_xfer_size v1 \<noteq> 0" "512 \<le> sector_size v1" "sector_size v1 mod 512 = 0"
        using g D' D unfolding same_volume_def by auto
      have "same_volume v1 v' \<and> vol_ok arch blk medium v' \<and> (\<forall>bytes. r = Some bytes \<longrightarrow> length bytes = unat cnt)"
        using "1.prems"(1,8) ok1 g1 bs D' pc ch(2) l rec hit
        by (intro "1.IH" [OF _ bs0 c refl _ refl refl]) (use True in simp_all)
      then show ?thesis using D same_volume_trans by blast
    qed
  qed
qed

lemma volume_read_keeps:
  assumes "reads_medium reader arch blk medium" and "vol_ok arch blk medium v"
    and "volume_read reader arch v loc cnt = Inr (r, v')"
  shows "same_volume v v' \<and> vol_ok arch blk medium v' \<and> (\<forall>bytes. r = Some bytes \<longrightarrow> length bytes = unat cnt)"
  using assms(3)
proof (cases rule: volume_read_cases)
  case refused
  then show ?thesis using assms(2) by simp
next
  case loop
  have wf: "vol_wf arch blk v" using assms(2) by (simp add: vol_ok_def)
  show ?thesis by (rule read_loop_keeps [OF assms(1,2) loop(1-3) geometry(7) [OF wf loop(1-3)] _ _ loop(6)]) simp_all
qed

text \<open>
  C27. Reading a volume is exact. If the firmware reads of the disk deliver what the medium
  holds, a successful \<open>volume_read\<close> of \<open>cnt\<close> bytes at \<open>loc\<close> gives exactly the bytes of the
  volume there, whatever the cache held from earlier reads and wherever the range lies relative
  to the blocks of the cache; all of them are inside the volume, and the volume is unchanged but
  for its cache, which again holds what the medium holds.
\<close>

theorem volume_read_exact:
  assumes "firmware_ok fw arch blk medium" and "vol_ok arch blk medium v" and "unat loc + unat cnt \<le> 2 ^ 64"
    and "volume_read (disk_read_sectors fw arch) arch v loc cnt = Inr (Some bytes, v')"
  shows "bytes = map (\<lambda>i. medium (device v) (unat (first_sect v) * 512 + unat loc + i)) [0..<unat cnt]
    \<and> (\<not> size_unknown v \<longrightarrow> unat loc + unat cnt \<le> unat (sect_count v) * 512 \<or> cnt = 0)
    \<and> same_volume v v' \<and> vol_ok arch blk medium v'"
proof -
  note r = volume_read_ok [OF disk_read_sectors_ok [OF assms(1)] assms(2) _ assms(4)]
  have "\<not> size_unknown v \<Longrightarrow> unat loc + unat cnt \<le> unat (sect_count v) * 512 \<or> cnt = 0"
  proof (rule disjCI)
    assume "\<not> size_unknown v" "cnt \<noteq> 0"
    moreover from this have "0 < unat cnt" by (simp only: unat_gt_0 simp_thms)
    ultimately show "unat loc + unat cnt \<le> unat (sect_count v) * 512"
      using r assms(3) by (auto simp: in_volume_def dest: spec [where x = "unat loc + unat cnt - 1"])
  qed
  then show ?thesis using r assms(3) by (auto simp: vol_bytes_def vol_byte_def add.assoc)
qed

text \<open>
  C29. A read never touches the disk outside the volume: the sectors read for a block of the
  cache start at the block's place in the volume, and end at or before the end of the device
  sector in which the volume ends.
\<close>

theorem cache_reads_in_volume:
  assumes "vol_wf arch blk v" and "fastest_xfer_size v \<noteq> 0" and "512 \<le> sector_size v" and "sector_size v mod 512 = 0"
    and "\<not> size_unknown v" and "cache_span v block = Some (s, n)"
  shows "unat (first_sect v) * 512 \<le> unat s * nat (sector_size v)
    \<and> (unat s + unat n) * nat (sector_size v) < (unat (first_sect v) + unat (sect_count v)) * 512 + nat (sector_size v)
    \<and> unat n \<le> unat (fastest_xfer_size v)"
  using cache_span_Some [OF assms(1-4,6)] geometry(1) [OF assms(1-4)] assms(5) by simp

lemma volume_read_past_end:
  assumes "\<not> pxe v" and "\<not> size_unknown v" and "unat (sect_count v) * 512 < 2 ^ 64"
    and "unat (sect_count v) * 512 \<le> unat loc \<or> unat (sect_count v) * 512 < unat loc + unat cnt"
  shows "volume_read reader arch v loc cnt = Inr (None, v)"
proof -
  obtain ps where ps: "CHECKED_MUL (sect_count v) 512 = Some ps" using assms(3) by (simp add: CHECKED_MUL_def)
  have u: "unat ps = unat (sect_count v) * 512" using CHECKED_MUL_unat [OF ps] by simp
  have "loc \<ge> ps \<or> cnt > ps - loc"
  proof (cases "loc \<ge> ps")
    case False
    then have "unat (ps - loc) = unat ps - unat loc" "unat loc < unat ps"
      by (simp_all add: word_le_nat_alt unat_sub_exact)
    then have "unat (ps - loc) < unat cnt" using assms(4) u by linarith
    then show ?thesis by (simp add: word_less_nat_alt)
  qed simp
  then show ?thesis using assms(1,2) ps by (auto simp: volume_read_def Let_def)
qed

text \<open>
  C30. What \<open>volume_read\<close> refuses, it refuses without a disk read, whatever the disk would do: a
  volume without a usable geometry, one larger than the byte addresses can express, and a range
  that starts or ends past the end of the volume; on a network volume it stops with a panic.
\<close>

theorem volume_read_errors:
  "(pxe v \<longrightarrow> volume_read reader arch v loc cnt = Inl (Panic ''Attempted volume_read() on pxe'')) \<and>
   (\<not> pxe v \<and> (fastest_xfer_size v = 0 \<or> sector_size v < 512 \<or> sector_size v mod 512 \<noteq> 0 \<or>
      \<not> size_unknown v \<and> (2 ^ 64 \<le> unat (sect_count v) * 512 \<or> unat (sect_count v) * 512 \<le> unat loc \<or>
        unat (sect_count v) * 512 < unat loc + unat cnt)) \<longrightarrow>
      volume_read reader arch v loc cnt = Inr (None, v))"
proof (intro conjI impI)
  show "pxe v \<Longrightarrow> volume_read reader arch v loc cnt = Inl (Panic ''Attempted volume_read() on pxe'')"
    by (simp add: volume_read_def)
next
  assume a: "\<not> pxe v \<and> (fastest_xfer_size v = 0 \<or> sector_size v < 512 \<or> sector_size v mod 512 \<noteq> 0 \<or>
     \<not> size_unknown v \<and> (2 ^ 64 \<le> unat (sect_count v) * 512 \<or> unat (sect_count v) * 512 \<le> unat loc \<or>
        unat (sect_count v) * 512 < unat loc + unat cnt))"
  then have p: "\<not> pxe v" by blast
  consider "fastest_xfer_size v = 0 \<or> sector_size v < 512 \<or> sector_size v mod 512 \<noteq> 0"
    | "\<not> size_unknown v" "2 ^ 64 \<le> unat (sect_count v) * 512"
    | "\<not> size_unknown v" "unat (sect_count v) * 512 < 2 ^ 64"
      "unat (sect_count v) * 512 \<le> unat loc \<or> unat (sect_count v) * 512 < unat loc + unat cnt"
    using a by linarith
  then show "volume_read reader arch v loc cnt = Inr (None, v)"
  proof cases
    case 1
    then show ?thesis using p by (simp add: volume_read_def)
  next
    case 2
    then show ?thesis using p by (simp add: volume_read_def CHECKED_MUL_def Let_def)
  next
    case 3
    then show ?thesis using p by (intro volume_read_past_end)
  qed
qed

section \<open>Reads inside a volume succeed\<close>

lemma cache_span_exists:
  assumes "vol_wf arch blk v" and "fastest_xfer_size v \<noteq> 0" and "512 \<le> sector_size v" and "sector_size v mod 512 = 0"
    and "\<not> size_unknown v" and "nat (sector_size v) div 512 dvd unat (first_sect v)"
    and "unat (sect_count v) * 512 < 2 ^ 64" and "unat block * block_bytes v < unat (sect_count v) * 512"
  shows "cache_span v block \<noteq> None"
proof -
  define k where "k = nat (sector_size v) div 512"
  note g = geometry [OF assms(1-4), folded k_def]
  let ?f = "unat (fastest_xfer_size v)" and ?K = "of_int (sector_size v div 512) :: u64"
  let ?first = "first_sect v div ?K"
  have al: "first_sect v mod ?K = 0" using assms(6) g(4) by (simp add: word_unat_eq_iff unat_mod k_def)
  have uf: "unat ?first * k = unat (first_sect v)" using assms(6) g(4) by (simp add: unat_div k_def)
  have room: "unat (first_sect v) + unat (sect_count v) < 2 ^ 64" using assms(1,5) by (simp add: vol_wf_def)
  have bb: "unat block * ?f * k * 512 = unat block * block_bytes v" by (simp add: g(5))
  then have "unat block * ?f * k * 512 < unat (sect_count v) * 512" using assms(8) by (simp only:)
  then have bk: "unat block * ?f * k < unat (sect_count v)" by (simp only: mult_less_cancel2)
  have k1: "m \<le> m * k" for m using g(2) by simp
  have "unat block * ?f < unat (sect_count v)" using k1 bk by (rule le_less_trans)
  then have "unat block * ?f < 2 ^ LENGTH(64)" using unat_bound by (rule less_trans)
  then have "CHECKED_MUL block (fastest_xfer_size v) \<noteq> None" unfolding CHECKED_MUL_def by (simp only: if_True option.simps not_False_eq_True)
  then obtain off where off: "CHECKED_MUL block (fastest_xfer_size v) = Some off" "unat off = unat block * ?f"
    using CHECKED_MUL_unat by blast
  have sum: "(unat ?first + unat off) * k < unat (first_sect v) + unat (sect_count v)"
    using uf bk off(2) by (simp add: add_mult_distrib)
  then have "unat ?first + unat off < 2 ^ 64" using le_less_trans [OF k1] room less_trans by blast
  then obtain s where s: "CHECKED_ADD ?first off = Some s" "unat s = unat ?first + unat off"
    by (simp add: CHECKED_ADD_def unat_add_exact)
  have K0: "?K \<noteq> 0" using g(2,4) by (metis less_irrefl unat_0)
  have "k < 2 ^ 55"
  proof -
    have "512 * k \<le> block_bytes v" unfolding g(5) using g(3) by simp
    also have "\<dots> < 2 ^ 64" using assms(1) by (intro size_t_le_64 [of _ arch]) (simp add: vol_wf_def)
    finally show ?thesis by simp
  qed
  then have "unat (sect_count v) + unat (?K - 1) < 2 ^ 64" using assms(7) K0 g(4) by (simp add: unat_minus_one)
  then obtain vs where vs: "DIV_ROUNDUP (sect_count v) ?K = Some vs" by (simp add: DIV_ROUNDUP_def CHECKED_ADD_def)
  note up = roundup_bounds [OF g(2), of "unat (sect_count v)", folded g(4), folded DIV_ROUNDUP_unat [OF vs K0], unfolded g(4)]
  show ?thesis
  proof
    assume none: "cache_span v block = None"
    then have le: "?first + C_MIN vs (- 1 - ?first) \<le> s"
      using assms(5) al off(1) s(1) vs by (simp add: cache_span_def Let_def split: if_splits)
    have sk: "unat s * k < unat ?first * k + unat vs * k" using sum s(2) uf up(1) by simp
    then have "unat s < unat ?first + unat vs" by (metis add_mult_distrib mult_less_cancel2)
    moreover have "unat ?first + unat vs < 2 ^ 64" using end_sector_fits [OF g(2) _ up(2)] room uf by simp
    ultimately show False using le end_sector_exact by (simp add: word_le_nat_alt)
  qed
qed

text \<open>A disk that delivers every sector asked for.\<close>

definition reliable :: "disk_reader \<Rightarrow> bool" where
  "reliable reader \<longleftrightarrow> (\<forall>v buf lba n. \<exists>buf'. reader v buf lba n = Inr (DISK_SUCCESS, buf'))"

lemma cache_block_succeeds:
  assumes "reliable reader" and "vol_ok arch blk medium v" and g: "fastest_xfer_size v \<noteq> 0" "512 \<le> sector_size v" "sector_size v mod 512 = 0"
    and "cache_span v block \<noteq> None"
  shows "\<exists>v'. cache_block reader arch v block = Inr (True, v')"
proof (cases "cache_status v = CACHE_READY \<and> block = cached_block v")
  case False
  let ?v = "v\<lparr>cache_status := CACHE_NOT_READY\<rparr>"
  have wf: "vol_wf arch blk v" using assms(2) by (simp add: vol_ok_def)
  have "unat (fastest_xfer_size v) * unat (of_int (sector_size v) :: u64) < 2 ^ 64"
  proof -
    have b: "block_bytes v < 2 ^ 64" using wf by (intro size_t_le_64 [of _ arch]) (simp add: vol_wf_def)
    have "0 < unat (fastest_xfer_size v)" using g(1) by (simp only: unat_gt_0 simp_thms)
    then have "nat (sector_size v) \<le> block_bytes v"
      unfolding block_bytes_def by (cases "unat (fastest_xfer_size v)") simp_all
    then have "unat (of_int (sector_size v) :: u64) = nat (sector_size v)"
      using b g(2) by (intro of_nat_inverse) simp_all
    then show ?thesis using b by (simp add: block_bytes_def)
  qed
  then have "\<exists>v1. cache_alloc ?v = Inr v1" by (auto simp: cache_alloc_def CHECKED_MUL_def split: option.splits)
  then obtain v1 where v1: "cache_alloc ?v = Inr v1" by blast
  then obtain buf where "v1 = v\<lparr>cache_status := CACHE_NOT_READY, cache := Some buf\<rparr>"
    using cache_alloc_ok [OF assms(2) g(2,1)] by blast
  then have "cache_span v1 = cache_span v" using same_volumeD(5) [OF same_volume_updates(2)] by simp
  then obtain s n where s: "cache_span v1 block = Some (s, n)" using assms(6) by auto
  obtain buf' where "reader v1 (the (cache v1)) s (size_t_of arch n) = Inr (DISK_SUCCESS, buf')"
    using assms(1) unfolding reliable_def by blast
  then show ?thesis unfolding cache_block_def if_not_P [OF False] v1 by (simp add: s Let_def)
qed (simp add: cache_block_def)

lemma read_loop_succeeds:
  assumes "reads_medium reader arch blk medium" and "reliable reader" and "vol_ok arch blk medium v"
    and "fastest_xfer_size v \<noteq> 0" "512 \<le> sector_size v" "sector_size v mod 512 = 0" and "unat bs = block_bytes v"
    and "unat loc + unat cnt \<le> 2 ^ 64"
    and "\<forall>block. unat block * block_bytes v < unat loc + unat cnt \<longrightarrow> cache_span v block \<noteq> None"
  shows "\<exists>bytes v'. read_loop reader arch bs loc cnt progress out v = Inr (Some bytes, v')"
  using assms
proof (induction reader arch bs loc cnt progress out v rule: read_loop.induct)
  case (1 reader arch bs loc cnt progress out v)
  note ok = "1.prems"(3) and g = "1.prems"(4-6) and bs = "1.prems"(7)
  show ?case
  proof (cases "progress < cnt")
    case False
    then show ?thesis by (subst read_loop.simps) simp
  next
    case True
    have p: "unat progress < unat cnt" using True by (simp add: word_less_nat_alt)
    have a: "unat (loc + progress) = unat loc + unat progress" using "1.prems"(8) p by (subst unat_add_exact) simp_all
    have bs0: "bs \<noteq> 0" using geometry(6) [of arch blk v] ok g bs by (auto simp: vol_ok_def)
    have "unat ((loc + progress) div bs) * block_bytes v \<le> unat loc + unat progress" by (simp add: unat_div a bs)
    then have "cache_span v ((loc + progress) div bs) \<noteq> None" using "1.prems"(9) p by simp
    then obtain v1 where c: "cache_block reader arch v ((loc + progress) div bs) = Inr (True, v1)"
      using cache_block_succeeds [OF "1.prems"(2) ok g] by blast
    note cb = cache_block_ok [OF "1.prems"(1) ok g c]
    then have D: "same_volume v v1" and ok1: "vol_ok arch blk medium v1" by simp_all
    note D' = same_volumeD [OF D]
    have g1: "fastest_xfer_size v1 \<noteq> 0" "512 \<le> sector_size v1" "sector_size v1 mod 512 = 0"
      using g D' D unfolding same_volume_def by auto
    have "\<exists>bytes v'. read_loop reader arch bs loc cnt (progress + read_chunk bs loc cnt progress)
        (out @ field (the (cache v1)) (unat ((loc + progress) mod bs)) (unat (read_chunk bs loc cnt progress))) v1 = Inr (Some bytes, v')"
      using "1.prems"(1,2,8,9) ok1 g1 bs D'
      by (intro "1.IH" [OF _ bs0 c refl _ refl refl]) (use True in simp_all)
    then show ?thesis using True bs0 c by (subst read_loop.simps) (simp add: Let_def)
  qed
qed

lemma volume_read_in_range:
  assumes "reads_medium reader arch blk medium" and "reliable reader" and "vol_ok arch blk medium v"
    and "\<not> pxe v" and "fastest_xfer_size v \<noteq> 0" and "512 \<le> sector_size v" and "sector_size v mod 512 = 0"
    and "\<not> size_unknown v" and "unat (sect_count v) * 512 < 2 ^ 64" and "nat (sector_size v) div 512 dvd unat (first_sect v)"
    and "unat loc < unat (sect_count v) * 512" and "unat loc + unat cnt \<le> unat (sect_count v) * 512"
  shows "\<exists>v'. volume_read reader arch v loc cnt = Inr (Some (vol_bytes medium v (unat loc) (unat cnt)), v')"
proof -
  have wf: "vol_wf arch blk v" using assms(3) by (simp add: vol_ok_def)
  obtain ps where ps: "CHECKED_MUL (sect_count v) 512 = Some ps" using assms(9) by (simp add: CHECKED_MUL_def)
  have u: "unat ps = unat (sect_count v) * 512" using CHECKED_MUL_unat [OF ps] by simp
  have "\<not> (loc \<ge> ps \<or> cnt > ps - loc)"
    using assms(11,12) u by (simp add: word_le_nat_alt word_less_nat_alt unat_sub_exact)
  then have e: "volume_read reader arch v loc cnt =
      read_loop reader arch (size_t_of arch (fastest_xfer_size v * of_int (sector_size v))) loc cnt 0 [] v"
    using assms(4-8) ps by (simp add: volume_read_def Let_def)
  have "\<forall>block. unat block * block_bytes v < unat loc + unat cnt \<longrightarrow> cache_span v block \<noteq> None"
    using cache_span_exists [OF wf assms(5-8,10,9)] assms(12) by simp
  then obtain bytes v' where r: "volume_read reader arch v loc cnt = Inr (Some bytes, v')"
    using read_loop_succeeds [OF assms(1-3,5-7) geometry(7) [OF wf assms(5-7)], of loc cnt 0 "[]"] assms(9,12) e by auto
  then show ?thesis using volume_read_ok [OF assms(1,3) _ r] assms(8) by simp
qed


section \<open>An example\<close>

text \<open>A disk of 512-byte blocks on which the byte at an address is the address, and a partition of it.\<close>

definition ramdisk :: firmware where
  "ramdisk = UEFI_firmware (\<lambda>dev lba n buf.
     (EFI_SUCCESS, map (\<lambda>i. of_nat (unat lba * 512 + i)) [0..<unat n] @ drop (unat n) buf))"

definition example_volume :: volume where
  "example_volume =
     \<lparr>device = 0, fastest_xfer_size = 1, vol_index = 1, is_optical = False, pxe = False, vol_partition = 1,
      sector_size = 512, backing_dev = None, extended = None, cache_status = CACHE_NOT_READY, cache = None,
      cached_block = 0, ebr_part = None, ebr_walk_index = 0, ebr_walk_depth = 0, ebr_walk_size = 0,
      ebr_walk_chain = [], first_sect = 1, sect_count = 4, guid_valid = False, vol_guid = [],
      part_guid_valid = False, part_guid = [], part_type_guid_valid = False, part_type_guid = [],
      fslabel_valid = False, fslabel = []\<rparr>"

lemma ramdisk_ok:
  "firmware_ok ramdisk X86_64 (\<lambda>_. 512) (\<lambda>_ a. of_nat a)" "reliable (disk_read_sectors ramdisk X86_64)"
  "vol_ok X86_64 (\<lambda>_. 512) (\<lambda>_ a. of_nat a) example_volume"
proof -
  show "firmware_ok ramdisk X86_64 (\<lambda>_. 512) (\<lambda>_ a. of_nat a)"
    by (auto simp: firmware_ok_def ramdisk_def ReadBlocks_ok_def nth_append)
  show "reliable (disk_read_sectors ramdisk X86_64)"
    by (auto simp: reliable_def ramdisk_def disk_read_sectors_uefi_def)
  show "vol_ok X86_64 (\<lambda>_. 512) (\<lambda>_ a. of_nat a) example_volume"
    by (simp add: vol_ok_def vol_wf_def cache_ok_def block_bytes_def example_volume_def size_t_bits_def)
qed

text \<open>A disk of 512-byte blocks with the given bytes, and a volume over its first eight blocks.\<close>

definition image_firmware :: "(nat \<Rightarrow> u8) \<Rightarrow> firmware" where
  "image_firmware img = UEFI_firmware (\<lambda>dev lba n buf.
     (EFI_SUCCESS, map (\<lambda>i. img (unat lba * 512 + i)) [0..<unat n] @ drop (unat n) buf))"

definition example_disk :: volume where
  "example_disk = example_volume\<lparr>first_sect := 0, sect_count := 8, vol_partition := 0\<rparr>"

lemma image_firmware_ok:
  "firmware_ok (image_firmware img) X86_64 (\<lambda>_. 512) (\<lambda>_. img)"
  "reliable (disk_read_sectors (image_firmware img) X86_64)"
  "vol_ok X86_64 (\<lambda>_. 512) medium example_disk"
proof -
  show "firmware_ok (image_firmware img) X86_64 (\<lambda>_. 512) (\<lambda>_. img)"
    by (auto simp: firmware_ok_def image_firmware_def ReadBlocks_ok_def nth_append)
  show "reliable (disk_read_sectors (image_firmware img) X86_64)"
    by (auto simp: reliable_def image_firmware_def disk_read_sectors_uefi_def)
  show "vol_ok X86_64 (\<lambda>_. 512) medium example_disk"
    by (simp add: vol_ok_def vol_wf_def cache_ok_def block_bytes_def example_disk_def example_volume_def size_t_bits_def)
qed

text \<open>Four bytes across a block boundary.\<close>

lemma example_read:
  "\<exists>v'. volume_read (disk_read_sectors ramdisk X86_64) X86_64 example_volume 510 4 = Inr (Some [0xfe, 0xff, 0, 1], v')"
proof -
  have "\<exists>v'. volume_read (disk_read_sectors ramdisk X86_64) X86_64 example_volume 510 4 =
      Inr (Some (vol_bytes (\<lambda>_ a. of_nat a) example_volume (unat (510::u64)) (unat (4::u64))), v')"
    by (rule volume_read_in_range [OF disk_read_sectors_ok [OF ramdisk_ok(1)] ramdisk_ok(2,3)])
      (simp_all add: example_volume_def)
  moreover have "vol_bytes (\<lambda>_ a. of_nat a) example_volume (unat (510::u64)) (unat (4::u64)) = [0xfe, 0xff, 0, 1]"
    by (simp add: vol_bytes_def vol_byte_def example_volume_def upt_rec)
  ultimately show ?thesis by (simp only:)
qed

theorem volume_read_exact_witness:
  "\<exists>bytes v'. volume_read (disk_read_sectors ramdisk X86_64) X86_64 example_volume 510 4 = Inr (Some bytes, v') \<and>
     bytes = [0xfe, 0xff, 0, 1] \<and> vol_ok X86_64 (\<lambda>_. 512) (\<lambda>_ a. of_nat a) v'"
proof -
  obtain bytes v' where r: "volume_read (disk_read_sectors ramdisk X86_64) X86_64 example_volume 510 4 = Inr (Some bytes, v')"
    using example_read by blast
  then show ?thesis
    using volume_read_exact [OF ramdisk_ok(1,3) _ r] by (simp add: example_volume_def upt_rec)
qed


theorem cache_reads_in_volume_witness:
  "\<exists>s n. cache_span (example_volume\<lparr>fastest_xfer_size := 8\<rparr>) 0 = Some (s, n) \<and> unat s + unat n < 6"
proof -
  let ?v = "example_volume\<lparr>fastest_xfer_size := 8\<rparr>"
  have wf: "vol_wf X86_64 (\<lambda>_. 512) ?v" by (simp add: vol_wf_def block_bytes_def example_volume_def size_t_bits_def)
  have s: "cache_span ?v 0 = Some (1, 4)"
    by (simp add: cache_span_def example_volume_def CHECKED_MUL_def CHECKED_ADD_def DIV_ROUNDUP_def C_MIN_def Let_def word_le_nat_alt del: C_MIN_min)
  show ?thesis
    using cache_reads_in_volume [OF wf _ _ _ _ s] s by (simp add: example_volume_def)
qed

theorem volume_read_errors_witness:
  "volume_read (\<lambda>v buf lba n. Inl (Panic ''disk'')) I386 example_volume 2046 4 = Inr (None, example_volume)"
  using volume_read_errors [of example_volume "\<lambda>v buf lba n. Inl (Panic ''disk'')" I386 2046 4]
  by (simp add: example_volume_def)

end
