(* ===== verification/Action.thy ===== *)
theory Action
  imports Limine_Prelude
begin

text \<open>
  Code that changes a state and may stop in a panic, as functions from states, with rules for
  what holds of every result, for always having one and for doing what a simpler action does.
  The state of the partition code and the volume a file system reads through are instances.
\<close>

section \<open>Actions\<close>

type_synonym ('s, 'a) action = "'s \<Rightarrow> ('a \<times> 's) res"

definition ret :: "'a \<Rightarrow> ('s, 'a) action" where
  "ret x s = Inr (x, s)"

definition act_bind :: "('s, 'a) action \<Rightarrow> ('a \<Rightarrow> ('s, 'b) action) \<Rightarrow> ('s, 'b) action" where
  "act_bind m f s = res_bind (m s) (\<lambda>(x, s). f x s)"

definition change :: "('s \<Rightarrow> 's) \<Rightarrow> ('s, unit) action" where
  "change f s = Inr ((), f s)"

definition get_state :: "('s \<Rightarrow> ('s, 'a) action) \<Rightarrow> ('s, 'a) action" where
  "get_state k s = k s s"

definition panic :: "string \<Rightarrow> ('s, 'a) action" where
  "panic msg s = Inl (Panic msg)"

section \<open>What holds of the results\<close>

text \<open>
  What holds of every result of an action started where the precondition holds. An action that
  stops in a panic has no result.
\<close>

definition hoare :: "('s \<Rightarrow> bool) \<Rightarrow> ('s, 'a) action \<Rightarrow> ('a \<Rightarrow> 's \<Rightarrow> bool) \<Rightarrow> bool" where
  "hoare P m Q \<longleftrightarrow> (\<forall>s x s'. P s \<longrightarrow> m s = Inr (x, s') \<longrightarrow> Q x s')"

named_theorems hoare_rules \<open>rules for the actions\<close>

lemma hoareD: "hoare P m Q \<Longrightarrow> P s \<Longrightarrow> m s = Inr (x, s') \<Longrightarrow> Q x s'"
  by (auto simp: hoare_def)

lemma hoare_ret [hoare_rules]: "(\<And>s. P s \<Longrightarrow> Q x s) \<Longrightarrow> hoare P (ret x) Q"
  by (auto simp: hoare_def ret_def)

lemma hoare_panic [hoare_rules]: "hoare P (panic msg) Q"
  by (simp add: hoare_def panic_def)

lemma hoare_bind: "hoare P m R \<Longrightarrow> (\<And>x. hoare (R x) (f x) Q) \<Longrightarrow> hoare P (act_bind m f) Q"
  by (fastforce simp: hoare_def act_bind_def)

lemma hoare_bind_result:
  "hoare P m R \<Longrightarrow> (\<And>x s s'. m s = Inr (x, s') \<Longrightarrow> hoare (R x) (f x) Q) \<Longrightarrow> hoare P (act_bind m f) Q"
  by (fastforce simp: hoare_def act_bind_def)

lemma hoare_change [hoare_rules]: "(\<And>s. P s \<Longrightarrow> Q () (f s)) \<Longrightarrow> hoare P (change f) Q"
  by (auto simp: hoare_def change_def)

lemma hoare_get_state: "(\<And>t. hoare (\<lambda>s. P s \<and> s = t) (k t) Q) \<Longrightarrow> hoare P (get_state k) Q"
  by (auto simp: hoare_def get_state_def)

lemma hoare_if: "(b \<Longrightarrow> hoare P m Q) \<Longrightarrow> (\<not> b \<Longrightarrow> hoare P n Q) \<Longrightarrow> hoare P (if b then m else n) Q"
  by simp

lemma hoare_option:
  "(x = None \<Longrightarrow> hoare P m Q) \<Longrightarrow> (\<And>y. x = Some y \<Longrightarrow> hoare P (f y) Q) \<Longrightarrow>
   hoare P (case x of None \<Rightarrow> m | Some y \<Rightarrow> f y) Q"
  by (cases x) simp_all

lemma hoare_Let: "hoare P (f x) Q \<Longrightarrow> hoare P (Let x f) Q"
  by simp

lemma hoare_prod: "(\<And>a b. x = (a, b) \<Longrightarrow> hoare P (f a b) Q) \<Longrightarrow> hoare P (case x of (a, b) \<Rightarrow> f a b) Q"
  by (cases x) simp

lemma hoare_pre: "hoare P m Q \<Longrightarrow> (\<And>s. R s \<Longrightarrow> P s) \<Longrightarrow> hoare R m Q"
  by (auto simp: hoare_def)

lemma hoare_post: "hoare P m Q \<Longrightarrow> (\<And>x s. Q x s \<Longrightarrow> R x s) \<Longrightarrow> hoare P m R"
  by (auto simp: hoare_def)

lemma hoare_conj: "hoare P m Q \<Longrightarrow> hoare P m R \<Longrightarrow> hoare P m (\<lambda>x s. Q x s \<and> R x s)"
  by (auto simp: hoare_def)

lemma hoare_pre_fact: "(\<phi> \<Longrightarrow> hoare P m Q) \<Longrightarrow> hoare (\<lambda>s. P s \<and> \<phi>) m Q"
  by (auto simp: hoare_def)

lemma hoare_fact: "(\<And>s. P s \<Longrightarrow> \<phi>) \<Longrightarrow> (\<phi> \<Longrightarrow> hoare P m Q) \<Longrightarrow> hoare P m Q"
  unfolding hoare_def by blast

lemma hoare_False: "hoare (\<lambda>s. False) m Q"
  by (simp add: hoare_def)

section \<open>Actions that return\<close>

definition returns :: "('s, 'a) action \<Rightarrow> bool" where
  "returns m \<longleftrightarrow> (\<forall>s. \<exists>x s'. m s = Inr (x, s'))"

named_theorems returns_rules \<open>actions that return\<close>

lemma returns_ret [returns_rules]: "returns (ret x)"
  by (simp add: returns_def ret_def)

lemma returns_bind [returns_rules]: "returns m \<Longrightarrow> (\<And>x. returns (f x)) \<Longrightarrow> returns (act_bind m f)"
  unfolding returns_def act_bind_def by (metis case_prod_conv res_bind_simps(2))

lemma returns_change [returns_rules]: "returns (change f)"
  by (simp add: returns_def change_def)

lemma returns_get_state [returns_rules]: "(\<And>t. returns (k t)) \<Longrightarrow> returns (get_state k)"
  by (simp add: returns_def get_state_def)

lemma returns_if [returns_rules]: "returns m \<Longrightarrow> returns n \<Longrightarrow> returns (if b then m else n)"
  by simp

lemma returns_option [returns_rules]:
  "returns m \<Longrightarrow> (\<And>y. returns (f y)) \<Longrightarrow> returns (case x of None \<Rightarrow> m | Some y \<Rightarrow> f y)"
  by (cases x) simp_all

lemma returns_prod [returns_rules]: "(\<And>y z. returns (f y z)) \<Longrightarrow> returns (case x of (y, z) \<Rightarrow> f y z)"
  by (cases x) simp

lemma returns_Let [returns_rules]: "(\<And>y. returns (f y)) \<Longrightarrow> returns (Let x f)"
  by simp

section \<open>Refinement\<close>

text \<open>
  An action does what a simpler one does from a state that stays as it is: it stops where that
  one stops, and else has its result and keeps its own invariant.
\<close>

definition refines :: "('s \<Rightarrow> bool) \<Rightarrow> ('s, 'a) action \<Rightarrow> 't \<Rightarrow> ('t, 'a) action \<Rightarrow> bool" where
  "refines good m t a \<longleftrightarrow>
     (\<forall>s. good s \<longrightarrow> (case a t of
        Inl e \<Rightarrow> m s = Inl e
      | Inr (x, t') \<Rightarrow> t' = t \<and> (\<exists>s'. good s' \<and> m s = Inr (x, s'))))"

named_theorems refines_rules \<open>refinement of actions\<close>

lemma refines_Inr: "refines good m t a \<Longrightarrow> good s \<Longrightarrow> a t = Inr (x, t') \<Longrightarrow> t' = t \<and> (\<exists>s'. good s' \<and> m s = Inr (x, s'))"
  unfolding refines_def by fastforce

lemma refines_ret [refines_rules]: "refines good (ret x) t (ret x)"
  by (simp add: refines_def ret_def)

lemma refines_panic [refines_rules]: "refines good (panic msg) t (panic msg)"
  by (simp add: refines_def panic_def)

lemma refines_bind [refines_rules]:
  assumes "refines good m t a" and "\<And>x s s'. m s = Inr (x, s') \<Longrightarrow> refines good (f x) t (g x)"
  shows "refines good (act_bind m f) t (act_bind a g)"
  unfolding refines_def
proof (intro allI impI)
  fix s assume s: "good s"
  show "case act_bind a g t of Inl e \<Rightarrow> act_bind m f s = Inl e
      | Inr (x, t') \<Rightarrow> t' = t \<and> (\<exists>s'. good s' \<and> act_bind m f s = Inr (x, s'))"
  proof (cases "a t")
    case (Inl e)
    then have "m s = Inl e" using assms(1) s by (simp add: refines_def)
    then show ?thesis using Inl by (simp add: act_bind_def)
  next
    case (Inr p)
    then obtain x where x: "a t = Inr (x, t)" and "\<exists>s'. good s' \<and> m s = Inr (x, s')"
      using refines_Inr [OF assms(1) s] by (cases p) blast
    then obtain s' where "good s'" "m s = Inr (x, s')" by blast
    then have e: "act_bind m f s = f x s'" "act_bind a g t = g x t" using x by (simp_all add: act_bind_def)
    show ?thesis unfolding e using assms(2) [OF \<open>m s = Inr (x, s')\<close>] \<open>good s'\<close> unfolding refines_def by blast
  qed
qed

lemma refines_get_state [refines_rules]:
  "(\<And>s. good s \<Longrightarrow> refines good (k s) t (l t)) \<Longrightarrow> refines good (get_state k) t (get_state l)"
  unfolding refines_def get_state_def by blast

lemma refines_if [refines_rules]:
  "(b \<Longrightarrow> refines good m t a) \<Longrightarrow> (\<not> b \<Longrightarrow> refines good n t c) \<Longrightarrow>
   refines good (if b then m else n) t (if b then a else c)"
  by simp

lemma refines_option [refines_rules]:
  "(x = None \<Longrightarrow> refines good m t a) \<Longrightarrow> (\<And>y. x = Some y \<Longrightarrow> refines good (f y) t (g y)) \<Longrightarrow>
   refines good (case x of None \<Rightarrow> m | Some y \<Rightarrow> f y) t (case x of None \<Rightarrow> a | Some y \<Rightarrow> g y)"
  by (cases x) simp_all

lemma refines_prod [refines_rules]:
  "(\<And>y z. x = (y, z) \<Longrightarrow> refines good (f y z) t (g y z)) \<Longrightarrow>
   refines good (case x of (y, z) \<Rightarrow> f y z) t (case x of (y, z) \<Rightarrow> g y z)"
  by (cases x) simp

lemma refines_Let [refines_rules]:
  "(\<And>y. y = x \<Longrightarrow> refines good (f y) t (g y)) \<Longrightarrow> refines good (Let x f) t (Let x g)"
  by simp

end
