(* ===== verification/Part_Store.thy ===== *)
theory Part_Store
  imports Volume Action
begin

text \<open>
  The state of the partition code of \<^verbatim>\<open>common/lib/part.s2.c\<close>: the volumes it refers to
  by pointers, the memos of the GPT search, and the actions on that state. The code that looks
  for partition tables sees a volume only through \<open>volume_read\<close>; that interface is the locale
  \<open>volume_store\<close> at the end.
\<close>

section \<open>The state\<close>

record gpt_table_header =
  signature :: "u8 list"
  revision :: u32
  header_size :: u32
  header_crc32 :: u32
  reserved0 :: u32
  my_lba :: u64
  alternate_lba :: u64
  first_usable_lba :: u64
  last_usable_lba :: u64
  disk_guid :: "u8 list"
  partition_entry_lba :: u64
  number_of_partition_entries :: u32
  size_of_partition_entry :: u32
  partition_entry_array_crc32 :: u32

record pstate =
  vols :: "volume list"
  gpt_memo_volume :: "vid option"
  gpt_memo_header :: gpt_table_header
  gpt_memo_lba :: u64
  gpt_memo_lb_size :: int
  gpt_memo_none_volume :: "vid option"
  gpt_memo_none_block :: gpt_table_header
  gpt_memo_none_readable :: bool

section \<open>Actions\<close>

type_synonym 'a act = "(pstate, 'a) action"

definition get_vol :: "vid \<Rightarrow> (volume \<Rightarrow> 'a act) \<Rightarrow> 'a act" where
  "get_vol v k s = k (vols s ! v) s"

definition set_vol :: "vid \<Rightarrow> (volume \<Rightarrow> volume) \<Rightarrow> unit act" where
  "set_vol v f = change (\<lambda>s. s\<lparr>vols := (vols s)[v := f (vols s ! v)]\<rparr>)"

text \<open>A new volume.\<close>

definition new_vol :: "volume \<Rightarrow> vid act" where
  "new_vol x s = Inr (length (vols s), s\<lparr>vols := vols s @ [x]\<rparr>)"

text \<open>Reading through a volume of the store.\<close>

type_synonym vreader = "vid \<Rightarrow> u64 \<Rightarrow> u64 \<Rightarrow> u8 list option act"

definition store_read :: "disk_reader \<Rightarrow> arch \<Rightarrow> vreader" where
  "store_read reader arch v loc cnt s =
     res_bind (volume_read reader arch (vols s ! v) loc cnt) (\<lambda>(r, vol).
       Inr (r, s\<lparr>vols := (vols s)[v := vol]\<rparr>))"

text \<open>A read with what is done when it fails.\<close>

definition read_or :: "vreader \<Rightarrow> vid \<Rightarrow> u64 \<Rightarrow> u64 \<Rightarrow> 'a act \<Rightarrow> (u8 list \<Rightarrow> 'a act) \<Rightarrow> 'a act" where
  "read_or vread v loc cnt fail k =
     act_bind (vread v loc cnt) (\<lambda>r. case r of None \<Rightarrow> fail | Some bs \<Rightarrow> k bs)"

lemma hoare_get_vol: "(\<And>vol. hoare (\<lambda>s. P s \<and> vols s ! v = vol) (k vol) Q) \<Longrightarrow> hoare P (get_vol v k) Q"
  by (auto simp: hoare_def get_vol_def)

lemma hoare_set_vol [hoare_rules]:
  "(\<And>s. P s \<Longrightarrow> Q () (s\<lparr>vols := (vols s)[v := f (vols s ! v)]\<rparr>)) \<Longrightarrow> hoare P (set_vol v f) Q"
  unfolding set_vol_def by (rule hoare_change)

lemma hoare_new_vol [hoare_rules]:
  "(\<And>s. P s \<Longrightarrow> Q (length (vols s)) (s\<lparr>vols := vols s @ [x]\<rparr>)) \<Longrightarrow> hoare P (new_vol x) Q"
  by (auto simp: hoare_def new_vol_def)

section \<open>The interface of volume reads\<close>

text \<open>
  What a reader promises the partition code: it keeps the invariant of the store, changes only
  caches, and what it returns are the bytes of the volume.
\<close>

definition same_vols :: "volume list \<Rightarrow> volume list \<Rightarrow> bool" where
  "same_vols = list_all2 same_volume"

lemma same_vols_refl [simp]: "same_vols vs vs"
  by (simp add: same_vols_def list_all2_refl)

lemma same_vols_trans: "same_vols us vs \<Longrightarrow> same_vols vs ws \<Longrightarrow> same_vols us ws"
  unfolding same_vols_def by (rule list_all2_trans [OF same_volume_trans])

lemma same_volsD:
  assumes "same_vols us vs"
  shows "length vs = length us" and "v < length us \<Longrightarrow> same_volume (us ! v) (vs ! v)"
  using assms by (simp_all add: same_vols_def list_all2_lengthD [symmetric] list_all2_nthD)

lemma same_vols_update: "v < length us \<Longrightarrow> same_volume (us ! v) w \<Longrightarrow> same_vols us (us[v := w])"
  unfolding same_vols_def by (rule list_all2I) (auto simp: set_zip nth_list_update)

text \<open>The memo of the last table found.\<close>

type_synonym memo = "vid option \<times> gpt_table_header \<times> u64 \<times> int"

definition memo :: "pstate \<Rightarrow> memo" where
  "memo s = (gpt_memo_volume s, gpt_memo_header s, gpt_memo_lba s, gpt_memo_lb_size s)"

lemma memo_vols [simp]: "memo (s\<lparr>vols := vs\<rparr>) = memo s"
  by (simp add: memo_def)

locale volume_store =
  fixes vread :: vreader
    and inv :: "volume list \<Rightarrow> bool"
    and bytes :: "volume \<Rightarrow> nat \<Rightarrow> nat \<Rightarrow> u8 list"
  assumes read_state: "inv (vols s) \<Longrightarrow> v < length (vols s) \<Longrightarrow> vread v loc n s = Inr (r, s') \<Longrightarrow>
      \<exists>vs. s' = s\<lparr>vols := vs\<rparr> \<and> inv vs \<and> same_vols (vols s) vs"
    and read_length: "inv (vols s) \<Longrightarrow> v < length (vols s) \<Longrightarrow> vread v loc n s = Inr (Some bs, s') \<Longrightarrow> length bs = unat n"
    and read_range: "v < length (vols s) \<Longrightarrow> vread v loc n s = Inr (Some bs, s') \<Longrightarrow>
      \<not> size_unknown (vols s ! v) \<Longrightarrow> unat loc + unat n < 2 ^ 64"
    and read_bytes: "inv (vols s) \<Longrightarrow> v < length (vols s) \<Longrightarrow> unat loc + unat n \<le> 2 ^ 64 \<Longrightarrow>
      vread v loc n s = Inr (Some bs, s') \<Longrightarrow> bs = bytes (vols s ! v) (unat loc) (unat n)"
    and bytes_same: "same_volume x y \<Longrightarrow> bytes y = bytes x"
    and bytes_append: "bytes x a (i + j) = bytes x a i @ bytes x (a + i) j"
    and bytes_length: "length (bytes x a i) = i"
begin

lemma bytes_0: "bytes x a 0 = []"
  using bytes_length [of x a 0] by simp

text \<open>The states whose volumes differ from given ones in the caches only.\<close>

definition since :: "volume list \<Rightarrow> memo \<Rightarrow> pstate \<Rightarrow> bool" where
  "since us M s \<longleftrightarrow> inv (vols s) \<and> same_vols us (vols s) \<and> memo s = M"

text \<open>What a read returns: the bytes of the volume, when the range does not wrap.\<close>

definition read_result :: "volume \<Rightarrow> u64 \<Rightarrow> u64 \<Rightarrow> u8 list \<Rightarrow> bool" where
  "read_result vol loc n bs \<longleftrightarrow>
     length bs = unat n \<and> (\<not> size_unknown vol \<longrightarrow> unat loc + unat n < 2 ^ 64) \<and>
     (unat loc + unat n \<le> 2 ^ 64 \<longrightarrow> bs = bytes vol (unat loc) (unat n))"

lemma hoare_read:
  assumes "v < length us"
    and "hoare (since us M) fail Q"
    and "\<And>bs. read_result (us ! v) loc n bs \<Longrightarrow> hoare (since us M) (k bs) Q"
  shows "hoare (since us M) (read_or vread v loc n fail k) Q"
  unfolding hoare_def
proof (intro allI impI)
  fix s x s' assume s: "since us M s" and r: "read_or vread v loc n fail k s = Inr (x, s')"
  obtain r1 s1 where r1: "vread v loc n s = Inr (r1, s1)"
    using r by (cases "vread v loc n s") (auto simp: read_or_def act_bind_def)
  have same: "same_vols us (vols s)" and i: "inv (vols s)" using s by (simp_all add: since_def)
  note D = same_volsD [OF same]
  have v: "v < length (vols s)" and sv: "same_volume (us ! v) (vols s ! v)" using D assms(1) by simp_all
  have s1: "since us M s1" using read_state [OF i v r1] s same_vols_trans [OF same] by (auto simp: since_def)
  show "Q x s'"
  proof (cases r1)
    case None
    then show ?thesis using r r1 s1 hoareD [OF assms(2)] by (auto simp: read_or_def act_bind_def)
  next
    case (Some bs)
    have "size_unknown (vols s ! v) = size_unknown (us ! v)" using sv unfolding same_volume_def by auto
    then have "read_result (us ! v) loc n bs"
      using read_bytes [OF i v] read_length [OF i v] read_range [OF v] r1 Some bytes_same [OF sv]
      by (auto simp: read_result_def)
    then show ?thesis using r r1 s1 Some hoareD [OF assms(3)] by (auto simp: read_or_def act_bind_def)
  qed
qed

text \<open>Looking at a volume: what is not its cache is as it was.\<close>

lemma hoare_since_vol:
  assumes "v < length us" and "\<And>vol. same_volume (us ! v) vol \<Longrightarrow> hoare (since us M) (k vol) Q"
  shows "hoare (since us M) (get_vol v k) Q"
proof (rule hoare_get_vol)
  fix vol
  show "hoare (\<lambda>s. since us M s \<and> vols s ! v = vol) (k vol) Q"
    using assms same_volsD(2) by (fastforce simp: hoare_def since_def)
qed

end

text \<open>The reads of the model are such reads, when the disk reads deliver the medium.\<close>

definition store_ok :: "disk_reader \<Rightarrow> arch \<Rightarrow> (nat \<Rightarrow> nat) \<Rightarrow> media \<Rightarrow> volume list \<Rightarrow> bool" where
  "store_ok reader arch blk medium vs \<longleftrightarrow>
     reads_medium reader arch blk medium \<and> (\<forall>vol\<in>set vs. vol_ok arch blk medium vol)"

lemma store_read_result:
  assumes "store_read reader arch v loc n s = Inr (r, s')"
  obtains vol where "volume_read reader arch (vols s ! v) loc n = Inr (r, vol)" "s' = s\<lparr>vols := (vols s)[v := vol]\<rparr>"
  using assms by (auto simp: store_read_def)

interpretation store: volume_store "store_read reader arch" "store_ok reader arch blk medium" "vol_bytes medium"
  for reader arch blk medium
proof
  fix s v loc n r s'
  assume ok: "store_ok reader arch blk medium (vols s)" and v: "v < length (vols s)" and r: "store_read reader arch v loc n s = Inr (r, s')"
  obtain vol where vol: "volume_read reader arch (vols s ! v) loc n = Inr (r, vol)" "s' = s\<lparr>vols := (vols s)[v := vol]\<rparr>"
    using store_read_result [OF r] .
  have "vol_ok arch blk medium (vols s ! v)" "reads_medium reader arch blk medium" using ok v by (simp_all add: store_ok_def)
  note k = volume_read_keeps [OF this(2,1) vol(1)]
  then have "store_ok reader arch blk medium ((vols s)[v := vol])"
    using ok set_update_subset_insert [of "vols s" v vol] by (auto simp: store_ok_def)
  then show "\<exists>vs. s' = s\<lparr>vols := vs\<rparr> \<and> store_ok reader arch blk medium vs \<and> same_vols (vols s) vs"
    using vol(2) k same_vols_update [OF v] by blast
next
  fix s v loc n bs s'
  assume ok: "store_ok reader arch blk medium (vols s)" and v: "v < length (vols s)" and r: "store_read reader arch v loc n s = Inr (Some bs, s')"
  obtain vol where vol: "volume_read reader arch (vols s ! v) loc n = Inr (Some bs, vol)" using store_read_result [OF r] by blast
  have "vol_ok arch blk medium (vols s ! v)" "reads_medium reader arch blk medium" using ok v by (simp_all add: store_ok_def)
  note k = volume_read_keeps [OF this(2,1) vol] volume_read_ok [OF this(2,1) _ vol]
  show "length bs = unat n" using k(1) by simp
  show "bs = vol_bytes medium (vols s ! v) (unat loc) (unat n)" if "unat loc + unat n \<le> 2 ^ 64" using k(2) that by simp
next
  fix s v loc n bs s'
  assume r: "store_read reader arch v loc n s = Inr (Some bs, s')" and known: "\<not> size_unknown (vols s ! v)"
  obtain vol where vol: "volume_read reader arch (vols s ! v) loc n = Inr (Some bs, vol)" using store_read_result [OF r] by blast
  then show "unat loc + unat n < 2 ^ 64"
    by (cases rule: volume_read_cases) (use known in simp_all)
qed (simp_all add: same_volumeD vol_bytes_add)

end
