(* ===== verification/Gpt.thy ===== *)
theory Gpt
  imports Part_Store
begin

text \<open>
  GUID partition tables, from \<^verbatim>\<open>common/lib/part.s2.c\<close>: the CRC, verifying a header and its
  entry array, finding the table of a volume, the memos of that search, and reading a
  partition. What the file system code returns for a new volume is a parameter.
\<close>

section \<open>The structures\<close>

definition sizeof_gpt_header :: nat where "sizeof_gpt_header = 92"
definition sizeof_gpt_entry :: nat where "sizeof_gpt_entry = 128"

definition gpt_header_bytes :: "gpt_table_header \<Rightarrow> u8 list" where
  "gpt_header_bytes h =
     signature h @ le_bytes 4 (revision h) @ le_bytes 4 (header_size h) @ le_bytes 4 (header_crc32 h) @
     le_bytes 4 (reserved0 h) @ le_bytes 8 (my_lba h) @ le_bytes 8 (alternate_lba h) @
     le_bytes 8 (first_usable_lba h) @ le_bytes 8 (last_usable_lba h) @ disk_guid h @
     le_bytes 8 (partition_entry_lba h) @ le_bytes 4 (number_of_partition_entries h) @
     le_bytes 4 (size_of_partition_entry h) @ le_bytes 4 (partition_entry_array_crc32 h)"

definition gpt_header_of :: "u8 list \<Rightarrow> gpt_table_header" where
  "gpt_header_of bs =
     \<lparr>signature = field bs 0 8, revision = le_word (field bs 8 4), header_size = le_word (field bs 12 4),
      header_crc32 = le_word (field bs 16 4), reserved0 = le_word (field bs 20 4), my_lba = le_word (field bs 24 8),
      alternate_lba = le_word (field bs 32 8), first_usable_lba = le_word (field bs 40 8),
      last_usable_lba = le_word (field bs 48 8), disk_guid = field bs 56 16,
      partition_entry_lba = le_word (field bs 72 8), number_of_partition_entries = le_word (field bs 80 4),
      size_of_partition_entry = le_word (field bs 84 4), partition_entry_array_crc32 = le_word (field bs 88 4)\<rparr>"

record gpt_entry =
  partition_type_guid :: "u8 list"
  unique_partition_guid :: "u8 list"
  starting_lba :: u64
  ending_lba :: u64
  attributes :: u64
  partition_name :: "u8 list"

definition gpt_entry_of :: "u8 list \<Rightarrow> gpt_entry" where
  "gpt_entry_of bs =
     \<lparr>partition_type_guid = field bs 0 16, unique_partition_guid = field bs 16 16,
      starting_lba = le_word (field bs 32 8), ending_lba = le_word (field bs 40 8),
      attributes = le_word (field bs 48 8), partition_name = field bs 56 72\<rparr>"

section \<open>The CRC\<close>

definition crc_bit :: "u32 \<Rightarrow> u32" where
  "crc_bit crc = (if and crc 1 \<noteq> 0 then xor (drop_bit 1 crc) 0xedb88320 else drop_bit 1 crc)"

definition crc_byte :: "u8 \<Rightarrow> u32 \<Rightarrow> u32" where
  "crc_byte b crc = (crc_bit ^^ 8) (xor crc (ucast b))"

definition crc32_update :: "u32 \<Rightarrow> u8 list \<Rightarrow> u32" where
  "crc32_update crc bs = fold crc_byte bs crc"

function crc32_volume_range :: "vreader \<Rightarrow> vid \<Rightarrow> u64 \<Rightarrow> u64 \<Rightarrow> u32 \<Rightarrow> u32 option act" where
  "crc32_volume_range vread v loc cnt crc =
     (if cnt = 0 then ret (Some crc)
      else
        let step = (if cnt < 512 then cnt else 512) in
        read_or vread v loc step (ret None) (\<lambda>chunk.
          crc32_volume_range vread v (loc + step) (cnt - step) (crc32_update crc chunk)))"
  by pat_completeness auto
termination
proof (relation "measure (\<lambda>(vread, v, loc, cnt, crc). unat cnt)", goal_cases)
  case (2 vread v loc cnt crc step chunk)
  then have "0 < unat cnt" by (simp only: unat_gt_0 simp_thms)
  moreover have "unat (cnt - step) = unat cnt - unat step" "0 < unat step"
    using 2 calculation by (auto simp: word_less_nat_alt unat_sub_exact)
  ultimately show ?case by simp
qed simp

declare crc32_volume_range.simps [simp del]

section \<open>Verifying a header\<close>

definition GPT_MAX_ARRAY_SIZE :: u64 where "GPT_MAX_ARRAY_SIZE = 1024 * 1024"

definition is_efi_part :: "gpt_table_header \<Rightarrow> bool" where
  "is_efi_part h \<longleftrightarrow> strncmp (signature h) (chars ''EFI PART'' @ [0]) 8 = Some 0"

text \<open>Where the entry array is and how long, if its place is acceptable.\<close>

definition gpt_array_range :: "volume \<Rightarrow> gpt_table_header \<Rightarrow> u64 \<Rightarrow> int \<Rightarrow> u64 \<Rightarrow> (u64 \<times> u64) option" where
  "gpt_array_range vol h header_lba lb_size budget =
     (let entry_size = size_of_partition_entry h in
      if entry_size < of_nat sizeof_gpt_entry \<or> and entry_size (entry_size - 1) \<noteq> 0 then None
      else case CHECKED_MUL (ucast (number_of_partition_entries h)) (ucast entry_size) of
        None \<Rightarrow> None
      | Some array_size \<Rightarrow>
          if array_size = 0 then None
          else if array_size > GPT_MAX_ARRAY_SIZE \<or> array_size > budget then None
          else
            let array_lba = partition_entry_lba h;
                array_blocks = (array_size + of_int lb_size - 1) div of_int lb_size
            in case CHECKED_ADD array_lba array_blocks of
              None \<Rightarrow> None
            | Some array_end \<Rightarrow>
                if first_usable_lba h > last_usable_lba h then None
                else if array_lba < first_usable_lba h \<and> array_end > first_usable_lba h then None
                else if \<not> array_lba < first_usable_lba h \<and>
                        (array_lba \<le> last_usable_lba h \<or> array_end > header_lba) then None
                else if \<not> size_unknown vol \<and> array_end > sect_count vol div of_int (lb_size div 512) then None
                else case CHECKED_MUL array_lba (of_int lb_size) of
                  None \<Rightarrow> None
                | Some array_loc \<Rightarrow> Some (array_loc, array_size))"

text \<open>The CRC of the header, the part in the structure and the rest of it on the disk.\<close>

definition gpt_header_crc :: "vreader \<Rightarrow> vid \<Rightarrow> gpt_table_header \<Rightarrow> u64 \<Rightarrow> u32 option act" where
  "gpt_header_crc vread v h header_loc =
     (let crc = crc32_update 0xffffffff (gpt_header_bytes (h\<lparr>header_crc32 := 0\<rparr>)) in
      if header_size h > of_nat sizeof_gpt_header then
        (case CHECKED_ADD header_loc (of_nat sizeof_gpt_header) of
           None \<Rightarrow> ret None
         | Some tail \<Rightarrow> crc32_volume_range vread v tail (ucast (header_size h) - of_nat sizeof_gpt_header) crc)
      else ret (Some crc))"

text \<open>The result is whether it verified, and the budget that is left.\<close>

definition gpt_verify_header :: "vreader \<Rightarrow> vid \<Rightarrow> gpt_table_header \<Rightarrow> u64 \<Rightarrow> int \<Rightarrow> u64 \<Rightarrow> (bool \<times> u64) act" where
  "gpt_verify_header vread v h header_lba lb_size budget =
     (if \<not> is_efi_part h then ret (False, budget)
      else if revision h \<noteq> 0x00010000 then ret (False, budget)
      else if header_size h < of_nat sizeof_gpt_header \<or> (ucast (header_size h) :: u64) > of_int lb_size then ret (False, budget)
      else if my_lba h \<noteq> header_lba then ret (False, budget)
      else case CHECKED_MUL header_lba (of_int lb_size) of
        None \<Rightarrow> ret (False, budget)
      | Some header_loc \<Rightarrow>
          act_bind (gpt_header_crc vread v h header_loc) (\<lambda>crc.
            if crc = None \<or> not (the crc) \<noteq> header_crc32 h then ret (False, budget)
            else get_vol v (\<lambda>vol.
              case gpt_array_range vol h header_lba lb_size budget of
                None \<Rightarrow> ret (False, budget)
              | Some (array_loc, array_size) \<Rightarrow>
                  act_bind (crc32_volume_range vread v array_loc array_size 0xffffffff) (\<lambda>crc.
                    ret (crc \<noteq> None \<and> not (the crc) = partition_entry_array_crc32 h, budget - array_size)))))"

section \<open>The memos\<close>

definition gpt_memo_none_hit :: "vreader \<Rightarrow> vid \<Rightarrow> bool act" where
  "gpt_memo_none_hit vread v = get_state (\<lambda>s.
     if gpt_memo_none_volume s \<noteq> Some v then ret False
     else read_or vread v 512 (of_nat sizeof_gpt_header) (ret (\<not> gpt_memo_none_readable s)) (\<lambda>bs.
       ret (gpt_memo_none_readable s \<and> gpt_header_of bs = gpt_memo_none_block s)))"

definition gpt_memo_none_store :: "vreader \<Rightarrow> vid \<Rightarrow> unit act" where
  "gpt_memo_none_store vread v =
     act_bind (change (\<lambda>s. s\<lparr>gpt_memo_none_volume := Some v\<rparr>)) (\<lambda>_.
     read_or vread v 512 (of_nat sizeof_gpt_header)
       (change (\<lambda>s. s\<lparr>gpt_memo_none_readable := False\<rparr>))
       (\<lambda>bs. change (\<lambda>s. s\<lparr>gpt_memo_none_block := gpt_header_of bs, gpt_memo_none_readable := True\<rparr>)))"

definition gpt_memo_hit :: "vreader \<Rightarrow> vid \<Rightarrow> (gpt_table_header \<times> int) option act" where
  "gpt_memo_hit vread v = get_state (\<lambda>s.
     if gpt_memo_volume s \<noteq> Some v then ret None
     else case CHECKED_MUL (gpt_memo_lba s) (of_int (gpt_memo_lb_size s)) of
       None \<Rightarrow> ret None
     | Some loc \<Rightarrow>
         read_or vread v loc (of_nat sizeof_gpt_header) (ret None) (\<lambda>bs.
           if gpt_header_of bs \<noteq> gpt_memo_header s then ret None
           else ret (Some (gpt_memo_header s, gpt_memo_lb_size s))))"

definition gpt_memo_store :: "vid \<Rightarrow> gpt_table_header \<Rightarrow> u64 \<Rightarrow> int \<Rightarrow> unit act" where
  "gpt_memo_store v h header_lba lb_size = change (\<lambda>s.
     s\<lparr>gpt_memo_volume := Some v, gpt_memo_header := h, gpt_memo_lba := header_lba, gpt_memo_lb_size := lb_size\<rparr>)"

section \<open>Finding the table\<close>

fun protective_loop :: "vreader \<Rightarrow> vid \<Rightarrow> nat list \<Rightarrow> bool act" where
  "protective_loop vread v [] = ret False"
| "protective_loop vread v (i # is) =
     read_or vread v (of_nat (0x1be + 16 * i + 4)) 1 (ret False) (\<lambda>bs.
       if hd bs = 0xee then ret True else protective_loop vread v is)"

definition gpt_protective_mbr :: "vreader \<Rightarrow> vid \<Rightarrow> bool act" where
  "gpt_protective_mbr vread v = protective_loop vread v [0..<4]"

definition lb_guesses :: "int list" where
  "lb_guesses = [512, 2048, 4096]"

text \<open>The blocks tried after the primary: the last block of the volume, then the one the primary names.\<close>

definition gpt_candidates :: "volume \<Rightarrow> int \<Rightarrow> u64 list \<Rightarrow> u64 list" where
  "gpt_candidates vol guess claimed =
     (if \<not> size_unknown vol \<and> guess \<ge> 512 then
        let blocks = sect_count vol div of_int (guess div 512) in
        if blocks \<ge> 2 then (blocks - 1) # (if claimed \<noteq> [] \<and> hd claimed = blocks - 1 then [] else claimed)
        else claimed
      else claimed)"

fun try_candidates :: "vreader \<Rightarrow> vid \<Rightarrow> int \<Rightarrow> u64 list \<Rightarrow> u64 \<Rightarrow> (gpt_table_header option \<times> u64) act" where
  "try_candidates vread v guess [] budget = ret (None, budget)"
| "try_candidates vread v guess (c # cs) budget =
     (case CHECKED_MUL c (of_int guess) of
        None \<Rightarrow> try_candidates vread v guess cs budget
      | Some loc \<Rightarrow>
          read_or vread v loc (of_nat sizeof_gpt_header) (try_candidates vread v guess cs budget) (\<lambda>bs.
            let h = gpt_header_of bs in
            act_bind (gpt_verify_header vread v h c guess budget) (\<lambda>(ok, budget).
              if ok then act_bind (gpt_memo_store v h c guess) (\<lambda>_. ret (Some h, budget))
              else try_candidates vread v guess cs budget)))"

text \<open>The primary: the header if it verifies, otherwise the alternate block it claims.\<close>

definition try_primary :: "vreader \<Rightarrow> vid \<Rightarrow> int \<Rightarrow> u64 \<Rightarrow> (gpt_table_header option \<times> u64 list \<times> u64) act" where
  "try_primary vread v guess budget =
     read_or vread v (of_int guess * 1) (of_nat sizeof_gpt_header) (ret (None, [], budget)) (\<lambda>bs.
       let h = gpt_header_of bs in
       act_bind (gpt_verify_header vread v h 1 guess budget) (\<lambda>(ok, budget).
         if ok then act_bind (gpt_memo_store v h 1 guess) (\<lambda>_. ret (Some h, [], budget))
         else ret (None, if is_efi_part h \<and> alternate_lba h > 1 then [alternate_lba h] else [], budget)))"

fun locate_loop :: "vreader \<Rightarrow> vid \<Rightarrow> int list \<Rightarrow> u64 \<Rightarrow> (gpt_table_header \<times> int) option act" where
  "locate_loop vread v [] budget = act_bind (gpt_memo_none_store vread v) (\<lambda>_. ret None)"
| "locate_loop vread v (guess # gs) budget =
     act_bind (try_primary vread v guess budget) (\<lambda>(found, claimed, budget).
       case found of
         Some h \<Rightarrow> ret (Some (h, guess))
       | None \<Rightarrow> get_vol v (\<lambda>vol.
           act_bind (try_candidates vread v guess (gpt_candidates vol guess claimed) budget) (\<lambda>(found, budget).
             case found of
               Some h \<Rightarrow> ret (Some (h, guess))
             | None \<Rightarrow> locate_loop vread v gs budget)))"

definition gpt_locate_header :: "vreader \<Rightarrow> vid \<Rightarrow> (gpt_table_header \<times> int) option act" where
  "gpt_locate_header vread v =
     act_bind (gpt_memo_hit vread v) (\<lambda>memo.
       if memo \<noteq> None then ret memo
       else act_bind (gpt_memo_none_hit vread v) (\<lambda>none.
         if none then ret None
         else act_bind (gpt_protective_mbr vread v) (\<lambda>protective.
           if \<not> protective then ret None
           else locate_loop vread v lb_guesses (GPT_MAX_ARRAY_SIZE * 2))))"

definition gpt_get_guid :: "vreader \<Rightarrow> vid \<Rightarrow> u8 list option act" where
  "gpt_get_guid vread v = act_bind (gpt_locate_header vread v) (\<lambda>r.
     ret (map_option (\<lambda>(h, lb_size). disk_guid h) r))"

section \<open>Reading a partition\<close>

datatype part_status = Part_Found | NO_PARTITION | INVALID_TABLE | END_OF_TABLE

definition MAX_GPT_PARTITIONS :: u32 where "MAX_GPT_PARTITIONS = 256"

definition partition_range_valid :: "volume \<Rightarrow> u64 \<Rightarrow> u64 \<Rightarrow> bool" where
  "partition_range_valid vol first cnt =
     (if cnt = 0 then False
      else case CHECKED_ADD first cnt of
        None \<Rightarrow> False
      | Some end_sect \<Rightarrow> \<not> (\<not> size_unknown vol \<and> end_sect > sect_count vol))"

text \<open>
  The file systems are asked for the GUID and the label of a new volume. None of them has a GUID;
  the FAT and the ISO 9660 driver look for a label.
\<close>

record fs_ops =
  fat32_label :: "volume \<Rightarrow> (cptr option \<times> volume) res"
  iso9660_label :: "volume \<Rightarrow> (cptr option \<times> volume) res"

definition fs_get_guid :: "volume \<Rightarrow> u8 list option" where
  "fs_get_guid vol = None"

definition fs_get_label :: "fs_ops \<Rightarrow> volume \<Rightarrow> (cptr option \<times> volume) res" where
  "fs_get_label fs vol =
     res_bind (fat32_label fs vol) (\<lambda>(l, vol).
       if l \<noteq> None then Inr (l, vol) else iso9660_label fs vol)"

definition probe_fs :: "fs_ops \<Rightarrow> volume \<Rightarrow> volume act" where
  "probe_fs fs vol s =
     (let vol = (case fs_get_guid vol of
                   None \<Rightarrow> vol\<lparr>guid_valid := False\<rparr>
                 | Some g \<Rightarrow> vol\<lparr>guid_valid := True, vol_guid := g\<rparr>)
      in res_bind (fs_get_label fs vol) (\<lambda>(l, vol).
        let vol = (case l of None \<Rightarrow> vol\<lparr>fslabel_valid := False\<rparr> | Some l \<Rightarrow> vol\<lparr>fslabel_valid := True, fslabel := l\<rparr>)
        in Inr (vol, s)))"

text \<open>The sectors of an entry, in units of 512 bytes.\<close>

definition gpt_entry_range :: "gpt_entry \<Rightarrow> int \<Rightarrow> (u64 \<times> u64) option" where
  "gpt_entry_range e lb_size =
     (if ending_lba e < starting_lba e then None
      else
        let sect_multiplier = of_int (lb_size div 512) in
        case CHECKED_MUL (starting_lba e) sect_multiplier of
          None \<Rightarrow> None
        | Some first_sect_result \<Rightarrow>
            let partition_size = ending_lba e - starting_lba e in
            if partition_size = - 1 then None
            else case CHECKED_MUL (partition_size + 1) sect_multiplier of
              None \<Rightarrow> None
            | Some sect_count_result \<Rightarrow> Some (first_sect_result, sect_count_result))"

text \<open>The volume of a partition takes its device from the one the table is on.\<close>

definition part_volume :: "volume \<Rightarrow> volume \<Rightarrow> int \<Rightarrow> u64 \<Rightarrow> u64 \<Rightarrow> vid option \<Rightarrow> volume" where
  "part_volume r vol number first cnt back =
     r\<lparr>device := device vol, fastest_xfer_size := fastest_xfer_size vol, vol_index := vol_index vol,
       is_optical := is_optical vol, vol_partition := number, sector_size := sector_size vol,
       first_sect := first, sect_count := cnt, backing_dev := back\<rparr>"

definition gpt_get_part :: "vreader \<Rightarrow> fs_ops \<Rightarrow> volume \<Rightarrow> vid \<Rightarrow> int \<Rightarrow> (part_status \<times> volume) act" where
  "gpt_get_part vread fs r v part =
     act_bind (gpt_locate_header vread v) (\<lambda>found.
       case found of
         None \<Rightarrow> ret (INVALID_TABLE, r)
       | Some (h, lb_size) \<Rightarrow>
           let entry_count = (if number_of_partition_entries h > MAX_GPT_PARTITIONS then MAX_GPT_PARTITIONS
                              else number_of_partition_entries h);
               entry_size = size_of_partition_entry h
           in if of_int part \<ge> entry_count then ret (END_OF_TABLE, r)
              else if entry_size < of_nat sizeof_gpt_entry then ret (INVALID_TABLE, r)
              else case CHECKED_MUL (partition_entry_lba h) (of_int lb_size) of
                None \<Rightarrow> ret (INVALID_TABLE, r)
              | Some table \<Rightarrow>
                  case CHECKED_ADD table (of_int part * ucast entry_size) of
                    None \<Rightarrow> ret (INVALID_TABLE, r)
                  | Some entry_offset \<Rightarrow>
                      read_or vread v entry_offset (of_nat sizeof_gpt_entry) (ret (END_OF_TABLE, r)) (\<lambda>bs.
                        let e = gpt_entry_of bs in
                        if partition_type_guid e = replicate 16 0 then ret (NO_PARTITION, r)
                        else case gpt_entry_range e lb_size of
                          None \<Rightarrow> ret (NO_PARTITION, r)
                        | Some (first, cnt) \<Rightarrow> get_vol v (\<lambda>vol.
                            if \<not> partition_range_valid vol first cnt then ret (NO_PARTITION, r)
                            else act_bind (probe_fs fs (part_volume r vol (part + 1) first cnt (Some v))) (\<lambda>r.
                              ret (Part_Found,
                                r\<lparr>part_guid_valid := True, part_guid := unique_partition_guid e,
                                  part_type_guid_valid := True, part_type_guid := partition_type_guid e\<rparr>)))))"

section \<open>The structure and its bytes\<close>

lemma field_join: "b = a + n \<Longrightarrow> field bs a n @ field bs b m = field bs a (n + m)"
  by (simp add: field_def take_add) (simp add: add.commute)

lemma gpt_header_roundtrip:
  assumes "length bs = 92"
  shows "gpt_header_bytes (gpt_header_of bs) = bs"
proof -
  have f: "le_bytes n (le_word (field bs a n) :: 'a::len word) = field bs a n" if "a + n \<le> 92" "8 * n \<le> LENGTH('a)" for a n
    using that assms by (intro le_bytes_le_word) simp_all
  show ?thesis
    unfolding gpt_header_bytes_def gpt_header_of_def using assms
    by (simp add: f field_join field_all)
qed

lemma gpt_header_inj: "length bs = 92 \<Longrightarrow> length cs = 92 \<Longrightarrow> gpt_header_of bs = gpt_header_of cs \<longleftrightarrow> bs = cs"
  using gpt_header_roundtrip by metis

lemma is_efi_part_eq: "length (signature h) = 8 \<Longrightarrow> is_efi_part h \<longleftrightarrow> signature h = chars ''EFI PART''"
proof -
  have "length p = length q \<Longrightarrow> 0 \<notin> set q \<Longrightarrow> strncmp p (q @ [0]) (length p) = Some 0 \<longleftrightarrow> p = q" for p q
    by (induction p q rule: list_induct2) auto
  from this [of "signature h" "chars ''EFI PART''"] show "length (signature h) = 8 \<Longrightarrow> ?thesis"
    by (simp add: is_efi_part_def)
qed

section \<open>The CRC is the one of the specification\<close>

text \<open>
  The CRC as the shift register that defines it, fed bit by bit with each byte's least
  significant bit first.
\<close>

definition crc_shift :: "bool \<Rightarrow> u32 \<Rightarrow> u32" where
  "crc_shift b crc = (if bit crc 0 \<noteq> b then xor (drop_bit 1 crc) 0xedb88320 else drop_bit 1 crc)"

definition byte_bits :: "u8 \<Rightarrow> bool list" where
  "byte_bits b = map (bit b) [0..<8]"

definition crc_serial :: "u32 \<Rightarrow> bool list \<Rightarrow> u32" where
  "crc_serial crc bs = fold crc_shift bs crc"

lemma crc_bit_low: "crc_bit crc = (if bit crc 0 then xor (drop_bit 1 crc) 0xedb88320 else drop_bit 1 crc)"
  by (auto simp: crc_bit_def and_one_eq bit_0 even_iff_mod_2_eq_zero)

lemma crc_bit_shift:
  fixes w :: u32
  shows "crc_bit (xor c w) = xor (crc_shift (bit w 0) c) (drop_bit 1 w)"
proof -
  have "drop_bit 1 (xor c w) = xor (drop_bit 1 c) (drop_bit 1 w)" by (rule bit_word_eqI) (simp add: bit_simps)
  then show ?thesis by (auto simp: crc_bit_low crc_shift_def bit_xor_iff xor.assoc xor.commute xor.left_commute)
qed

lemma crc_bits_serial:
  "(crc_bit ^^ n) (xor c (ucast b)) = xor (crc_serial c (map (bit b) [0..<n])) (drop_bit n (ucast (b::u8)))"
proof (induction n)
  case (Suc n)
  have "bit (drop_bit n (ucast b :: u32)) 0 = bit b n" by (auto simp: bit_simps dest: bit_imp_le_length)
  then show ?case using Suc by (simp add: crc_bit_shift crc_serial_def)
qed (simp add: crc_serial_def)

lemma crc_byte_serial: "crc_byte b c = crc_serial c (byte_bits b)"
proof -
  have "drop_bit 8 (ucast b :: u32) = 0" by (rule bit_word_eqI) (auto simp: bit_simps dest: bit_imp_le_length)
  then show ?thesis using crc_bits_serial [of 8 c b] unfolding crc_byte_def byte_bits_def by (simp only: xor.right_neutral)
qed

lemma crc32_append: "crc32_update c (xs @ ys) = crc32_update (crc32_update c xs) ys"
  by (simp add: crc32_update_def)

text \<open>
  C31. The CRC routine, which folds a byte into the register and shifts it eight times, computes
  the CRC-32 of UEFI: the shift register with the reflected polynomial, fed with every bit of
  the data in turn.
\<close>

theorem crc32_is_serial: "crc32_update c bs = crc_serial c (concat (map byte_bits bs))"
  by (induction bs arbitrary: c) (simp_all add: crc32_update_def crc_byte_serial crc_serial_def)

text \<open>The check value of CRC-32, the CRC of the digits from 1 to 9.\<close>

lemma crc_bit8: "(crc_bit ^^ 8) x = crc_bit (crc_bit (crc_bit (crc_bit (crc_bit (crc_bit (crc_bit (crc_bit x)))))))"
  by (simp add: eval_nat_numeral)

lemma crc32_check: "not (crc32_update 0xffffffff (chars ''123456789'')) = 0xcbf43926"
  by (simp add: crc32_update_def crc_byte_def crc_bit8) (simp add: crc_bit_def)

section \<open>What a verified table is\<close>

text \<open>
  The checks UEFI requires before a GPT is used, on the bytes of the volume: the signature and
  revision, the header's own CRC over its declared size with the CRC field cleared, that it is
  the header of the block it was read from, and the CRC of the entry array, which is placed
  outside the usable blocks and inside the volume.
\<close>

definition gpt_valid :: "(nat \<Rightarrow> nat \<Rightarrow> u8 list) \<Rightarrow> volume \<Rightarrow> gpt_table_header \<Rightarrow> nat \<Rightarrow> nat \<Rightarrow> bool" where
  "gpt_valid content vol h lba lb \<longleftrightarrow>
     h = gpt_header_of (content (lba * lb) 92) \<and>
     signature h = chars ''EFI PART'' \<and> revision h = 0x00010000 \<and> unat (my_lba h) = lba \<and>
     92 \<le> unat (header_size h) \<and> unat (header_size h) \<le> lb \<and>
     header_crc32 h = not (crc32_update 0xffffffff
       (gpt_header_bytes (h\<lparr>header_crc32 := 0\<rparr>) @ content (lba * lb + 92) (unat (header_size h) - 92))) \<and>
     (let n = unat (number_of_partition_entries h) * unat (size_of_partition_entry h);
          start = unat (partition_entry_lba h);
          stop = start + (n + lb - 1) div lb
      in 128 \<le> unat (size_of_partition_entry h) \<and> 0 < n \<and> n \<le> 2 ^ 20 \<and>
         first_usable_lba h \<le> last_usable_lba h \<and>
         (stop \<le> unat (first_usable_lba h) \<or> unat (last_usable_lba h) < start \<and> stop \<le> lba) \<and>
         stop * (lb div 512) \<le> unat (sect_count vol) \<and>
         partition_entry_array_crc32 h = not (crc32_update 0xffffffff (content (start * lb) n)))"

lemma unat_u32_u64: "unat (ucast (x::u32) :: u64) = unat x"
  using unat_bound [of x] by (simp add: unsigned_ucast_eq take_bit_nat_eq_self)

text \<open>The block sizes that are tried.\<close>

definition lb_ok :: "int \<Rightarrow> bool" where
  "lb_ok lb \<longleftrightarrow> lb \<in> set lb_guesses"

lemma lb_okD:
  assumes "lb_ok lb"
  shows "512 \<le> nat lb" and "nat lb \<le> 4096" and "unat (of_int lb :: u64) = nat lb" and "512 dvd nat lb"
    and "unat (of_int (lb div 512) :: u64) = nat lb div 512"
  using assms by (auto simp: lb_ok_def lb_guesses_def)

lemma array_range_ok:
  assumes "gpt_array_range vol h lba lb budget = Some (loc, n)" and "lb_ok lb" and "\<not> size_unknown vol"
  defines "start \<equiv> unat (partition_entry_lba h)"
  shows "unat n = unat (number_of_partition_entries h) * unat (size_of_partition_entry h)"
    and "unat loc = start * nat lb" and "128 \<le> unat (size_of_partition_entry h)" and "0 < unat n" and "unat n \<le> 2 ^ 20"
    and "first_usable_lba h \<le> last_usable_lba h"
    and "start + (unat n + nat lb - 1) div nat lb \<le> unat (first_usable_lba h) \<or>
      unat (last_usable_lba h) < start \<and> start + (unat n + nat lb - 1) div nat lb \<le> unat lba"
    and "(start + (unat n + nat lb - 1) div nat lb) * (nat lb div 512) \<le> unat (sect_count vol)"
proof -
  note L = lb_okD [OF assms(2)]
  let ?blocks = "(n + of_int lb - 1) div of_int lb :: u64"
  obtain stop where mul: "CHECKED_MUL (ucast (number_of_partition_entries h)) (ucast (size_of_partition_entry h)) = Some n"
    and size: "\<not> size_of_partition_entry h < of_nat sizeof_gpt_entry" "n \<noteq> 0" "\<not> n > GPT_MAX_ARRAY_SIZE"
    and stop: "CHECKED_ADD (partition_entry_lba h) ?blocks = Some stop"
    and usable: "\<not> first_usable_lba h > last_usable_lba h"
      "\<not> (partition_entry_lba h < first_usable_lba h \<and> stop > first_usable_lba h)"
      "\<not> (\<not> partition_entry_lba h < first_usable_lba h \<and> (partition_entry_lba h \<le> last_usable_lba h \<or> stop > lba))"
      "\<not> stop > sect_count vol div of_int (lb div 512)"
    and loc: "CHECKED_MUL (partition_entry_lba h) (of_int lb) = Some loc"
    using assms(1,3) unfolding gpt_array_range_def Let_def by (auto split: if_splits option.splits)
  show n: "unat n = unat (number_of_partition_entries h) * unat (size_of_partition_entry h)"
    using CHECKED_MUL_unat [OF mul] by (simp add: unat_u32_u64)
  show "unat loc = start * nat lb" using CHECKED_MUL_unat [OF loc] L(3) by (simp add: start_def)
  show "128 \<le> unat (size_of_partition_entry h)" using size(1) by (simp add: sizeof_gpt_entry_def word_less_nat_alt)
  show "0 < unat n" using size(2) by (simp only: unat_gt_0 simp_thms)
  show max: "unat n \<le> 2 ^ 20" using size(3) by (simp add: GPT_MAX_ARRAY_SIZE_def word_less_nat_alt)
  show "first_usable_lba h \<le> last_usable_lba h" using usable(1) by simp
  have "unat (n + of_int lb) = unat n + nat lb" using max L(2,3) by (simp add: unat_add_exact)
  then have "unat (n + of_int lb - 1) = unat n + nat lb - 1" using L(1) unat_sub_exact [of 1 "n + of_int lb"] by simp
  then have blocks: "unat ?blocks = (unat n + nat lb - 1) div nat lb" using L(3) by (simp add: unat_div)
  have e: "unat stop = start + (unat n + nat lb - 1) div nat lb" using CHECKED_ADD_unat [OF stop] blocks by (simp add: start_def)
  show "start + (unat n + nat lb - 1) div nat lb \<le> unat (first_usable_lba h) \<or>
      unat (last_usable_lba h) < start \<and> start + (unat n + nat lb - 1) div nat lb \<le> unat lba"
    using usable(2,3) unfolding e [symmetric] unfolding start_def by (auto simp: word_less_nat_alt word_le_nat_alt)
  have "unat stop \<le> unat (sect_count vol) div (nat lb div 512)"
    using usable(4) L(5) by (simp add: word_less_nat_alt unat_div)
  then show "(start + (unat n + nat lb - 1) div nat lb) * (nat lb div 512) \<le> unat (sect_count vol)"
    unfolding e [symmetric] using L(1) by (metis div_times_less_eq_dividend le_trans mult_le_mono1)
qed

section \<open>The search finds verified tables\<close>

text \<open>A memo is of a table that was verified, and the volume has not changed since.\<close>

definition memo_ok :: "(volume \<Rightarrow> nat \<Rightarrow> nat \<Rightarrow> u8 list) \<Rightarrow> volume list \<Rightarrow> memo \<Rightarrow> bool" where
  "memo_ok bytes us M \<longleftrightarrow>
     (case M of (None, _) \<Rightarrow> True
      | (Some v, h, lba, lb) \<Rightarrow> v < length us \<and> lb_ok lb \<and>
          (\<not> size_unknown (us ! v) \<longrightarrow> gpt_valid (bytes (us ! v)) (us ! v) h (unat lba) (nat lb)))"

lemma gpt_valid_same: "same_volume x y \<Longrightarrow> gpt_valid content y = gpt_valid content x"
  unfolding same_volume_def gpt_valid_def by (auto simp: fun_eq_iff)

lemma array_range_same: "same_volume x y \<Longrightarrow> gpt_array_range y = gpt_array_range x"
  unfolding same_volume_def gpt_array_range_def by (auto simp: fun_eq_iff cong: option.case_cong if_cong)

context volume_store
begin

text \<open>The condition under which a range of a volume does not wrap.\<close>

definition no_wrap :: "volume \<Rightarrow> u64 \<Rightarrow> u64 \<Rightarrow> bool" where
  "no_wrap vol loc n \<longleftrightarrow> (size_unknown vol \<longrightarrow> unat loc + unat n \<le> 2 ^ 64)"

definition crc_result :: "volume \<Rightarrow> u64 \<Rightarrow> u64 \<Rightarrow> u32 \<Rightarrow> u32 option \<Rightarrow> bool" where
  "crc_result vol loc n crc r \<longleftrightarrow>
     (\<forall>c. r = Some c \<and> no_wrap vol loc n \<longrightarrow> c = crc32_update crc (bytes vol (unat loc) (unat n)))"

lemma crc_result_step:
  assumes "read_result vol loc step bs" and "crc_result vol (loc + step) (n - step) (crc32_update crc bs) r"
    and "unat step \<le> unat n"
  shows "crc_result vol loc n crc r"
  unfolding crc_result_def
proof (intro allI impI)
  fix c assume c: "r = Some c \<and> no_wrap vol loc n"
  have rest: "unat (n - step) = unat n - unat step" using assms(3) by (simp add: unat_sub_exact)
  have "unat (loc + step) \<le> unat loc + unat step" by (simp add: unat_word_ariths)
  then have "no_wrap vol (loc + step) (n - step)" using c rest assms(3) by (auto simp: no_wrap_def)
  then have e: "c = crc32_update (crc32_update crc bs) (bytes vol (unat (loc + step)) (unat n - unat step))"
    using assms(2) c rest by (simp add: crc_result_def)
  have le: "unat loc + unat step \<le> 2 ^ 64" using assms c by (auto simp: read_result_def no_wrap_def)
  then have bs: "bs = bytes vol (unat loc) (unat step)" using assms(1) by (simp add: read_result_def)
  have "bytes vol (unat (loc + step)) (unat n - unat step) = bytes vol (unat loc + unat step) (unat n - unat step)"
  proof (cases "unat loc + unat step = 2 ^ 64")
    case True
    then have "size_unknown vol" using assms(1) by (auto simp: read_result_def)
    then have "unat n - unat step = 0" using c True by (simp add: no_wrap_def)
    then show ?thesis by (simp add: bytes_0)
  next
    case False
    then show ?thesis using le by (simp add: unat_add_exact)
  qed
  then show "c = crc32_update crc (bytes vol (unat loc) (unat n))"
    using e bytes_append [of vol "unat loc" "unat step" "unat n - unat step"] assms(3) bs
    by (simp add: crc32_append [symmetric])
qed

lemma hoare_crc_range:
  assumes "v < length us"
  shows "hoare (since us M) (crc32_volume_range vread v loc n crc) (\<lambda>r s. since us M s \<and> crc_result (us ! v) loc n crc r)"
proof (induction "unat n" arbitrary: loc n crc rule: less_induct)
  case less
  show ?case
  proof (cases "n = 0")
    case True
    then show ?thesis
      by (subst crc32_volume_range.simps) (auto intro!: hoare_ret simp: crc32_update_def bytes_0 crc_result_def)
  next
    case False
    define step where "step = (if n < 512 then n else 512)"
    have "0 < unat n" using False by (simp only: unat_gt_0 simp_thms)
    then have st: "0 < unat step" "unat step \<le> unat n" by (auto simp: step_def word_less_nat_alt)
    then have lt: "unat (n - step) < unat n" by (simp add: unat_sub_exact)
    have "hoare (since us M) (read_or vread v loc step (ret None)
        (\<lambda>chunk. crc32_volume_range vread v (loc + step) (n - step) (crc32_update crc chunk)))
      (\<lambda>r s. since us M s \<and> crc_result (us ! v) loc n crc r)"
    proof (rule hoare_read [OF assms])
      fix bs assume r: "read_result (us ! v) loc step bs"
      show "hoare (since us M) (crc32_volume_range vread v (loc + step) (n - step) (crc32_update crc bs))
        (\<lambda>r s. since us M s \<and> crc_result (us ! v) loc n crc r)"
        using crc_result_step [OF r _ st(2)] by (intro hoare_post [OF less.hyps [OF lt]]) blast
    qed (auto intro: hoare_ret simp: crc_result_def)
    then show ?thesis using False by (subst crc32_volume_range.simps) (simp add: step_def Let_def)
  qed
qed

lemma hoare_header_crc:
  assumes "v < length us" and "92 \<le> unat (header_size h)" and "\<not> size_unknown (us ! v)"
    and "unat loc + 92 < 2 ^ 64"
  shows "hoare (since us M) (gpt_header_crc vread v h loc) (\<lambda>r s. since us M s \<and>
    (\<forall>c. r = Some c \<longrightarrow> c = crc32_update 0xffffffff
       (gpt_header_bytes (h\<lparr>header_crc32 := 0\<rparr>) @ bytes (us ! v) (unat loc + 92) (unat (header_size h) - 92))))"
proof (cases "header_size h > of_nat sizeof_gpt_header")
  case True
  let ?tail = "loc + 92" and ?n = "ucast (header_size h) - 92 :: u64"
  let ?crc = "crc32_update 0xffffffff (gpt_header_bytes (h\<lparr>header_crc32 := 0\<rparr>))"
  have t: "CHECKED_ADD loc 92 = Some ?tail" "unat ?tail = unat loc + 92"
    using assms(4) by (simp_all add: CHECKED_ADD_def unat_add_exact)
  have n: "unat ?n = unat (header_size h) - 92" using assms(2) by (simp add: unat_sub_exact unat_u32_u64)
  show ?thesis
    using hoare_crc_range [OF assms(1), of M ?tail ?n ?crc] True t n assms(3)
    by (auto simp: gpt_header_crc_def Let_def sizeof_gpt_header_def crc32_append crc_result_def no_wrap_def elim!: hoare_post)
next
  case False
  then have "unat (header_size h) - 92 = 0" by (simp add: sizeof_gpt_header_def word_less_nat_alt)
  then show ?thesis using False by (auto simp: gpt_header_crc_def Let_def bytes_0 intro!: hoare_ret)
qed

lemma hoare_crc_range_since:
  "v < length us \<Longrightarrow> hoare (since us M) (crc32_volume_range vread v loc n crc) (\<lambda>r. since us M)"
  by (rule hoare_post [OF hoare_crc_range]) simp_all

lemma hoare_header_crc_since:
  "v < length us \<Longrightarrow> hoare (since us M) (gpt_header_crc vread v h loc) (\<lambda>r. since us M)"
  unfolding gpt_header_crc_def Let_def
  by (intro hoare_if hoare_option hoare_ret hoare_crc_range_since)

text \<open>A header that verifies is one of a valid table.\<close>

definition verified :: "volume \<Rightarrow> gpt_table_header \<Rightarrow> u64 \<Rightarrow> int \<Rightarrow> bool" where
  "verified vol h lba lb \<longleftrightarrow>
     (\<not> size_unknown vol \<longrightarrow> h = gpt_header_of (bytes vol (unat lba * nat lb) 92) \<longrightarrow>
        gpt_valid (bytes vol) vol h (unat lba) (nat lb))"

lemma verifiedI:
  assumes "lb_ok lb" and "is_efi_part h" and "revision h = 0x00010000" and "\<not> header_size h < of_nat sizeof_gpt_header"
    and "\<not> (ucast (header_size h) :: u64) > of_int lb" and "my_lba h = lba" and "CHECKED_MUL lba (of_int lb) = Some loc"
    and "not (crc32_update 0xffffffff (gpt_header_bytes (h\<lparr>header_crc32 := 0\<rparr>) @
        bytes vol (unat loc + 92) (unat (header_size h) - 92))) = header_crc32 h"
    and "gpt_array_range vol h lba lb budget = Some (array_loc, n)"
    and "not (crc32_update 0xffffffff (bytes vol (unat array_loc) (unat n))) = partition_entry_array_crc32 h"
    and "\<not> size_unknown vol" and "h = gpt_header_of (bytes vol (unat lba * nat lb) 92)"
  shows "gpt_valid (bytes vol) vol h (unat lba) (nat lb)"
proof -
  note L = lb_okD [OF assms(1)]
  note A = array_range_ok [OF assms(9,1,11)]
  have "length (signature h) = 8" by (subst assms(12)) (simp add: gpt_header_of_def bytes_length)
  then have sig: "signature h = chars ''EFI PART''" using assms(2) is_efi_part_eq by blast
  have size: "92 \<le> unat (header_size h)" "unat (header_size h) \<le> nat lb"
    using assms(4,5) L(3) by (simp_all add: sizeof_gpt_header_def word_less_nat_alt unat_u32_u64)
  have loc: "unat loc = unat lba * nat lb" using CHECKED_MUL_unat [OF assms(7)] L(3) by simp
  show ?thesis
    unfolding gpt_valid_def Let_def A(1) [symmetric]
    using assms(3,6,8,10,12) sig size loc A(2-8) by simp
qed

definition header_crc_ok :: "volume \<Rightarrow> gpt_table_header \<Rightarrow> u64 \<Rightarrow> u32 option \<Rightarrow> bool" where
  "header_crc_ok vol h loc crc \<longleftrightarrow>
     (\<forall>c. crc = Some c \<and> \<not> size_unknown vol \<longrightarrow> c = crc32_update 0xffffffff
       (gpt_header_bytes (h\<lparr>header_crc32 := 0\<rparr>) @ bytes vol (unat loc + 92) (unat (header_size h) - 92)))"

lemma hoare_header_crc_ok:
  assumes "v < length us" and "lb_ok lb" and "CHECKED_MUL lba (of_int lb) = Some loc" and "92 \<le> unat (header_size h)"
  shows "hoare (since us M) (gpt_header_crc vread v h loc) (\<lambda>crc s. since us M s \<and> header_crc_ok (us ! v) h loc crc)"
proof (cases "size_unknown (us ! v)")
  case True
  then show ?thesis by (intro hoare_post [OF hoare_header_crc_since [OF assms(1)]]) (simp add: header_crc_ok_def)
next
  case False
  have "512 dvd unat loc" using CHECKED_MUL_unat [OF assms(3)] lb_okD(3,4) [OF assms(2)] by simp
  then obtain q where q: "unat loc = 512 * q" by blast
  have "unat loc + 92 < 2 ^ 64" using unat_bound [of loc] unfolding q by simp
  from hoare_header_crc [OF assms(1,4) False this] show ?thesis
    by (rule hoare_post) (simp add: header_crc_ok_def)
qed

lemma hoare_verify:
  assumes "v < length us" and "lb_ok lb"
  shows "hoare (since us M) (gpt_verify_header vread v h lba lb budget)
    (\<lambda>r s. since us M s \<and> (fst r \<longrightarrow> verified (us ! v) h lba lb))"
proof -
  let ?Q = "\<lambda>r s. since us M s \<and> (fst r \<longrightarrow> verified (us ! v) h lba lb)"
  have no: "hoare (since us M) (ret (False, b)) ?Q" for b by (rule hoare_ret) simp
  have main: "hoare (since us M) (act_bind (gpt_header_crc vread v h loc) (\<lambda>crc.
      if crc = None \<or> not (the crc) \<noteq> header_crc32 h then ret (False, budget)
      else get_vol v (\<lambda>vol. case gpt_array_range vol h lba lb budget of
          None \<Rightarrow> ret (False, budget)
        | Some (array_loc, array_size) \<Rightarrow>
            act_bind (crc32_volume_range vread v array_loc array_size 0xffffffff) (\<lambda>crc.
              ret (crc \<noteq> None \<and> not (the crc) = partition_entry_array_crc32 h, budget - array_size))))) ?Q"
    if c: "is_efi_part h" "revision h = 0x00010000" "\<not> header_size h < of_nat sizeof_gpt_header"
      "\<not> (ucast (header_size h) :: u64) > of_int lb" "my_lba h = lba" "CHECKED_MUL lba (of_int lb) = Some loc" for loc
  proof (rule hoare_bind [where R = "\<lambda>crc s. since us M s \<and> header_crc_ok (us ! v) h loc crc"])
    show "hoare (since us M) (gpt_header_crc vread v h loc) (\<lambda>crc s. since us M s \<and> header_crc_ok (us ! v) h loc crc)"
      using c(3) by (intro hoare_header_crc_ok [OF assms c(6)]) (simp add: sizeof_gpt_header_def word_less_nat_alt)
    fix crc
    show "hoare (\<lambda>s. since us M s \<and> header_crc_ok (us ! v) h loc crc)
     (if crc = None \<or> not (the crc) \<noteq> header_crc32 h then ret (False, budget)
      else get_vol v (\<lambda>vol. case gpt_array_range vol h lba lb budget of
          None \<Rightarrow> ret (False, budget)
        | Some (array_loc, array_size) \<Rightarrow>
            act_bind (crc32_volume_range vread v array_loc array_size 0xffffffff) (\<lambda>crc.
              ret (crc \<noteq> None \<and> not (the crc) = partition_entry_array_crc32 h, budget - array_size)))) ?Q"
    proof (intro hoare_pre_fact hoare_if hoare_since_vol no)
      fix vol assume crc: "\<not> (crc = None \<or> not (the crc) \<noteq> header_crc32 h)" "header_crc_ok (us ! v) h loc crc"
        and vol: "same_volume (us ! v) vol"
      show "hoare (since us M) (case gpt_array_range vol h lba lb budget of
          None \<Rightarrow> ret (False, budget)
        | Some (array_loc, array_size) \<Rightarrow>
            act_bind (crc32_volume_range vread v array_loc array_size 0xffffffff) (\<lambda>crc.
              ret (crc \<noteq> None \<and> not (the crc) = partition_entry_array_crc32 h, budget - array_size))) ?Q"
      proof (intro hoare_option no, clarify)
        fix al n assume "gpt_array_range vol h lba lb budget = Some (al, n)"
        then have ar: "gpt_array_range (us ! v) h lba lb budget = Some (al, n)" using array_range_same [OF vol] by simp
        have "verified (us ! v) h lba lb" if r: "crc_result (us ! v) al n 0xffffffff (Some acrc)"
          "not acrc = partition_entry_array_crc32 h" for acrc
          unfolding verified_def
        proof (intro impI)
          assume known: "\<not> size_unknown (us ! v)" and h: "h = gpt_header_of (bytes (us ! v) (unat lba * nat lb) 92)"
          show "gpt_valid (bytes (us ! v)) (us ! v) h (unat lba) (nat lb)"
          proof (rule verifiedI [OF assms(2) c _ ar _ known h])
            show "not (crc32_update 0xffffffff (gpt_header_bytes (h\<lparr>header_crc32 := 0\<rparr>) @
                bytes (us ! v) (unat loc + 92) (unat (header_size h) - 92))) = header_crc32 h"
              using crc known unfolding header_crc_ok_def by (metis option.collapse)
            show "not (crc32_update 0xffffffff (bytes (us ! v) (unat al) (unat n))) = partition_entry_array_crc32 h"
              using r known unfolding crc_result_def no_wrap_def by metis
          qed
        qed
        then show "hoare (since us M) (act_bind (crc32_volume_range vread v al n 0xffffffff) (\<lambda>crc.
              ret (crc \<noteq> None \<and> not (the crc) = partition_entry_array_crc32 h, budget - n))) ?Q"
          by (intro hoare_bind [OF hoare_crc_range [OF assms(1)]] hoare_ret) auto
      qed
    qed (use assms in simp)
  qed
  show ?thesis
    unfolding gpt_verify_header_def
    by (intro hoare_if hoare_option no main) simp_all
qed

text \<open>The states of the search, and what it looks for.\<close>

definition searching :: "volume list \<Rightarrow> pstate \<Rightarrow> bool" where
  "searching us s \<longleftrightarrow> (\<exists>M. since us M s \<and> memo_ok bytes us M)"

definition table_of :: "volume \<Rightarrow> gpt_table_header \<Rightarrow> int \<Rightarrow> bool" where
  "table_of vol h lb \<longleftrightarrow> lb_ok lb \<and> (\<not> size_unknown vol \<longrightarrow> (\<exists>lba. gpt_valid (bytes vol) vol h lba (nat lb)))"

lemma hoare_searching:
  "(\<And>M. memo_ok bytes us M \<Longrightarrow> hoare (since us M) m Q) \<Longrightarrow> hoare (searching us) m Q"
  unfolding hoare_def searching_def by blast

lemma since_searching: "since us M s \<Longrightarrow> memo_ok bytes us M \<Longrightarrow> searching us s"
  unfolding searching_def by blast

lemma hoare_since: "hoare (searching us) m Q \<Longrightarrow> memo_ok bytes us M \<Longrightarrow> hoare (since us M) m Q"
  by (erule hoare_pre) (rule since_searching)

text \<open>A read while searching.\<close>

lemma hoare_search_read:
  assumes "v < length us" and "hoare (searching us) fail Q"
    and "\<And>bs. read_result (us ! v) loc n bs \<Longrightarrow> hoare (searching us) (k bs) Q"
  shows "hoare (searching us) (read_or vread v loc n fail k) Q"
proof (rule hoare_searching, rule hoare_read [OF assms(1)])
  fix M assume M: "memo_ok bytes us M"
  show "hoare (since us M) fail Q" using assms(2) M by (rule hoare_since)
  show "hoare (since us M) (k bs) Q" if "read_result (us ! v) loc n bs" for bs
    using assms(3) [OF that] M by (rule hoare_since)
qed

lemma hoare_search_vol:
  assumes "v < length us" and "\<And>vol. same_volume (us ! v) vol \<Longrightarrow> hoare (searching us) (k vol) Q"
  shows "hoare (searching us) (get_vol v k) Q"
  by (rule hoare_searching, rule hoare_since_vol [OF assms(1)], rule hoare_since) (erule assms)

text \<open>A header that was read and verified goes into the memo.\<close>

lemma header_valid:
  assumes "read_result (us ! v) loc (of_nat sizeof_gpt_header) bs" and "verified (us ! v) (gpt_header_of bs) lba lb"
    and "unat loc = unat lba * nat lb" and "lb_ok lb"
  shows "table_of (us ! v) (gpt_header_of bs) lb"
    and "v < length us \<Longrightarrow> memo_ok bytes us (Some v, gpt_header_of bs, lba, lb)"
proof -
  have "gpt_valid (bytes (us ! v)) (us ! v) (gpt_header_of bs) (unat lba) (nat lb)" if "\<not> size_unknown (us ! v)"
  proof -
    have "bs = bytes (us ! v) (unat lba * nat lb) 92"
      using assms(1,3) that by (simp add: read_result_def sizeof_gpt_header_def)
    then show ?thesis using assms(2) that by (simp add: verified_def)
  qed
  then show "table_of (us ! v) (gpt_header_of bs) lb"
    and "v < length us \<Longrightarrow> memo_ok bytes us (Some v, gpt_header_of bs, lba, lb)"
    using assms(4) by (auto simp: table_of_def memo_ok_def)
qed

lemma hoare_memo_store:
  assumes "memo_ok bytes us (Some v, h, lba, lb)" and "\<And>s. searching us s \<Longrightarrow> Q () s"
  shows "hoare (since us M) (gpt_memo_store v h lba lb) Q"
  unfolding gpt_memo_store_def
proof (rule hoare_change)
  fix s assume "since us M s"
  then have "since us (Some v, h, lba, lb)
      (s\<lparr>gpt_memo_volume := Some v, gpt_memo_header := h, gpt_memo_lba := lba, gpt_memo_lb_size := lb\<rparr>)"
    by (simp add: since_def memo_def)
  then show "Q () (s\<lparr>gpt_memo_volume := Some v, gpt_memo_header := h, gpt_memo_lba := lba, gpt_memo_lb_size := lb\<rparr>)"
    using assms since_searching by blast
qed

text \<open>Reading, verifying and remembering a header, in one place.\<close>

lemma hoare_try_header:
  assumes "v < length us" and "lb_ok lb" and "read_result (us ! v) loc (of_nat sizeof_gpt_header) bs"
    and "unat loc = unat lba * nat lb"
    and "\<And>b s. searching us s \<Longrightarrow> table_of (us ! v) (gpt_header_of bs) lb \<Longrightarrow> Q (f b) s"
    and "\<And>b. hoare (searching us) (m b) Q"
  shows "hoare (searching us) (act_bind (gpt_verify_header vread v (gpt_header_of bs) lba lb budget) (\<lambda>(ok, b).
      if ok then act_bind (gpt_memo_store v (gpt_header_of bs) lba lb) (\<lambda>_. ret (f b)) else m b)) Q"
proof (rule hoare_searching, rule hoare_bind [OF hoare_verify [OF assms(1,2)]])
  fix M and x :: "bool \<times> u64" assume M: "memo_ok bytes us M"
  obtain ok b where x: "x = (ok, b)" by (cases x)
  show "hoare (\<lambda>s. since us M s \<and> (fst x \<longrightarrow> verified (us ! v) (gpt_header_of bs) lba lb))
    (case x of (ok, b) \<Rightarrow> if ok then act_bind (gpt_memo_store v (gpt_header_of bs) lba lb) (\<lambda>_. ret (f b)) else m b) Q"
  proof (cases ok)
    case True
    note H = header_valid [OF assms(3) _ assms(4,2)]
    have "hoare (since us M) (act_bind (gpt_memo_store v (gpt_header_of bs) lba lb) (\<lambda>_. ret (f b))) Q"
      if "verified (us ! v) (gpt_header_of bs) lba lb"
      using assms(5) H [OF that] assms(1)
      by (intro hoare_bind [OF hoare_memo_store, where R = "\<lambda>_. searching us"] hoare_ret) blast+
    then show ?thesis using x True by (auto intro: hoare_pre_fact)
  next
    case False
    then show ?thesis using x hoare_since [OF assms(6) M] by simp
  qed
qed

lemma hoare_try_candidates:
  assumes "v < length us" and "lb_ok lb"
  shows "hoare (searching us) (try_candidates vread v lb cs budget)
    (\<lambda>r s. searching us s \<and> (\<forall>h. fst r = Some h \<longrightarrow> table_of (us ! v) h lb))"
proof (induction cs arbitrary: budget)
  case (Cons c cs)
  show ?case
  proof (cases "CHECKED_MUL c (of_int lb)")
    case (Some loc)
    have "unat loc = unat c * nat lb" using CHECKED_MUL_unat [OF Some] lb_okD(3) [OF assms(2)] by simp
    then show ?thesis
      using Some Cons.IH
      by (auto simp: Let_def intro!: hoare_search_read [OF assms(1)] hoare_try_header [OF assms])
  qed (use Cons.IH in simp)
qed (auto intro: hoare_ret)

lemma hoare_try_primary:
  assumes "v < length us" and "lb_ok lb"
  shows "hoare (searching us) (try_primary vread v lb budget)
    (\<lambda>r s. searching us s \<and> (\<forall>h. fst r = Some h \<longrightarrow> table_of (us ! v) h lb))"
proof -
  have "unat (of_int lb * 1 :: u64) = unat (1::u64) * nat lb" using lb_okD(3) [OF assms(2)] by simp
  then show ?thesis
    unfolding try_primary_def Let_def
    by (intro hoare_search_read [OF assms(1)] hoare_try_header [OF assms] hoare_ret) auto
qed

lemma hoare_memo_none_store:
  assumes "v < length us"
  shows "hoare (searching us) (gpt_memo_none_store vread v) (\<lambda>_. searching us)"
proof -
  have keep: "searching us s \<Longrightarrow> searching us (s\<lparr>gpt_memo_none_volume := a\<rparr>)"
    "searching us s \<Longrightarrow> searching us (s\<lparr>gpt_memo_none_readable := b\<rparr>)"
    "searching us s \<Longrightarrow> searching us (s\<lparr>gpt_memo_none_block := c, gpt_memo_none_readable := b\<rparr>)" for s a b c
    by (auto simp: searching_def since_def memo_def)
  show ?thesis
    unfolding gpt_memo_none_store_def
    by (intro hoare_bind [where R = "\<lambda>_. searching us"] hoare_change hoare_search_read [OF assms]) (auto intro: keep)
qed

lemma hoare_locate_loop:
  assumes "v < length us" and "\<forall>g\<in>set gs. lb_ok g"
  shows "hoare (searching us) (locate_loop vread v gs budget)
    (\<lambda>r s. searching us s \<and> (\<forall>h lb. r = Some (h, lb) \<longrightarrow> table_of (us ! v) h lb))"
  using assms(2)
proof (induction gs arbitrary: budget)
  case Nil
  show ?case by (auto intro!: hoare_bind [OF hoare_memo_none_store [OF assms(1)]] hoare_ret)
next
  case (Cons g gs)
  let ?Q = "\<lambda>r s. searching us s \<and> (\<forall>h lb. r = Some (h, lb) \<longrightarrow> table_of (us ! v) h lb)"
  have g: "lb_ok g" and IH: "\<And>b. hoare (searching us) (locate_loop vread v gs b) ?Q" using Cons by simp_all
  have fin: "hoare (\<lambda>s. searching us s \<and> (\<forall>h. found = Some h \<longrightarrow> table_of (us ! v) h g))
      (case found of Some h \<Rightarrow> ret (Some (h, g)) | None \<Rightarrow> m) ?Q"
    if "hoare (searching us) m ?Q" for found m
    using that by (cases found) (auto intro!: hoare_ret)
  have cand: "hoare (searching us) (get_vol v (\<lambda>vol.
      act_bind (try_candidates vread v g (gpt_candidates vol g claimed) b) (\<lambda>(found, b).
        case found of Some h \<Rightarrow> ret (Some (h, g)) | None \<Rightarrow> locate_loop vread v gs b))) ?Q" for claimed b
    using fin IH
    by (intro hoare_search_vol [OF assms(1)] hoare_bind [OF hoare_try_candidates [OF assms(1) g]]) (auto split: prod.split)
  show ?case
    unfolding locate_loop.simps using fin cand
    by (intro hoare_bind [OF hoare_try_primary [OF assms(1) g]]) (auto split: prod.split)
qed

lemma hoare_memo_hit:
  assumes "v < length us"
  shows "hoare (searching us) (gpt_memo_hit vread v)
    (\<lambda>r s. searching us s \<and> (\<forall>h lb. r = Some (h, lb) \<longrightarrow> table_of (us ! v) h lb))"
proof (rule hoare_searching)
  fix M assume M: "memo_ok bytes us M"
  let ?Q = "\<lambda>r s. searching us s \<and> (\<forall>h lb. r = Some (h, lb) \<longrightarrow> table_of (us ! v) h lb)"
  have none: "hoare (since us M) (ret None) ?Q" by (rule hoare_since [OF hoare_ret M]) simp
  have some: "hoare (since us M) (ret (Some (gpt_memo_header t, gpt_memo_lb_size t))) ?Q"
    if t: "since us M t" "gpt_memo_volume t = Some v" for t
  proof -
    have "M = (Some v, gpt_memo_header t, gpt_memo_lba t, gpt_memo_lb_size t)" using t by (simp add: since_def memo_def)
    then have "table_of (us ! v) (gpt_memo_header t) (gpt_memo_lb_size t)" using M by (auto simp: memo_ok_def table_of_def)
    then show ?thesis by (intro hoare_since [OF hoare_ret M]) simp
  qed
  show "hoare (since us M) (gpt_memo_hit vread v) ?Q"
    unfolding gpt_memo_hit_def
  proof (rule hoare_get_state)
    fix t
    have "hoare (since us M) (if gpt_memo_volume t \<noteq> Some v then ret None
       else case CHECKED_MUL (gpt_memo_lba t) (of_int (gpt_memo_lb_size t)) of None \<Rightarrow> ret None
         | Some loc \<Rightarrow> read_or vread v loc (of_nat sizeof_gpt_header) (ret None) (\<lambda>bs.
             if gpt_header_of bs \<noteq> gpt_memo_header t then ret None
             else ret (Some (gpt_memo_header t, gpt_memo_lb_size t)))) ?Q" if "since us M t"
      using some [OF that] by (intro hoare_if hoare_option hoare_read [OF assms] none) simp_all
    then show "hoare (\<lambda>s. since us M s \<and> s = t) (if gpt_memo_volume t \<noteq> Some v then ret None
       else case CHECKED_MUL (gpt_memo_lba t) (of_int (gpt_memo_lb_size t)) of None \<Rightarrow> ret None
         | Some loc \<Rightarrow> read_or vread v loc (of_nat sizeof_gpt_header) (ret None) (\<lambda>bs.
             if gpt_header_of bs \<noteq> gpt_memo_header t then ret None
             else ret (Some (gpt_memo_header t, gpt_memo_lb_size t)))) ?Q"
      by (auto simp: hoare_def)
  qed
qed

lemma hoare_memo_none_hit:
  assumes "v < length us"
  shows "hoare (searching us) (gpt_memo_none_hit vread v) (\<lambda>_. searching us)"
  unfolding gpt_memo_none_hit_def
proof (rule hoare_get_state)
  fix t
  show "hoare (\<lambda>s. searching us s \<and> s = t) (if gpt_memo_none_volume t \<noteq> Some v then ret False
     else read_or vread v 512 (of_nat sizeof_gpt_header) (ret (\<not> gpt_memo_none_readable t)) (\<lambda>bs.
       ret (gpt_memo_none_readable t \<and> gpt_header_of bs = gpt_memo_none_block t))) (\<lambda>_. searching us)"
    by (rule hoare_pre [where P = "searching us"]) (auto intro!: hoare_search_read [OF assms] hoare_ret)
qed

lemma hoare_protective:
  assumes "v < length us"
  shows "hoare (searching us) (gpt_protective_mbr vread v) (\<lambda>_. searching us)"
proof -
  have "hoare (searching us) (protective_loop vread v is) (\<lambda>_. searching us)" for "is"
    by (induction "is") (auto intro!: hoare_ret hoare_search_read [OF assms])
  then show ?thesis by (simp add: gpt_protective_mbr_def)
qed

lemma hoare_locate:
  assumes "v < length us"
  shows "hoare (searching us) (gpt_locate_header vread v)
    (\<lambda>r s. searching us s \<and> (\<forall>h lb. r = Some (h, lb) \<longrightarrow> table_of (us ! v) h lb))"
proof -
  let ?Q = "\<lambda>r s. searching us s \<and> (\<forall>h lb. r = Some (h, lb) \<longrightarrow> table_of (us ! v) h lb)"
  have loop: "hoare (searching us) (locate_loop vread v lb_guesses (GPT_MAX_ARRAY_SIZE * 2)) ?Q"
    by (rule hoare_locate_loop [OF assms]) (simp add: lb_ok_def)
  have none: "hoare (searching us) (ret None) ?Q" by (auto intro: hoare_ret)
  have search: "hoare (searching us) (act_bind (gpt_memo_none_hit vread v) (\<lambda>none. if none then ret None
      else act_bind (gpt_protective_mbr vread v) (\<lambda>protective. if \<not> protective then ret None
        else locate_loop vread v lb_guesses (GPT_MAX_ARRAY_SIZE * 2)))) ?Q"
    by (intro hoare_bind [OF hoare_memo_none_hit [OF assms]] hoare_bind [OF hoare_protective [OF assms]] hoare_if loop none)
  show ?thesis
    unfolding gpt_locate_header_def
  proof (rule hoare_bind [OF hoare_memo_hit [OF assms]], rule hoare_if)
    fix m
    show "hoare (\<lambda>s. searching us s \<and> (\<forall>h lb. m = Some (h, lb) \<longrightarrow> table_of (us ! v) h lb)) (ret m) ?Q"
      by (rule hoare_ret) simp
    show "hoare (\<lambda>s. searching us s \<and> (\<forall>h lb. m = Some (h, lb) \<longrightarrow> table_of (us ! v) h lb))
      (act_bind (gpt_memo_none_hit vread v) (\<lambda>none. if none then ret None
        else act_bind (gpt_protective_mbr vread v) (\<lambda>protective. if \<not> protective then ret None
          else locate_loop vread v lb_guesses (GPT_MAX_ARRAY_SIZE * 2)))) ?Q"
      by (rule hoare_pre [OF search]) simp
  qed
qed

end

section \<open>What is located is a valid table\<close>

lemma memo_ok_same:
  assumes "same_vols us vs" and "\<And>x y. same_volume x y \<Longrightarrow> bytes y = bytes x" and "memo_ok bytes us M"
  shows "memo_ok bytes vs M"
proof (cases "fst M")
  case None
  then show ?thesis by (cases M) (simp add: memo_ok_def)
next
  case (Some v)
  obtain h lba lb where M: "M = (Some v, h, lba, lb)" using Some by (cases M) simp
  then have v: "v < length us" using assms(3) by (simp add: memo_ok_def)
  note D = same_volsD [OF assms(1)]
  have "sect_count (vs ! v) = sect_count (us ! v)" using D(2) [OF v] unfolding same_volume_def by auto
  then show ?thesis
    using assms(3) M v D gpt_valid_same [OF D(2) [OF v]] assms(2) [OF D(2) [OF v]] by (simp add: memo_ok_def)
qed

text \<open>
  C32. Only verified tables are used: on a volume of known size, the header that
  \<open>gpt_locate_header\<close> returns is the one on the disk at the block its own address field names,
  with the signature, revision and size of a GPT header; the CRCs of header and entry array are
  those of the bytes on the disk; and the array lies on the volume, outside of the usable blocks.
  The memo of the table found last stays correct from call to call.
\<close>

theorem gpt_located_is_verified:
  assumes "firmware_ok fw arch blk medium" and "\<forall>vol\<in>set (vols s). vol_ok arch blk medium vol"
    and "v < length (vols s)" and "\<not> size_unknown (vols s ! v)"
    and "memo_ok (vol_bytes medium) (vols s) (memo s)"
    and "gpt_locate_header (store_read (disk_read_sectors fw arch) arch) v s = Inr (Some (h, lb), s')"
  shows "lb \<in> {512, 2048, 4096}
    \<and> (\<exists>lba. gpt_valid (vol_bytes medium (vols s ! v)) (vols s ! v) h lba (nat lb))
    \<and> same_vols (vols s) (vols s') \<and> memo_ok (vol_bytes medium) (vols s') (memo s')"
proof -
  let ?r = "disk_read_sectors fw arch"
  have "store_ok ?r arch blk medium (vols s)"
    using disk_read_sectors_ok [OF assms(1)] assms(2) by (simp add: store_ok_def)
  then have "store.searching ?r arch blk medium (vols s) s"
    using assms(5) by (auto simp: store.searching_def store.since_def)
  note post = hoareD [OF store.hoare_locate [OF assms(3)] this assms(6)]
  then have t: "store.table_of medium (vols s ! v) h lb" by simp
  obtain M where M: "store.since ?r arch blk medium (vols s) M s'" "memo_ok (vol_bytes medium) (vols s) M"
    using post by (auto simp: store.searching_def)
  then have s': "same_vols (vols s) (vols s')" "memo s' = M" by (simp_all add: store.since_def)
  have "memo_ok (vol_bytes medium) (vols s') M"
    by (rule memo_ok_same [OF s'(1) _ M(2)]) (simp add: same_volumeD)
  then show ?thesis using t s' assms(4) by (simp add: store.table_of_def lb_ok_def lb_guesses_def)
qed

section \<open>An example\<close>

text \<open>A header with the CRCs it should have, for one entry in block 2, a partition over blocks 3 to 5.\<close>

definition example_entry :: "u8 list" where
  "example_entry = replicate 16 1 @ replicate 16 2 @ le_bytes 8 (3::u64) @ le_bytes 8 (5::u64) @ replicate 80 0"

definition example_header0 :: gpt_table_header where
  "example_header0 =
     \<lparr>signature = chars ''EFI PART'', revision = 0x00010000, header_size = 92, header_crc32 = 0, reserved0 = 0,
      my_lba = 1, alternate_lba = 7, first_usable_lba = 3, last_usable_lba = 5, disk_guid = replicate 16 7,
      partition_entry_lba = 2, number_of_partition_entries = 1, size_of_partition_entry = 128,
      partition_entry_array_crc32 = not (crc32_update 0xffffffff example_entry)\<rparr>"

definition example_header :: gpt_table_header where
  "example_header = example_header0\<lparr>header_crc32 := not (crc32_update 0xffffffff (gpt_header_bytes example_header0))\<rparr>"

definition example_image :: "nat \<Rightarrow> u8" where
  "example_image a =
     (if 512 \<le> a \<and> a < 604 then gpt_header_bytes example_header ! (a - 512)
      else if 1024 \<le> a \<and> a < 1152 then example_entry ! (a - 1024) else 0)"

lemma example_header_length: "length (gpt_header_bytes example_header) = 92" "length example_entry = 128"
  by (simp_all add: gpt_header_bytes_def example_header_def example_header0_def example_entry_def)

lemma example_header_fields:
  "signature example_header = chars ''EFI PART''" "revision example_header = 0x00010000" "header_size example_header = 92"
  "my_lba example_header = 1" "first_usable_lba example_header = 3" "last_usable_lba example_header = 5"
  "partition_entry_lba example_header = 2" "number_of_partition_entries example_header = 1"
  "size_of_partition_entry example_header = 128"
  "partition_entry_array_crc32 example_header = not (crc32_update 0xffffffff example_entry)"
  "header_crc32 example_header = not (crc32_update 0xffffffff (gpt_header_bytes example_header0))"
  by (simp_all add: example_header_def example_header0_def)

lemma gpt_header_of_bytes:
  assumes "length (signature h) = 8" and "length (disk_guid h) = 16"
  shows "gpt_header_of (gpt_header_bytes h) = h"
  by (cases h) (use assms in \<open>simp add: gpt_header_of_def gpt_header_bytes_def byte_simps\<close>)

lemma example_image_bytes:
  "vol_bytes (\<lambda>_. example_image) example_disk 512 92 = gpt_header_bytes example_header"
  "vol_bytes (\<lambda>_. example_image) example_disk 1024 128 = example_entry"
  by (auto simp: vol_bytes_def vol_byte_def example_disk_def example_volume_def example_image_def
      example_header_length intro!: nth_equalityI)

lemma example_valid: "gpt_valid (vol_bytes (\<lambda>_. example_image) example_disk) example_disk example_header 1 512"
proof -
  let ?c = "vol_bytes (\<lambda>_. example_image) example_disk"
  have h: "example_header = gpt_header_of (?c 512 92)"
    unfolding example_image_bytes
    by (rule gpt_header_of_bytes [symmetric]) (simp_all add: example_header_def example_header0_def)
  have "example_header\<lparr>header_crc32 := 0\<rparr> = example_header0" by (simp add: example_header_def example_header0_def)
  moreover have "?c a 0 = []" for a by (simp add: vol_bytes_def)
  moreover have "sect_count example_disk = 8" by (simp add: example_disk_def)
  ultimately show ?thesis
    unfolding gpt_valid_def using h by (simp add: example_header_fields example_image_bytes)
qed

definition example_state :: pstate where
  "example_state =
     \<lparr>vols = [example_disk], gpt_memo_volume = Some 0, gpt_memo_header = example_header, gpt_memo_lba = 1,
      gpt_memo_lb_size = 512, gpt_memo_none_volume = None, gpt_memo_none_block = example_header,
      gpt_memo_none_readable = False\<rparr>"

lemma example_located:
  "\<exists>s'. gpt_locate_header (store_read (disk_read_sectors (image_firmware example_image) X86_64) X86_64) 0 example_state =
     Inr (Some (example_header, 512), s')"
proof -
  let ?rd = "disk_read_sectors (image_firmware example_image) X86_64"
  have "\<exists>v'. volume_read ?rd X86_64 example_disk 512 92 =
      Inr (Some (vol_bytes (\<lambda>_. example_image) example_disk (unat (512::u64)) (unat (92::u64))), v')"
    by (rule volume_read_in_range [OF disk_read_sectors_ok [OF image_firmware_ok(1)] image_firmware_ok(2,3)])
      (simp_all add: example_disk_def example_volume_def)
  then obtain v' where r: "volume_read ?rd X86_64 example_disk 512 92 = Inr (Some (gpt_header_bytes example_header), v')"
    by (auto simp: example_image_bytes)
  have "gpt_header_of (gpt_header_bytes example_header) = example_header"
    by (rule gpt_header_of_bytes) (simp_all add: example_header_def example_header0_def)
  then show ?thesis
    using r by (simp add: gpt_locate_header_def gpt_memo_hit_def act_bind_def get_state_def read_or_def ret_def
        store_read_def example_state_def CHECKED_MUL_def sizeof_gpt_header_def)
qed

theorem gpt_located_is_verified_witness:
  "\<exists>s'. gpt_locate_header (store_read (disk_read_sectors (image_firmware example_image) X86_64) X86_64) 0 example_state =
     Inr (Some (example_header, 512), s') \<and>
   (\<exists>lba. gpt_valid (vol_bytes (\<lambda>_. example_image) example_disk) example_disk example_header lba 512)"
proof -
  obtain s' where r: "gpt_locate_header (store_read (disk_read_sectors (image_firmware example_image) X86_64) X86_64) 0 example_state =
     Inr (Some (example_header, 512), s')" using example_located by blast
  have "memo_ok (vol_bytes (\<lambda>_. example_image)) (vols example_state) (memo example_state)"
    using example_valid by (simp add: memo_ok_def memo_def example_state_def lb_ok_def lb_guesses_def)
  then show ?thesis
    using gpt_located_is_verified [OF image_firmware_ok(1) _ _ _ _ r] r image_firmware_ok(3)
    by (simp add: example_state_def) (simp add: example_disk_def example_volume_def)
qed
end
