(* ===== verification/Mbr.thy ===== *)
theory Mbr
  imports Gpt
begin

text \<open>
  MBR partition tables, from \<^verbatim>\<open>common/lib/part.s2.c\<close>: the check of the boot record, the
  primary partitions, the chains of extended boot records (EBRs) with their memo in the volume
  structures, and the entry point \<open>part_get\<close> for both kinds of table.
\<close>

section \<open>Entries\<close>

record mbr_entry =
  status :: u8
  chs_first_sect :: "u8 list"
  entry_type :: u8
  chs_last_sect :: "u8 list"
  entry_first_sect :: u32
  entry_sect_count :: u32

definition mbr_entry_of :: "u8 list \<Rightarrow> mbr_entry" where
  "mbr_entry_of bs =
     \<lparr>status = bs ! 0, chs_first_sect = field bs 1 3, entry_type = bs ! 4, chs_last_sect = field bs 5 3,
      entry_first_sect = le_word (field bs 8 4),
      entry_sect_count = le_word (field bs 12 4)\<rparr>"

definition sizeof_mbr_entry :: nat where "sizeof_mbr_entry = 16"

text \<open>An entry in units of 512 bytes.\<close>

record mbr_part =
  part_type :: u8
  part_first_sect :: u64
  part_sect_count :: u64

definition mbr_read_entry :: "vreader \<Rightarrow> vid \<Rightarrow> u64 \<Rightarrow> mbr_part option act" where
  "mbr_read_entry vread v offset =
     read_or vread v offset (of_nat sizeof_mbr_entry) (ret None) (\<lambda>bs. get_vol v (\<lambda>vol.
       let e = mbr_entry_of bs;
           mult = (if is_optical vol then 1 else of_int (sector_size vol) div 512)
       in ret (Some \<lparr>part_type = entry_type e, part_first_sect = ucast (entry_first_sect e) * mult,
                     part_sect_count = ucast (entry_sect_count e) * mult\<rparr>)))"

text \<open>The number of sectors left of a partition that is cut at the end of the disk.\<close>

definition mbr_cut_to_disk :: "volume \<Rightarrow> u64 \<Rightarrow> u64 \<Rightarrow> u64 option" where
  "mbr_cut_to_disk disk first cnt =
     (if size_unknown disk then Some cnt
      else if first \<ge> sect_count disk then None
      else Some (if cnt > sect_count disk - first then sect_count disk - first else cnt))"

definition is_extended :: "mbr_part \<Rightarrow> bool" where
  "is_extended e \<longleftrightarrow> part_type e = 0x0f \<or> part_type e = 0x05 \<or> part_type e = 0x85"

section \<open>The boot record\<close>

text \<open>Each check reads some bytes and goes on if they pass.\<close>

fun mbr_checks :: "vreader \<Rightarrow> vid \<Rightarrow> (u64 \<times> u64 \<times> (u8 list \<Rightarrow> bool)) list \<Rightarrow> bool act" where
  "mbr_checks vread v [] = ret True"
| "mbr_checks vread v ((loc, n, pass) # cs) =
     read_or vread v loc n (ret False) (\<lambda>bs. if pass bs then mbr_checks vread v cs else ret False)"

definition status_ok :: "u8 list \<Rightarrow> bool" where
  "status_ok bs \<longleftrightarrow> hd bs = 0x00 \<or> hd bs = 0x80"

definition is_valid_mbr :: "vreader \<Rightarrow> vid \<Rightarrow> bool act" where
  "is_valid_mbr vread v = mbr_checks vread v
     [(510, 2, \<lambda>bs. (le_word bs :: u16) = 0xaa55),
      (446, 1, status_ok), (462, 1, status_ok), (478, 1, status_ok), (494, 1, status_ok),
      (3, 4, \<lambda>bs. bs \<noteq> chars ''NTFS''), (54, 3, \<lambda>bs. bs \<noteq> chars ''FAT''), (82, 3, \<lambda>bs. bs \<noteq> chars ''FAT''),
      (3, 5, \<lambda>bs. bs \<noteq> chars ''FAT32''), (1080, 2, \<lambda>bs. (le_word bs :: u16) \<noteq> 0xef53)]"

definition mbr_get_id :: "vreader \<Rightarrow> vid \<Rightarrow> u32 act" where
  "mbr_get_id vread v = act_bind (is_valid_mbr vread v) (\<lambda>valid.
     if \<not> valid then ret 0 else read_or vread v 0x1b8 4 (ret 0) (\<lambda>bs. ret (le_word bs)))"

section \<open>Logical partitions\<close>

definition MAX_LOGICAL_PARTITIONS :: int where "MAX_LOGICAL_PARTITIONS = 256"
definition MAX_EBRS :: nat where "MAX_EBRS = 256"

definition mbr_logical_entry_contained :: "u64 \<Rightarrow> u64 \<Rightarrow> mbr_part \<Rightarrow> bool" where
  "mbr_logical_entry_contained extended_size ebr_sector e =
     (case CHECKED_ADD ebr_sector (part_first_sect e) of
        None \<Rightarrow> False
      | Some rel_first \<Rightarrow>
          case CHECKED_ADD rel_first (part_sect_count e) of
            None \<Rightarrow> False
          | Some rel_end \<Rightarrow> rel_end \<le> extended_size)"

text \<open>
  What the four slots of an EBR come to: the function returns, the partition is found (its first
  sector and their number), or the slots are through with the link to the next EBR, if any. The
  count of logical partitions numbered so far comes with each.
\<close>

datatype slots = Slots_Return part_status int | Slots_Found u64 u64 int | Slots_Done "(u64 \<times> u64) option" int

text \<open>The entry that is asked for.\<close>

definition ebr_found :: "volume \<Rightarrow> volume \<Rightarrow> u64 \<Rightarrow> bool \<Rightarrow> mbr_part \<Rightarrow> int \<Rightarrow> slots" where
  "ebr_found disk ext ebr_sector is_contained e accepted =
     (if size_unknown disk \<and> \<not> is_contained then Slots_Return NO_PARTITION accepted
      else case CHECKED_ADD ebr_sector (part_first_sect e) of
        None \<Rightarrow> Slots_Return NO_PARTITION accepted
      | Some rel_first \<Rightarrow>
          case CHECKED_ADD (first_sect ext) rel_first of
            None \<Rightarrow> Slots_Return NO_PARTITION accepted
          | Some first_sect_64 \<Rightarrow>
              case mbr_cut_to_disk disk first_sect_64 (part_sect_count e) of
                None \<Rightarrow> Slots_Return NO_PARTITION accepted
              | Some cnt \<Rightarrow> Slots_Found first_sect_64 cnt accepted)"

fun ebr_slots :: "vreader \<Rightarrow> vid \<Rightarrow> vid \<Rightarrow> int \<Rightarrow> u64 \<Rightarrow> u64 \<Rightarrow> u64 \<Rightarrow> nat list \<Rightarrow> (u64 \<times> u64) option \<Rightarrow> int \<Rightarrow> slots act" where
  "ebr_slots vread disk ext part extended_size ebr_sector ebr_size [] link accepted = ret (Slots_Done link accepted)"
| "ebr_slots vread disk ext part extended_size ebr_sector ebr_size (i # is) link accepted =
     act_bind (mbr_read_entry vread ext (ebr_sector * 512 + 0x1be + of_nat (sizeof_mbr_entry * i))) (\<lambda>r.
       case r of
         None \<Rightarrow> ret (Slots_Return END_OF_TABLE accepted)
       | Some e \<Rightarrow>
           if is_extended e then
             ebr_slots vread disk ext part extended_size ebr_sector ebr_size is
               (if link = None \<and> part_sect_count e \<noteq> 0 then Some (part_first_sect e, part_sect_count e) else link) accepted
           else if part_sect_count e = 0 then
             ebr_slots vread disk ext part extended_size ebr_sector ebr_size is link accepted
           else
             let is_contained = mbr_logical_entry_contained extended_size ebr_sector e;
                 within_link = part_first_sect e + part_sect_count e \<le> ebr_size
             in if i \<ge> 2 \<and> (\<not> is_contained \<or> \<not> within_link) then
                  ebr_slots vread disk ext part extended_size ebr_sector ebr_size is link accepted
                else if accepted = part then
                  get_vol disk (\<lambda>d. get_vol ext (\<lambda>x. ret (ebr_found d x ebr_sector is_contained e accepted)))
                else ebr_slots vread disk ext part extended_size ebr_sector ebr_size is link (accepted + 1))"

text \<open>
  The walk along the chain. The memo of the volume is written at the head of the loop; the
  sectors visited are in its chain. An index past the chain's \<open>MAX_EBRS\<close> elements ends it.
\<close>

datatype walk = Walk_Return part_status int | Walk_Found u64 u64 int

function ebr_walk :: "vreader \<Rightarrow> vid \<Rightarrow> vid \<Rightarrow> int \<Rightarrow> u64 \<Rightarrow> nat \<Rightarrow> u64 \<Rightarrow> u64 \<Rightarrow> int \<Rightarrow> walk act" where
  "ebr_walk vread disk ext part extended_size depth ebr_sector ebr_size accepted =
     act_bind (set_vol ext (\<lambda>x. x\<lparr>ebr_walk_index := accepted, ebr_walk_depth := depth,
         ebr_walk_chain := (ebr_walk_chain x)[depth := ebr_sector], ebr_walk_size := ebr_size\<rparr>)) (\<lambda>_.
     read_or vread ext (ebr_sector * 512 + 510) 2 (ret (Walk_Return END_OF_TABLE accepted)) (\<lambda>sig.
       if (le_word sig :: u16) \<noteq> 0xaa55 then ret (Walk_Return END_OF_TABLE accepted)
       else act_bind (ebr_slots vread disk ext part extended_size ebr_sector ebr_size [0..<4] None accepted) (\<lambda>r.
         case r of
           Slots_Return st accepted \<Rightarrow> ret (Walk_Return st accepted)
         | Slots_Found first cnt accepted \<Rightarrow> ret (Walk_Found first cnt accepted)
         | Slots_Done None accepted \<Rightarrow> ret (Walk_Return END_OF_TABLE accepted)
         | Slots_Done (Some (link_first_sect, link_sect_count)) accepted \<Rightarrow> get_vol ext (\<lambda>x.
             if link_first_sect \<in> set (take (depth + 1) (ebr_walk_chain x)) then ret (Walk_Return END_OF_TABLE accepted)
             else if depth + 1 \<ge> MAX_EBRS then ret (Walk_Return END_OF_TABLE accepted)
             else if link_first_sect \<ge> sect_count x then ret (Walk_Return END_OF_TABLE accepted)
             else ebr_walk vread disk ext part extended_size (depth + 1) link_first_sect link_sect_count accepted))))"
  by pat_completeness auto
termination
  by (relation "measure (\<lambda>(vread, disk, ext, part, es, depth, sec, sz, acc). MAX_EBRS - depth)") auto

declare ebr_walk.simps [simp del]

text \<open>The volume of a logical partition, and the count of those numbered so far.\<close>

definition mbr_get_logical_part ::
    "vreader \<Rightarrow> fs_ops \<Rightarrow> volume \<Rightarrow> vid \<Rightarrow> int \<Rightarrow> (part_status \<times> volume \<times> int) act" where
  "mbr_get_logical_part vread fs r ext part = get_vol ext (\<lambda>x.
     let disk = the (backing_dev x);
         depth = ebr_walk_depth x;
         accepted = ebr_walk_index x
     in act_bind (mbr_read_entry vread disk (of_int (0x1be + int sizeof_mbr_entry * (vol_partition x - 1)))) (\<lambda>extended_entry.
          case extended_entry of
            None \<Rightarrow> ret (END_OF_TABLE, r, accepted)
          | Some ee \<Rightarrow>
              act_bind (ebr_walk vread disk ext part (part_sect_count ee) depth (ebr_walk_chain x ! depth)
                          (ebr_walk_size x) accepted) (\<lambda>w.
                case w of
                  Walk_Return st accepted \<Rightarrow> ret (st, r, accepted)
                | Walk_Found first cnt accepted \<Rightarrow> get_vol ext (\<lambda>x.
                    act_bind (probe_fs fs ((part_volume r x (part + 4 + 1) first cnt (backing_dev x))\<lparr>extended := Some ext\<rparr>)) (\<lambda>r.
                      ret (Part_Found, r\<lparr>part_guid_valid := False, part_type_guid_valid := False\<rparr>, accepted))))))"

section \<open>Partitions\<close>

text \<open>A volume structure from the allocator, all zero.\<close>

definition zero_volume :: volume where
  "zero_volume =
     \<lparr>device = 0, fastest_xfer_size = 0, vol_index = 0, is_optical = False, pxe = False, vol_partition = 0,
      sector_size = 0, backing_dev = None, extended = None, cache_status = CACHE_NOT_READY, cache = None,
      cached_block = 0, ebr_part = None, ebr_walk_index = 0, ebr_walk_depth = 0, ebr_walk_size = 0,
      ebr_walk_chain = [], first_sect = 0, sect_count = 0, guid_valid = False, vol_guid = replicate 16 0,
      part_guid_valid = False, part_guid = replicate 16 0, part_type_guid_valid = False,
      part_type_guid = replicate 16 0, fslabel_valid = False, fslabel = []\<rparr>"

definition extended_volume :: "volume \<Rightarrow> vid \<Rightarrow> nat \<Rightarrow> mbr_part \<Rightarrow> u64 \<Rightarrow> int \<Rightarrow> volume" where
  "extended_volume vol v i e cnt accepted =
     (part_volume zero_volume vol (int i + 1) (part_first_sect e) cnt (Some v))
       \<lparr>ebr_walk_index := accepted, ebr_walk_size := part_sect_count e, ebr_walk_chain := replicate MAX_EBRS 0\<rparr>"

fun extended_slots :: "vreader \<Rightarrow> fs_ops \<Rightarrow> volume \<Rightarrow> vid \<Rightarrow> int \<Rightarrow> nat list \<Rightarrow> int \<Rightarrow> (part_status \<times> volume) act" where
  "extended_slots vread fs r v part [] accepted = ret (END_OF_TABLE, r)"
| "extended_slots vread fs r v part (i # is) accepted =
     act_bind (mbr_read_entry vread v (of_nat (0x1be + sizeof_mbr_entry * i))) (\<lambda>re.
       case re of
         None \<Rightarrow> extended_slots vread fs r v part is accepted
       | Some e \<Rightarrow>
           if \<not> is_extended e then extended_slots vread fs r v part is accepted
           else if part_sect_count e = 0 then extended_slots vread fs r v part is accepted
           else get_vol v (\<lambda>vol.
             case mbr_cut_to_disk vol (part_first_sect e) (part_sect_count e) of
               None \<Rightarrow> extended_slots vread fs r v part is accepted
             | Some cnt \<Rightarrow>
                 act_bind (new_vol (extended_volume vol v i e cnt accepted)) (\<lambda>ext.
                 act_bind (set_vol v (\<lambda>vol. vol\<lparr>ebr_part := Some ext\<rparr>)) (\<lambda>_.
                 act_bind (mbr_get_logical_part vread fs r ext (part - 4)) (\<lambda>(st, r, accepted).
                   if st \<noteq> END_OF_TABLE then ret (st, r)
                   else extended_slots vread fs r v part is accepted)))))"

text \<open>A probe for a logical partition carries on from the extended partition of the last one.\<close>

definition mbr_get_logical :: "vreader \<Rightarrow> fs_ops \<Rightarrow> volume \<Rightarrow> vid \<Rightarrow> int \<Rightarrow> (part_status \<times> volume) act" where
  "mbr_get_logical vread fs r v part =
     (if part - 4 \<ge> MAX_LOGICAL_PARTITIONS then ret (END_OF_TABLE, r)
      else get_vol v (\<lambda>vol.
        case ebr_part vol of
          None \<Rightarrow> extended_slots vread fs r v part [0..<4] 0
        | Some ext \<Rightarrow> get_vol ext (\<lambda>x.
            if ebr_walk_index x \<le> part - 4 then
              act_bind (mbr_get_logical_part vread fs r ext (part - 4)) (\<lambda>(st, r, accepted).
                if st \<noteq> END_OF_TABLE then ret (st, r)
                else extended_slots vread fs r v part [nat (vol_partition x)..<4] accepted)
            else extended_slots vread fs r v part [0..<4] 0)))"

definition mbr_get_part :: "vreader \<Rightarrow> fs_ops \<Rightarrow> volume \<Rightarrow> vid \<Rightarrow> int \<Rightarrow> (part_status \<times> volume) act" where
  "mbr_get_part vread fs r v part = act_bind (is_valid_mbr vread v) (\<lambda>valid.
     if \<not> valid then ret (INVALID_TABLE, r)
     else if part > 3 then mbr_get_logical vread fs r v part
     else act_bind (mbr_read_entry vread v (of_int (0x1be + int sizeof_mbr_entry * part))) (\<lambda>re.
       case re of
         None \<Rightarrow> ret (END_OF_TABLE, r)
       | Some e \<Rightarrow>
           if part_type e = 0 then ret (NO_PARTITION, r)
           else if is_extended e then ret (NO_PARTITION, r)
           else if part_sect_count e = 0 then ret (NO_PARTITION, r)
           else get_vol v (\<lambda>vol.
             case mbr_cut_to_disk vol (part_first_sect e) (part_sect_count e) of
               None \<Rightarrow> ret (NO_PARTITION, r)
             | Some cnt \<Rightarrow>
                 act_bind (probe_fs fs (part_volume r vol (part + 1) (part_first_sect e) cnt (Some v))) (\<lambda>r.
                   ret (Part_Found, r\<lparr>part_guid_valid := False, part_type_guid_valid := False\<rparr>)))))"

definition part_get :: "vreader \<Rightarrow> fs_ops \<Rightarrow> volume \<Rightarrow> vid \<Rightarrow> int \<Rightarrow> (part_status \<times> volume) act" where
  "part_get vread fs r v part =
     (if part < 0 then ret (NO_PARTITION, r)
      else act_bind (gpt_get_part vread fs r v part) (\<lambda>(st, r).
        if st \<noteq> INVALID_TABLE then ret (st, r)
        else act_bind (mbr_get_part vread fs r v part) (\<lambda>(st, r).
          if st \<noteq> INVALID_TABLE then ret (st, r) else ret (INVALID_TABLE, r))))"

section \<open>Looking up volumes\<close>

text \<open>The index is a list of volumes of the store.\<close>

definition volume_get_by_guid :: "volume list \<Rightarrow> vid list \<Rightarrow> u8 list \<Rightarrow> vid option" where
  "volume_get_by_guid vs index g = List.find (\<lambda>i.
     guid_valid (vs ! i) \<and> vol_guid (vs ! i) = g \<or> part_guid_valid (vs ! i) \<and> part_guid (vs ! i) = g) index"

definition volume_get_by_fslabel :: "volume list \<Rightarrow> vid list \<Rightarrow> cptr \<Rightarrow> vid option" where
  "volume_get_by_fslabel vs index l = List.find (\<lambda>i.
     fslabel_valid (vs ! i) \<and> strcasecmp (fslabel (vs ! i)) l = Some 0) index"

definition volume_get_by_coord :: "volume list \<Rightarrow> vid list \<Rightarrow> bool \<Rightarrow> int \<Rightarrow> int \<Rightarrow> vid option" where
  "volume_get_by_coord vs index optical drive part = List.find (\<lambda>i.
     vol_index (vs ! i) = drive \<and> is_optical (vs ! i) = optical \<and> vol_partition (vs ! i) = part) index"

definition volume_get_by_bios_drive :: "volume list \<Rightarrow> vid list \<Rightarrow> int \<Rightarrow> vid option" where
  "volume_get_by_bios_drive vs index drive = List.find (\<lambda>i. int (device (vs ! i)) = drive) index"

end
