(* ===== verification/Part_Proof.thy ===== *)
theory Part_Proof
  imports Mbr
begin

text \<open>
  What looking for partitions comes to: it returns on every disk, and the partitions found lie on
  the disk, whichever kind of table they are from.
\<close>

section \<open>The search returns\<close>

lemma returns_get_vol [returns_rules]: "(\<And>x. returns (k x)) \<Longrightarrow> returns (get_vol v k)"
  by (simp add: returns_def get_vol_def)

lemma returns_set_vol [returns_rules]: "returns (set_vol v f)"
  by (simp add: set_vol_def returns_change)

lemma returns_new_vol [returns_rules]: "returns (new_vol x)"
  by (simp add: returns_def new_vol_def)

lemma returns_slots [returns_rules]:
  "(\<And>st a. returns (f st a)) \<Longrightarrow> (\<And>x y a. returns (g x y a)) \<Longrightarrow> (\<And>l a. returns (h l a)) \<Longrightarrow>
   returns (case x of Slots_Return st a \<Rightarrow> f st a | Slots_Found x y a \<Rightarrow> g x y a | Slots_Done l a \<Rightarrow> h l a)"
  by (cases x) simp_all

lemma returns_walk [returns_rules]:
  "(\<And>st a. returns (f st a)) \<Longrightarrow> (\<And>x y a. returns (g x y a)) \<Longrightarrow>
   returns (case x of Walk_Return st a \<Rightarrow> f st a | Walk_Found x y a \<Rightarrow> g x y a)"
  by (cases x) simp_all

text \<open>What is asked of the reads and of the file systems: they return, with whatever result.\<close>

definition reads_return :: "vreader \<Rightarrow> bool" where
  "reads_return vread \<longleftrightarrow> (\<forall>v loc n. returns (vread v loc n))"

definition fs_returns :: "fs_ops \<Rightarrow> bool" where
  "fs_returns fs \<longleftrightarrow> (\<forall>vol. \<exists>l vol'. fat32_label fs vol = Inr (l, vol')) \<and> (\<forall>vol. \<exists>l vol'. iso9660_label fs vol = Inr (l, vol'))"

lemma returns_read [returns_rules]:
  "reads_return vread \<Longrightarrow> returns fail \<Longrightarrow> (\<And>bs. returns (k bs)) \<Longrightarrow> returns (read_or vread v loc n fail k)"
  unfolding read_or_def by (intro returns_bind returns_option) (simp add: reads_return_def)

lemma returns_probe [returns_rules]:
  assumes "fs_returns fs"
  shows "returns (probe_fs fs vol)"
proof -
  have "\<exists>l vol'. fs_get_label fs x = Inr (l, vol')" for x
  proof -
    obtain l y where f: "fat32_label fs x = Inr (l, y)" using assms unfolding fs_returns_def by blast
    obtain l' z where "iso9660_label fs y = Inr (l', z)" using assms unfolding fs_returns_def by blast
    then show ?thesis using f by (simp add: fs_get_label_def)
  qed
  then obtain l y where "fs_get_label fs (vol\<lparr>guid_valid := False\<rparr>) = Inr (l, y)" by blast
  then show ?thesis by (simp add: returns_def probe_fs_def fs_get_guid_def Let_def)
qed


lemma returns_crc_range [returns_rules]: "reads_return vread \<Longrightarrow> returns (crc32_volume_range vread v loc n crc)"
proof (induction vread v loc n crc rule: crc32_volume_range.induct)
  case (1 vread v loc n crc)
  then show ?case by (subst crc32_volume_range.simps) (auto intro!: returns_rules)
qed

lemma returns_verify [returns_rules]: "reads_return vread \<Longrightarrow> returns (gpt_verify_header vread v h lba lb budget)"
  unfolding gpt_verify_header_def gpt_header_crc_def by (intro returns_rules) 

lemma returns_candidates [returns_rules]: "reads_return vread \<Longrightarrow> returns (try_candidates vread v guess cs budget)"
  by (induction cs arbitrary: budget) (auto simp: gpt_memo_store_def Let_def intro!: returns_rules)

lemma returns_locate_loop [returns_rules]: "reads_return vread \<Longrightarrow> returns (locate_loop vread v gs budget)"
  by (induction gs arbitrary: budget)
    (auto simp: gpt_memo_none_store_def gpt_memo_store_def try_primary_def Let_def intro!: returns_rules)

lemma returns_protective [returns_rules]: "reads_return vread \<Longrightarrow> returns (protective_loop vread v is)"
  by (induction "is") (auto intro!: returns_rules)

lemma returns_gpt_get_part [returns_rules]:
  "reads_return vread \<Longrightarrow> fs_returns fs \<Longrightarrow> returns (gpt_get_part vread fs r v part)"
  unfolding gpt_get_part_def gpt_locate_header_def gpt_memo_hit_def gpt_memo_none_hit_def gpt_protective_mbr_def
  by (intro returns_rules)

lemma returns_read_entry [returns_rules]: "reads_return vread \<Longrightarrow> returns (mbr_read_entry vread v off)"
  unfolding mbr_read_entry_def by (intro returns_rules)

lemma returns_checks [returns_rules]: "reads_return vread \<Longrightarrow> returns (mbr_checks vread v cs)"
  by (induction cs) (auto intro!: returns_rules)

lemma returns_ebr_slots [returns_rules]:
  "reads_return vread \<Longrightarrow> returns (ebr_slots vread disk ext part es sec sz is link accepted)"
  by (induction "is" arbitrary: link accepted) (auto simp: Let_def intro!: returns_rules)

lemma returns_ebr_walk [returns_rules]:
  "reads_return vread \<Longrightarrow> returns (ebr_walk vread disk ext part es depth sec sz accepted)"
proof (induction "MAX_EBRS - depth" arbitrary: depth sec sz accepted rule: less_induct)
  case less
  show ?case
  proof (cases "MAX_EBRS \<le> depth + 1")
    case True
    then show ?thesis by (subst ebr_walk.simps) (simp only: if_True, intro returns_rules less.prems)
  next
    case False
    then have "MAX_EBRS - (depth + 1) < MAX_EBRS - depth" by simp
    note IH = less.hyps [OF this less.prems]
    show ?thesis by (subst ebr_walk.simps) (intro returns_rules IH less.prems)
  qed
qed

lemma returns_logical_part [returns_rules]:
  "reads_return vread \<Longrightarrow> fs_returns fs \<Longrightarrow> returns (mbr_get_logical_part vread fs r ext part)"
  unfolding mbr_get_logical_part_def by (intro returns_rules)

lemma returns_extended_slots [returns_rules]:
  assumes "reads_return vread" and "fs_returns fs"
  shows "returns (extended_slots vread fs r v part is accepted)"
proof (induction "is" arbitrary: r accepted)
  case (Cons i "is")
  show ?case unfolding extended_slots.simps by (intro returns_rules Cons assms)
qed (simp add: returns_ret)


text \<open>A disk on which every sector is an EBR that links to the first one, and file systems without names.\<close>

definition cyclic_byte :: "nat \<Rightarrow> u8" where
  "cyclic_byte a = (if a mod 512 = 510 then 0x55 else if a mod 512 = 511 then 0xaa else if a mod 512 = 450 then 0x05
     else if a mod 512 = 458 then 1 else 0)"

definition cyclic_reader :: vreader where
  "cyclic_reader v loc n = ret (Some (map (\<lambda>i. cyclic_byte (unat loc + i)) [0..<unat n]))"

definition nameless_fs :: fs_ops where
  "nameless_fs = \<lparr>fat32_label = \<lambda>vol. Inr (None, vol), iso9660_label = \<lambda>vol. Inr (None, vol)\<rparr>"


section \<open>Partitions lie on their disk\<close>

text \<open>
  A partition found on a volume: it is not empty, ends on the volume when its size is known, and
  shares its device and geometry.
\<close>

definition in_disk :: "volume \<Rightarrow> u64 \<Rightarrow> u64 \<Rightarrow> bool" where
  "in_disk vol first cnt \<longleftrightarrow>
     cnt \<noteq> 0 \<and> unat first + unat cnt < 2 ^ 64 \<and>
     (\<not> size_unknown vol \<longrightarrow> unat first + unat cnt \<le> unat (sect_count vol))"

definition part_of :: "volume \<Rightarrow> vid \<Rightarrow> volume \<Rightarrow> bool" where
  "part_of vol v r \<longleftrightarrow>
     in_disk vol (first_sect r) (sect_count r) \<and> device r = device vol \<and> sector_size r = sector_size vol \<and>
     fastest_xfer_size r = fastest_xfer_size vol \<and> is_optical r = is_optical vol \<and> vol_index r = vol_index vol \<and>
     backing_dev r = Some v"

text \<open>A volume structure before anything was read through it.\<close>

definition fresh :: "volume \<Rightarrow> bool" where
  "fresh r \<longleftrightarrow> cache r = None \<and> cache_status r = CACHE_NOT_READY"

text \<open>Volumes of the same sectors, with the same caches.\<close>

definition same_data :: "volume \<Rightarrow> volume \<Rightarrow> bool" where
  "same_data x y \<longleftrightarrow>
     device y = device x \<and> sector_size y = sector_size x \<and> fastest_xfer_size y = fastest_xfer_size x \<and>
     first_sect y = first_sect x \<and> sect_count y = sect_count x \<and>
     cache_status y = cache_status x \<and> cache y = cache x \<and> cached_block y = cached_block x"

text \<open>Volumes that differ in what a probe of the file systems sets.\<close>

definition same_part :: "volume \<Rightarrow> volume \<Rightarrow> bool" where
  "same_part x y \<longleftrightarrow>
     device y = device x \<and> sector_size y = sector_size x \<and> fastest_xfer_size y = fastest_xfer_size x \<and>
     first_sect y = first_sect x \<and> sect_count y = sect_count x \<and>
     is_optical y = is_optical x \<and> vol_index y = vol_index x \<and> vol_partition y = vol_partition x \<and>
     backing_dev y = backing_dev x \<and> extended y = extended x"

lemma part_of_same: "same_part x y \<Longrightarrow> part_of vol v y = part_of vol v x"
  by (simp add: part_of_def same_part_def)

text \<open>
  The interface of the partition code with the volumes and the file systems: the invariant of the
  store is one of the sectors and caches, a new volume on the sectors of an old one satisfies it,
  and so does what a probe leaves.
\<close>

locale partition_probe = volume_store vread inv bytes for vread inv bytes +
  fixes fs :: fs_ops
    and good :: "volume \<Rightarrow> bool"
  assumes inv_update: "inv vs \<Longrightarrow> v < length vs \<Longrightarrow> same_data (vs ! v) w \<Longrightarrow> inv (vs[v := w])"
    and inv_append: "inv vs \<Longrightarrow> good x \<Longrightarrow> inv (vs @ [x])"
    and inv_sector: "inv vs \<Longrightarrow> vol \<in> set vs \<Longrightarrow> 0 \<le> sector_size vol \<and> sector_size vol < 2 ^ 31"
    and bytes_data: "same_data x y \<Longrightarrow> bytes y = bytes x"
    and good_part: "inv vs \<Longrightarrow> vol \<in> set vs \<Longrightarrow> fresh r \<Longrightarrow> unat first + unat cnt < 2 ^ 64 \<Longrightarrow>
      good (part_volume r vol number first cnt bdev)"
    and good_data: "good x \<Longrightarrow> same_data x y \<Longrightarrow> good y"
    and probe_good: "good x \<Longrightarrow> probe_fs fs x s = Inr (y, s') \<Longrightarrow> s' = s \<and> good y \<and> same_part x y"

text \<open>The file systems only read the volume they are asked about.\<close>

definition fs_ok :: "fs_ops \<Rightarrow> arch \<Rightarrow> (nat \<Rightarrow> nat) \<Rightarrow> media \<Rightarrow> bool" where
  "fs_ok fs arch blk medium \<longleftrightarrow>
     (\<forall>vol l vol'. vol_ok arch blk medium vol \<and> fat32_label fs vol = Inr (l, vol') \<longrightarrow>
        vol_ok arch blk medium vol' \<and> same_volume vol vol') \<and>
     (\<forall>vol l vol'. vol_ok arch blk medium vol \<and> iso9660_label fs vol = Inr (l, vol') \<longrightarrow>
        vol_ok arch blk medium vol' \<and> same_volume vol vol')"

definition part_ok :: "fs_ops \<Rightarrow> arch \<Rightarrow> (nat \<Rightarrow> nat) \<Rightarrow> media \<Rightarrow> volume \<Rightarrow> bool" where
  "part_ok fs arch blk medium vol \<longleftrightarrow> fs_ok fs arch blk medium \<and> vol_ok arch blk medium vol \<and> sector_size vol < 2 ^ 31"

definition parts_ok :: "disk_reader \<Rightarrow> fs_ops \<Rightarrow> arch \<Rightarrow> (nat \<Rightarrow> nat) \<Rightarrow> media \<Rightarrow> volume list \<Rightarrow> bool" where
  "parts_ok reader fs arch blk medium vs \<longleftrightarrow>
     store_ok reader arch blk medium vs \<and> fs_ok fs arch blk medium \<and> (\<forall>vol\<in>set vs. sector_size vol < 2 ^ 31)"

lemma vol_ok_data: "same_data x y \<Longrightarrow> vol_ok arch blk medium y = vol_ok arch blk medium x"
  unfolding same_data_def vol_ok_def vol_wf_def cache_ok_def block_bytes_def in_volume_def vol_byte_def
  by (simp cong: option.case_cong)

lemma vol_bytes_data: "same_data x y \<Longrightarrow> vol_bytes medium y = vol_bytes medium x"
  unfolding same_data_def vol_bytes_def vol_byte_def by (simp add: fun_eq_iff)

lemma vol_ok_part:
  assumes "vol_ok arch blk medium vol" and "fresh r" and "unat first + unat cnt < 2 ^ 64"
  shows "vol_ok arch blk medium (part_volume r vol number first cnt bdev)"
proof -
  let ?x = "part_volume r vol number first cnt bdev"
  have f: "device ?x = device vol" "sector_size ?x = sector_size vol" "fastest_xfer_size ?x = fastest_xfer_size vol"
    "first_sect ?x = first" "sect_count ?x = cnt" "cache ?x = None" "cache_status ?x = CACHE_NOT_READY"
    using assms(2) by (simp_all add: part_volume_def fresh_def)
  then have "block_bytes ?x = block_bytes vol" by (simp add: block_bytes_def)
  then show ?thesis using assms(1,3) by (simp add: vol_ok_def vol_wf_def cache_ok_def f)
qed

lemma fs_get_label_ok:
  assumes fs: "fs_ok fs arch blk medium" and "vol_ok arch blk medium x" and "fs_get_label fs x = Inr (l, y)"
  shows "vol_ok arch blk medium y \<and> same_volume x y"
proof -
  obtain l1 x1 where f: "fat32_label fs x = Inr (l1, x1)" and r: "if l1 \<noteq> None then (l, y) = (l1, x1) else iso9660_label fs x1 = Inr (l, y)"
    using assms(3) by (cases "fat32_label fs x") (auto simp: fs_get_label_def split: if_splits)
  have 1: "vol_ok arch blk medium x1" "same_volume x x1" using fs assms(2) f unfolding fs_ok_def by blast+
  show ?thesis
  proof (cases "l1 \<noteq> None")
    case False
    then have "iso9660_label fs x1 = Inr (l, y)" using r by (simp only: if_False)
    then have "vol_ok arch blk medium y" "same_volume x1 y" using fs 1(1) unfolding fs_ok_def by blast+
    then show ?thesis using same_volume_trans [OF 1(2)] by blast
  qed (use r 1 in simp)
qed

lemma probe_fs_ok:
  assumes "fs_ok fs arch blk medium" and "vol_ok arch blk medium x" and "probe_fs fs x s = Inr (y, s')"
  shows "s' = s \<and> vol_ok arch blk medium y \<and> same_part x y"
proof -
  let ?x = "x\<lparr>guid_valid := False\<rparr>"
  have r: "res_bind (fs_get_label fs ?x) (\<lambda>(l, vol).
      Inr (case l of None \<Rightarrow> vol\<lparr>fslabel_valid := False\<rparr> | Some l \<Rightarrow> vol\<lparr>fslabel_valid := True, fslabel := l\<rparr>, s)) = Inr (y, s')"
    using assms(3) by (simp only: probe_fs_def fs_get_guid_def option.case Let_def)
  then obtain l z where l: "fs_get_label fs ?x = Inr (l, z)" by (cases "fs_get_label fs ?x") (simp_all split: prod.splits)
  have y: "y = (case l of None \<Rightarrow> z\<lparr>fslabel_valid := False\<rparr> | Some l \<Rightarrow> z\<lparr>fslabel_valid := True, fslabel := l\<rparr>)" "s' = s"
    using r l by simp_all
  have x: "same_data x ?x" "same_part x ?x" by (simp_all add: same_data_def same_part_def)
  then have "vol_ok arch blk medium z \<and> same_volume ?x z"
    using fs_get_label_ok [OF assms(1) _ l] assms(2) vol_ok_data by simp
  then have z: "vol_ok arch blk medium z" "same_part ?x z" unfolding same_volume_def same_part_def by auto
  have zy: "same_data z y" "same_part z y" by (simp_all add: y same_data_def same_part_def split: option.split)
  have "same_part x y" using x(2) z(2) zy(2) unfolding same_part_def by simp
  then show ?thesis using z(1) vol_ok_data [OF zy(1)] y(2) by simp
qed

interpretation parts: partition_probe "store_read reader arch" "parts_ok reader fs arch blk medium" "vol_bytes medium"
    fs "part_ok fs arch blk medium"
  for reader fs arch blk medium
proof
  fix s v loc n r s'
  assume ok: "parts_ok reader fs arch blk medium (vols s)" and v: "v < length (vols s)" and r: "store_read reader arch v loc n s = Inr (r, s')"
  obtain vs where vs: "s' = s\<lparr>vols := vs\<rparr>" "store_ok reader arch blk medium vs" "same_vols (vols s) vs"
    using store.read_state [OF _ v r] ok by (auto simp: parts_ok_def)
  have "sector_size (vs ! i) < 2 ^ 31" if "i < length vs" for i
  proof -
    have i: "i < length (vols s)" using same_volsD(1) [OF vs(3)] that by simp
    then have "sector_size (vs ! i) = sector_size (vols s ! i)" using same_volsD(2) [OF vs(3) i] unfolding same_volume_def by auto
    then show ?thesis using ok i by (simp add: parts_ok_def)
  qed
  then have "\<forall>vol\<in>set vs. sector_size vol < 2 ^ 31" by (metis in_set_conv_nth)
  then have "parts_ok reader fs arch blk medium vs" using vs(2) ok by (simp only: parts_ok_def simp_thms)
  then show "\<exists>vs. s' = s\<lparr>vols := vs\<rparr> \<and> parts_ok reader fs arch blk medium vs \<and> same_vols (vols s) vs"
    using vs(1,3) by blast
next
  fix vs v w
  assume ok: "parts_ok reader fs arch blk medium vs" and v: "v < length vs" and d: "same_data (vs ! v) w"
  have "vol_ok arch blk medium w" "sector_size w < 2 ^ 31"
    using ok nth_mem [OF v] d vol_ok_data [OF d] by (simp_all add: parts_ok_def store_ok_def same_data_def)
  then show "parts_ok reader fs arch blk medium (vs[v := w])"
    using ok set_update_subset_insert [of vs v w] unfolding parts_ok_def store_ok_def by blast
next
  fix x s y s'
  assume g: "part_ok fs arch blk medium x" and r: "probe_fs fs x s = Inr (y, s')"
  then have "s' = s \<and> vol_ok arch blk medium y \<and> same_part x y" using probe_fs_ok [where arch = arch and blk = blk and medium = medium, OF _ _ r] by (simp add: part_ok_def)
  then show "s' = s \<and> part_ok fs arch blk medium y \<and> same_part x y" using g by (simp add: part_ok_def same_part_def)
next
  fix vs vol r number bdev and first cnt :: u64
  assume ok: "parts_ok reader fs arch blk medium vs" and m: "vol \<in> set vs" and "fresh r" "unat first + unat cnt < 2 ^ 64"
  then have "vol_ok arch blk medium (part_volume r vol number first cnt bdev)"
    by (intro vol_ok_part) (simp_all add: parts_ok_def store_ok_def)
  then show "part_ok fs arch blk medium (part_volume r vol number first cnt bdev)"
    using ok m by (simp add: parts_ok_def part_ok_def part_volume_def)
next
  fix x y assume "part_ok fs arch blk medium x" "same_data x y"
  then show "part_ok fs arch blk medium y" using vol_ok_data [of x y] by (simp add: part_ok_def same_data_def)
next
  fix s v loc n bs s'
  assume ok: "parts_ok reader fs arch blk medium (vols s)" and v: "v < length (vols s)" and r: "store_read reader arch v loc n s = Inr (Some bs, s')"
  have ok: "store_ok reader arch blk medium (vols s)" using ok by (simp add: parts_ok_def)
  show "length bs = unat n" by (rule store.read_length [OF ok v r])
  show "bs = vol_bytes medium (vols s ! v) (unat loc) (unat n)" if "unat loc + unat n \<le> 2 ^ 64"
    by (rule store.read_bytes [OF ok v that r])
next
  fix vs x assume "parts_ok reader fs arch blk medium vs" "part_ok fs arch blk medium x"
  then show "parts_ok reader fs arch blk medium (vs @ [x])" by (simp add: parts_ok_def store_ok_def part_ok_def)
next
  fix s v loc n bs s'
  assume "v < length (vols s)" "store_read reader arch v loc n s = Inr (Some bs, s')" "\<not> size_unknown (vols s ! v)"
  then show "unat loc + unat n < 2 ^ 64" by (rule store.read_range)
next
  fix vs vol assume "parts_ok reader fs arch blk medium vs" "vol \<in> set vs"
  then show "0 \<le> sector_size vol \<and> sector_size vol < 2 ^ 31"
    by (auto simp: parts_ok_def store_ok_def vol_ok_def vol_wf_def)
qed (simp_all add: store.bytes_same store.bytes_append store.bytes_length vol_bytes_data)

section \<open>The volumes of extended partitions\<close>

text \<open>
  The memo of a walk: the sectors of the EBRs visited so far. They are distinct, and each lies in
  the extended partition.
\<close>

definition next_ebr :: "volume \<Rightarrow> nat \<Rightarrow> u64 \<Rightarrow> bool" where
  "next_ebr x depth sec \<longleftrightarrow>
     length (ebr_walk_chain x) = MAX_EBRS \<and> depth < MAX_EBRS \<and>
     distinct (take depth (ebr_walk_chain x) @ [sec]) \<and>
     (\<forall>c\<in>set (take depth (ebr_walk_chain x) @ [sec]). c < sect_count x)"

definition chain_ok :: "volume \<Rightarrow> bool" where
  "chain_ok x \<longleftrightarrow>
     length (ebr_walk_chain x) = MAX_EBRS \<and> ebr_walk_depth x < MAX_EBRS \<and>
     distinct (take (ebr_walk_depth x + 1) (ebr_walk_chain x)) \<and>
     (\<forall>c\<in>set (take (ebr_walk_depth x + 1) (ebr_walk_chain x)). c < sect_count x)"

lemma chain_ok_next: "chain_ok x \<Longrightarrow> next_ebr x (ebr_walk_depth x) (ebr_walk_chain x ! ebr_walk_depth x)"
  using take_Suc_conv_app_nth [of "ebr_walk_depth x" "ebr_walk_chain x"] by (simp add: chain_ok_def next_ebr_def)

definition ext_of :: "volume \<Rightarrow> vid \<Rightarrow> volume \<Rightarrow> bool" where
  "ext_of disk v x \<longleftrightarrow>
     part_of disk v x \<and> unat (first_sect x) < 2 ^ 54 \<and> 1 \<le> vol_partition x \<and> vol_partition x \<le> 4 \<and> chain_ok x"

definition ebr_memos :: "volume list \<Rightarrow> bool" where
  "ebr_memos vs \<longleftrightarrow>
     (\<forall>v<length vs. \<forall>e. ebr_part (vs ! v) = Some e \<longrightarrow> e < length vs \<and> ext_of (vs ! v) v (vs ! e))"

text \<open>The partition code changes only these fields of the volumes there are.\<close>

definition alike :: "volume \<Rightarrow> volume \<Rightarrow> bool" where
  "alike x y \<longleftrightarrow>
     (\<exists>p i d z c. y = x\<lparr>ebr_part := p, ebr_walk_index := i, ebr_walk_depth := d, ebr_walk_size := z, ebr_walk_chain := c\<rparr>)"

lemma alikeI:
  "y = x\<lparr>ebr_part := p, ebr_walk_index := i, ebr_walk_depth := d, ebr_walk_size := z, ebr_walk_chain := c\<rparr> \<Longrightarrow> alike x y"
  unfolding alike_def by blast

lemma alike_refl [simp]: "alike x x"
  by (rule alikeI [where p = "ebr_part x" and i = "ebr_walk_index x" and d = "ebr_walk_depth x" and z = "ebr_walk_size x" and c = "ebr_walk_chain x"]) simp

lemma alike_trans: "alike x y \<Longrightarrow> alike y z \<Longrightarrow> alike x z"
  unfolding alike_def by (elim exE) (intro exI, simp)

lemma alikeD:
  assumes "alike x y"
  shows "same_data x y" and "part_of y v = part_of x v" and "part_of d v y = part_of d v x"
    and "size_unknown y = size_unknown x" and "sect_count y = sect_count x" and "first_sect y = first_sect x"
    and "vol_partition y = vol_partition x"
proof -
  obtain p i j z c where y: "y = x\<lparr>ebr_part := p, ebr_walk_index := i, ebr_walk_depth := j, ebr_walk_size := z, ebr_walk_chain := c\<rparr>"
    using assms unfolding alike_def by blast
  show "part_of y v = part_of x v" by (rule ext) (simp add: y part_of_def in_disk_def)
  show "same_data x y" by (simp add: y same_data_def)
  show "part_of d v y = part_of d v x" by (simp add: y part_of_def)
qed (use assms in \<open>auto simp: alike_def\<close>)

definition grows :: "volume list \<Rightarrow> volume list \<Rightarrow> bool" where
  "grows us us' \<longleftrightarrow> length us \<le> length us' \<and> (\<forall>i<length us. alike (us ! i) (us' ! i))"

lemma grows_refl [simp]: "grows us us"
  by (simp add: grows_def)

lemma grows_trans: "grows us us' \<Longrightarrow> grows us' us'' \<Longrightarrow> grows us us''"
  unfolding grows_def using alike_trans by (metis order_less_le_trans order_trans)

lemma grows_update: "alike (us ! v) w \<Longrightarrow> grows us (us[v := w])"
  by (cases "v < length us") (simp_all add: grows_def nth_list_update)

lemma grows_append: "grows us (us @ [x])"
  by (simp add: grows_def nth_append)

lemma ext_of_alike: "alike d d' \<Longrightarrow> ext_of d' v x = ext_of d v x"
  by (simp add: ext_of_def alikeD(2))

text \<open>The memos stay right when one volume is changed.\<close>

lemma ebr_memos_update:
  assumes "ebr_memos us" and "v < length us" and a: "alike (us ! v) w" and "chain_ok (us ! v) \<Longrightarrow> chain_ok w"
    and e: "\<And>e. ebr_part w = Some e \<Longrightarrow> e < length us \<and> ext_of (us ! v) v (us[v := w] ! e)"
  shows "ebr_memos (us[v := w])"
  unfolding ebr_memos_def
proof (intro allI impI)
  fix u e assume u: "u < length (us[v := w])" "ebr_part (us[v := w] ! u) = Some e"
  show "e < length (us[v := w]) \<and> ext_of (us[v := w] ! u) u (us[v := w] ! e)"
  proof (cases "u = v")
    case True
    then show ?thesis using u e assms(2) ext_of_alike [OF a] by simp
  next
    case False
    then have "e < length us" "ext_of (us ! u) u (us ! e)" using assms(1) u by (auto simp: ebr_memos_def)
    moreover from this have "ext_of (us ! u) u w" if "e = v"
      using that assms(4) alikeD(3,6,7) [OF a] by (simp add: ext_of_def)
    ultimately show ?thesis using False by (cases "e = v") simp_all
  qed
qed

lemma ebr_memos_append: "ebr_memos us \<Longrightarrow> ebr_part x = None \<Longrightarrow> ebr_memos (us @ [x])"
  by (auto simp: ebr_memos_def nth_append)

lemma same_volume_ext:
  assumes "same_volume x y" and "same_volume a b"
  shows "ebr_part y = ebr_part x" and "ext_of y v b = ext_of x v a"
proof -
  obtain st c k where y: "y = x\<lparr>cache_status := st, cache := c, cached_block := k\<rparr>" using assms(1) unfolding same_volume_def by blast
  obtain st c k where b: "b = a\<lparr>cache_status := st, cache := c, cached_block := k\<rparr>" using assms(2) unfolding same_volume_def by blast
  show "ebr_part y = ebr_part x" by (simp add: y)
  show "ext_of y v b = ext_of x v a" by (simp add: y b ext_of_def part_of_def in_disk_def chain_ok_def)
qed

lemma ebr_memos_same:
  assumes "same_vols us vs"
  shows "ebr_memos vs = ebr_memos us"
proof -
  note D = same_volsD [OF assms]
  have "(ebr_part (vs ! i) = Some j \<longrightarrow> j < length us \<and> ext_of (vs ! i) i (vs ! j)) =
      (ebr_part (us ! i) = Some j \<longrightarrow> j < length us \<and> ext_of (us ! i) i (us ! j))" if "i < length us" for i j
    using same_volume_ext [OF D(2) [OF that] D(2) [of j]] same_volume_ext(1) [OF D(2) [OF that] same_volume_refl]
    by (cases "j < length us") simp_all
  then show ?thesis unfolding ebr_memos_def D(1) by simp
qed

section \<open>The partition code keeps the store\<close>

lemma gpt_valid_sect: "sect_count x = sect_count y \<Longrightarrow> gpt_valid c x = gpt_valid c y"
  by (simp add: gpt_valid_def fun_eq_iff)

lemma part_volume_same: "same_volume x y \<Longrightarrow> part_volume r y = part_volume r x"
  unfolding same_volume_def by (auto simp: part_volume_def fun_eq_iff)

lemma in_disk_range:
  assumes "partition_range_valid vol first cnt"
  shows "in_disk vol first cnt"
proof -
  obtain e where c: "cnt \<noteq> 0" "CHECKED_ADD first cnt = Some e" "size_unknown vol \<or> \<not> sect_count vol < e"
    using assms by (auto simp: partition_range_valid_def split: if_splits option.splits)
  then have "unat e = unat first + unat cnt" by (simp add: CHECKED_ADD_unat)
  then show ?thesis using c unat_bound [of e] by (auto simp: in_disk_def word_less_nat_alt)
qed

lemma in_disk_cut:
  assumes "mbr_cut_to_disk disk first cnt = Some n" and "cnt \<noteq> 0"
    and "size_unknown disk \<Longrightarrow> unat first + unat cnt < 2 ^ 64"
  shows "in_disk disk first n"
proof (cases "size_unknown disk")
  case True
  then show ?thesis using assms by (simp add: mbr_cut_to_disk_def in_disk_def)
next
  case False
  then have f: "unat first < unat (sect_count disk)"
    and n: "n = (if cnt > sect_count disk - first then sect_count disk - first else cnt)"
    using assms(1) by (auto simp: mbr_cut_to_disk_def word_le_nat_alt split: if_splits)
  have d: "unat (sect_count disk - first) = unat (sect_count disk) - unat first"
    using f by (intro unat_sub_exact) (simp add: word_le_nat_alt)
  have "unat n \<le> unat (sect_count disk) - unat first" "n \<noteq> 0"
    using n d f assms(2) by (auto simp: word_less_nat_alt unat_eq_zero [symmetric] split: if_splits)
  moreover from this have "unat first + unat n \<le> unat (sect_count disk)" using f by linarith
  moreover from this have "unat first + unat n < 2 ^ 64" using unat_bound [of "sect_count disk"] by simp
  ultimately show ?thesis by (simp add: in_disk_def)
qed

context partition_probe
begin

lemma memo_ok_update:
  assumes "memo_ok bytes us M" and "v < length us" and "same_data (us ! v) w"
  shows "memo_ok bytes (us[v := w]) M"
proof -
  obtain V h lba lb where M: "M = (V, h, lba, lb)" by (cases M)
  have "sect_count w = sect_count (us ! v)" using assms(3) by (simp add: same_data_def)
  note w = this bytes_data [OF assms(3)] gpt_valid_sect [OF this]
  show ?thesis
  proof (cases V)
    case (Some u)
    then show ?thesis using assms(1,2) w by (cases "u = v") (simp_all add: memo_ok_def M)
  qed (simp add: memo_ok_def M)
qed

lemma memo_ok_append: "memo_ok bytes us M \<Longrightarrow> memo_ok bytes (us @ [x]) M"
  by (cases M; cases "fst M") (auto simp: memo_ok_def nth_append)

lemma searchingE:
  assumes "searching us s"
  obtains M where "inv (vols s)" "same_vols us (vols s)" "memo s = M" "memo_ok bytes us M"
  using assms by (auto simp: searching_def since_def)

lemma searchingI: "inv (vols s) \<Longrightarrow> same_vols us (vols s) \<Longrightarrow> memo_ok bytes us (memo s) \<Longrightarrow> searching us s"
  unfolding searching_def since_def by blast

lemma hoare_set:
  assumes v: "v < length us" and f: "\<And>x y. same_volume x y \<Longrightarrow> same_volume (f x) (f y)" and d: "\<And>x. same_data x (f x)"
  shows "hoare (searching us) (set_vol v f) (\<lambda>_. searching (us[v := f (us ! v)]))"
proof (rule hoare_set_vol, elim searchingE, rule searchingI)
  fix s M assume s: "inv (vols s)" "same_vols us (vols s)" "memo s = M" and M: "memo_ok bytes us M"
  note D = same_volsD [OF s(2)]
  let ?s = "s\<lparr>vols := (vols s)[v := f (vols s ! v)]\<rparr>"
  show "same_vols (us[v := f (us ! v)]) (vols ?s)"
    using s(2) f [OF D(2) [OF v]] unfolding same_vols_def by (simp add: list_all2_update_cong)
  show "inv (vols ?s)" using inv_update [OF s(1) _ d] v D(1) by simp
  show "memo_ok bytes (us[v := f (us ! v)]) (memo ?s)" using s(3) memo_ok_update [OF M v d] by simp
qed

lemma hoare_new:
  assumes "good x"
  shows "hoare (searching us) (new_vol x) (\<lambda>e s. searching (us @ [x]) s \<and> e = length us)"
proof (rule hoare_new_vol, elim searchingE, intro conjI searchingI)
  fix s M assume s: "inv (vols s)" "same_vols us (vols s)" "memo s = M" and M: "memo_ok bytes us M"
  let ?s = "s\<lparr>vols := vols s @ [x]\<rparr>"
  show "same_vols (us @ [x]) (vols ?s)" using s(2) unfolding same_vols_def by (auto intro: list_all2_appendI)
  show "inv (vols ?s)" using inv_append [OF s(1) assms] by simp
  show "memo_ok bytes (us @ [x]) (memo ?s)" using s(3) memo_ok_append [OF M] by simp
  show "length (vols s) = length us" by (rule same_volsD(1) [OF s(2)])
qed

text \<open>Facts of the volumes in such a state.\<close>

lemma searching_sector:
  assumes "searching us s" and "v < length us"
  shows "0 \<le> sector_size (us ! v) \<and> sector_size (us ! v) < 2 ^ 31"
proof -
  have s: "inv (vols s)" "same_vols us (vols s)" using assms(1) by (auto elim: searchingE)
  note D = same_volsD [OF s(2)]
  have e: "sector_size (vols s ! v) = sector_size (us ! v)" using D(2) [OF assms(2)] unfolding same_volume_def by auto
  have "v < length (vols s)" using assms(2) D(1) by simp
  then show ?thesis using inv_sector [OF s(1) nth_mem, of v] e by simp
qed

lemma searching_good:
  assumes "searching us s" and "v < length us" and "fresh r" and "unat first + unat cnt < 2 ^ 64"
  shows "good (part_volume r (us ! v) number first cnt b)"
proof -
  have s: "inv (vols s)" "same_vols us (vols s)" using assms(1) by (auto elim: searchingE)
  note D = same_volsD [OF s(2)]
  have "good (part_volume r (vols s ! v) number first cnt b)"
    using good_part [OF s(1) nth_mem assms(3,4)] assms(2) D(1) by simp
  then show ?thesis using part_volume_same [OF D(2) [OF assms(2)]] by simp
qed

lemma hoare_probe:
  assumes "good x" and "part_of d v x"
  shows "hoare (searching us) (probe_fs fs x) (\<lambda>y s. searching us s \<and> good y \<and> part_of d v y)"
  unfolding hoare_def using probe_good [OF assms(1)] part_of_same assms(2) by blast

text \<open>What a call comes to.\<close>

definition outcome :: "volume list \<Rightarrow> vid \<Rightarrow> volume \<Rightarrow> part_status \<Rightarrow> volume \<Rightarrow> pstate \<Rightarrow> bool" where
  "outcome us v r st r' s \<longleftrightarrow>
     (\<exists>us'. searching us' s \<and> grows us us' \<and> ebr_memos us') \<and>
     (if st = Part_Found then good r' \<and> part_of (us ! v) v r' else r' = r)"

lemma outcome_none: "searching us s \<Longrightarrow> ebr_memos us \<Longrightarrow> st \<noteq> Part_Found \<Longrightarrow> outcome us v r st r s"
  unfolding outcome_def using grows_refl by auto

lemma outcome_found:
  "searching us s \<Longrightarrow> ebr_memos us \<Longrightarrow> good r' \<Longrightarrow> part_of (us ! v) v r' \<Longrightarrow> outcome us v r Part_Found r' s"
  unfolding outcome_def using grows_refl by auto

lemma outcome_grows:
  assumes "grows us us1" and "v < length us" and "outcome us1 v r st r' s"
  shows "outcome us v r st r' s"
proof -
  have "part_of (us1 ! v) v = part_of (us ! v) v" using assms(1,2) alikeD(2) by (simp add: grows_def)
  then show ?thesis using assms(3) grows_trans [OF assms(1)] unfolding outcome_def by auto
qed

text \<open>The end of each: the new volume is probed and named.\<close>

lemma hoare_found:
  assumes "u < length us" and "fresh r" and d: "same_data (part_volume r (us ! u) number first cnt b) x" and p: "part_of (us ! v) v x"
    and k: "\<And>y. good y \<Longrightarrow> part_of (us ! v) v y \<Longrightarrow> hoare (searching us) (k y) Q"
  shows "hoare (searching us) (act_bind (probe_fs fs x) k) Q"
proof (rule hoare_fact)
  have "first_sect x = first" "sect_count x = cnt" using d by (simp_all add: same_data_def part_volume_def)
  then have "unat first + unat cnt < 2 ^ 64" using p by (simp add: part_of_def in_disk_def)
  then show "good x" if "searching us s" for s
    using searching_good [OF that assms(1,2)] good_data [OF _ d] by blast
next
  assume g: "good x"
  show "hoare (searching us) (act_bind (probe_fs fs x) k) Q"
  proof (rule hoare_bind [OF hoare_probe [OF g p]])
    show "hoare (\<lambda>s. searching us s \<and> good y \<and> part_of (us ! v) v y) (k y) Q" for y
      by (rule hoare_pre_fact) (use k in blast)
  qed
qed

lemma outcome_named:
  assumes "ebr_memos us" and "good y" and "part_of (us ! v) v y" and "same_data y z" and "same_part y z"
  shows "hoare (searching us) (ret (Part_Found, z)) (\<lambda>(st, r'). outcome us v r st r')"
  by (rule hoare_ret) (use assms(1,3) outcome_found good_data [OF assms(2,4)] part_of_same [OF assms(5)] in simp)

lemma hoare_named:
  assumes "ebr_memos us" and "u < length us" and "fresh r" and "same_data (part_volume r (us ! u) number first cnt b) x"
    and "part_of (us ! v) v x" and f: "\<And>y. same_data y (f y)" "\<And>y. same_part y (f y)"
  shows "hoare (searching us) (act_bind (probe_fs fs x) (\<lambda>y. ret (Part_Found, f y))) (\<lambda>(st, r'). outcome us v r st r')"
  by (rule hoare_found [OF assms(2-5)]) (rule outcome_named [OF assms(1) _ _ f])

lemma part_of_volume:
  "in_disk vol first cnt \<Longrightarrow> part_of vol v (part_volume r vol number first cnt (Some v))"
  by (simp add: part_of_def part_volume_def)

lemma hoare_gpt_get_part:
  assumes v: "v < length us" and m: "ebr_memos us" and r: "fresh r"
  shows "hoare (searching us) (gpt_get_part vread fs r v part) (\<lambda>(st, r'). outcome us v r st r')"
proof -
  have none: "hoare (searching us) (ret (st, r)) (\<lambda>(st, r'). outcome us v r st r')" if "st \<noteq> Part_Found" for st
    using outcome_none m that by (auto intro: hoare_ret)
  have found: "hoare (searching us) (act_bind (probe_fs fs (part_volume r vol n first cnt (Some v))) (\<lambda>r. ret (Part_Found,
      r\<lparr>part_guid_valid := True, part_guid := a, part_type_guid_valid := True, part_type_guid := b\<rparr>)))
      (\<lambda>(st, r'). outcome us v r st r')"
    if "same_volume (us ! v) vol" "partition_range_valid vol first cnt" for vol n first cnt a b
  proof -
    have "part_volume r vol = part_volume r (us ! v)" by (rule part_volume_same [OF that(1)])
    moreover have "in_disk (us ! v) first cnt"
      using in_disk_range [OF that(2)] that(1) unfolding same_volume_def by (auto simp: in_disk_def)
    ultimately show ?thesis
      by (simp only:) (rule hoare_named [OF m v r _ part_of_volume], simp_all add: same_data_def same_part_def)
  qed
  have locate: "hoare (searching us) (gpt_locate_header vread v) (\<lambda>_. searching us)"
    by (rule hoare_post [OF hoare_locate [OF v]]) simp
  show ?thesis
    unfolding gpt_get_part_def
    by (intro hoare_bind [OF locate] hoare_option hoare_prod hoare_Let hoare_if none found hoare_search_read [OF v]
        hoare_search_vol [OF v]) simp_all
qed

end

lemma ebr_step_alike:
  "alike x (x\<lparr>ebr_walk_index := a, ebr_walk_depth := d, ebr_walk_chain := c, ebr_walk_size := z\<rparr>)"
  by (rule alikeI [where p = "ebr_part x" and i = a and d = d and z = z and c = c]) simp

lemma ebr_step_chain:
  assumes "next_ebr x d sec"
  shows "chain_ok (x\<lparr>ebr_walk_index := a, ebr_walk_depth := d, ebr_walk_chain := (ebr_walk_chain x)[d := sec], ebr_walk_size := z\<rparr>)"
proof -
  have "d < length (ebr_walk_chain x)" using assms by (simp add: next_ebr_def)
  then have "take (d + 1) ((ebr_walk_chain x)[d := sec]) = take d (ebr_walk_chain x) @ [sec]"
    by (simp add: take_Suc_conv_app_nth)
  then show ?thesis using assms by (simp add: chain_ok_def next_ebr_def)
qed

lemma ebr_memos_walk:
  assumes "ebr_memos us" and "v < length us" and "alike (us ! v) w" and "chain_ok w" and "ebr_part w = ebr_part (us ! v)"
  shows "ebr_memos (us[v := w])"
proof (rule ebr_memos_update [OF assms(1-4)])
  fix e assume "ebr_part w = Some e"
  then have e: "e < length us" "ext_of (us ! v) v (us ! e)" using assms(1,2,5) by (auto simp: ebr_memos_def)
  moreover have "ext_of (us ! v) v w" if "e = v"
    using e that assms(4) alikeD(3,6,7) [OF assms(3)] by (simp add: ext_of_def)
  ultimately show "e < length us \<and> ext_of (us ! v) v (us[v := w] ! e)" using assms(2) by (cases "e = v") simp_all
qed

lemma next_ebr_chain:
  assumes "chain_ok x" and "sec \<notin> set (take (ebr_walk_depth x + 1) (ebr_walk_chain x))" and "ebr_walk_depth x + 1 < MAX_EBRS"
    and "sec < sect_count x"
  shows "next_ebr x (ebr_walk_depth x + 1) sec"
  using assms by (auto simp: chain_ok_def next_ebr_def)

lemma same_volume_step:
  assumes "same_volume x y"
  shows "same_volume (x\<lparr>ebr_walk_index := a, ebr_walk_depth := d, ebr_walk_chain := (ebr_walk_chain x)[d := sec], ebr_walk_size := z\<rparr>)
      (y\<lparr>ebr_walk_index := a, ebr_walk_depth := d, ebr_walk_chain := (ebr_walk_chain y)[d := sec], ebr_walk_size := z\<rparr>)"
    and "same_volume (x\<lparr>ebr_part := p\<rparr>) (y\<lparr>ebr_part := p\<rparr>)"
proof -
  obtain st c k where y: "y = x\<lparr>cache_status := st, cache := c, cached_block := k\<rparr>" using assms unfolding same_volume_def by blast
  show "same_volume (x\<lparr>ebr_walk_index := a, ebr_walk_depth := d, ebr_walk_chain := (ebr_walk_chain x)[d := sec], ebr_walk_size := z\<rparr>)
      (y\<lparr>ebr_walk_index := a, ebr_walk_depth := d, ebr_walk_chain := (ebr_walk_chain y)[d := sec], ebr_walk_size := z\<rparr>)"
    "same_volume (x\<lparr>ebr_part := p\<rparr>) (y\<lparr>ebr_part := p\<rparr>)"
    unfolding y same_volume_def by (intro exI [of _ st] exI [of _ c] exI [of _ k], cases x, simp)+
qed

lemma mult_small:
  fixes x :: u32
  assumes "0 \<le> n" and "n < 2 ^ 31"
  shows "unat (ucast x * (if b then 1 else of_int n div 512) :: u64) < 2 ^ 54"
proof -
  have u: "unat (ucast x :: u64) < 2 ^ 32" using unat_bound [of x] by (simp add: unat_u32_u64)
  have n: "unat (of_int n :: u64) = nat n"
  proof -
    have "(of_int n :: u64) = of_nat (nat n)" using assms(1) by (simp add: of_nat_nat)
    moreover have "nat n < 2 ^ LENGTH(64)" using assms(2) by simp
    ultimately show ?thesis by (simp only: of_nat_inverse)
  qed
  have m: "unat (if b then 1 else of_int n div 512 :: u64) \<le> 2 ^ 22"
    using div_le_mono [of "nat n" "2 ^ 31" 512] assms n by (simp add: unat_div)
  have "unat (ucast x :: u64) * unat (if b then 1 else of_int n div 512 :: u64) \<le> unat (ucast x :: u64) * 2 ^ 22"
    using m by (rule mult_le_mono2)
  also have "\<dots> < 2 ^ 54" using u by simp
  finally show ?thesis by (simp add: unat_mult_exact)
qed

lemma ebr_found_none: "ebr_found disk ext sec c e a = Slots_Return st a' \<Longrightarrow> st \<noteq> Part_Found"
  by (auto simp: ebr_found_def split: if_splits option.splits)

lemma in_disk_ebr:
  assumes "ebr_found disk ext ebr_sector (mbr_logical_entry_contained es ebr_sector e) e a = Slots_Found first cnt a'"
    and "part_sect_count e \<noteq> 0" and "unat (first_sect ext) < 2 ^ 54" and "unat es < 2 ^ 54"
  shows "in_disk disk first cnt"
proof -
  obtain rel where rel: "CHECKED_ADD ebr_sector (part_first_sect e) = Some rel" and f: "CHECKED_ADD (first_sect ext) rel = Some first"
    and cut: "mbr_cut_to_disk disk first (part_sect_count e) = Some cnt"
    and c: "size_unknown disk \<Longrightarrow> mbr_logical_entry_contained es ebr_sector e"
    using assms(1) by (auto simp: ebr_found_def split: if_splits option.splits)
  have "unat first + unat (part_sect_count e) < 2 ^ 64" if u: "size_unknown disk"
  proof -
    obtain stop where "CHECKED_ADD rel (part_sect_count e) = Some stop" "stop \<le> es"
      using c [OF u] rel by (auto simp: mbr_logical_entry_contained_def split: option.splits)
    then have "unat rel + unat (part_sect_count e) \<le> unat es" using CHECKED_ADD_unat by (fastforce simp: word_le_nat_alt)
    then show ?thesis using CHECKED_ADD_unat [OF f] assms(3,4) by simp
  qed
  then show ?thesis by (rule in_disk_cut [OF cut assms(2)])
qed

context partition_probe
begin

section \<open>MBR partitions\<close>

text \<open>The sectors of an entry are 32-bit numbers of blocks, so sums of two of them do not wrap.\<close>

definition small :: "mbr_part \<Rightarrow> bool" where
  "small e \<longleftrightarrow> unat (part_first_sect e) < 2 ^ 54 \<and> unat (part_sect_count e) < 2 ^ 54"

lemma hoare_read_entry:
  assumes v: "v < length us"
  shows "hoare (searching us) (mbr_read_entry vread v off) (\<lambda>r s. searching us s \<and> (\<forall>e. r = Some e \<longrightarrow> small e))"
  unfolding mbr_read_entry_def
proof (rule hoare_fact [OF searching_sector [OF _ v]], assumption, intro hoare_search_read [OF v] hoare_search_vol [OF v] hoare_Let)
  show "hoare (searching us) (ret None) (\<lambda>r s. searching us s \<and> (\<forall>e. r = Some e \<longrightarrow> small e))"
    by (auto intro: hoare_ret)
next
  fix bs vol
  assume ss: "0 \<le> sector_size (us ! v) \<and> sector_size (us ! v) < 2 ^ 31" and sv: "same_volume (us ! v) vol"
  let ?m = "if is_optical vol then 1 else of_int (sector_size vol) div 512 :: u64"
  have "unat (ucast (x::u32) * ?m) < 2 ^ 54" for x
  proof -
    have "sector_size vol = sector_size (us ! v)" using sv unfolding same_volume_def by auto
    then show ?thesis using mult_small [of "sector_size vol"] ss by simp
  qed
  then show "hoare (searching us) (ret (Some \<lparr>part_type = entry_type (mbr_entry_of bs),
      part_first_sect = ucast (entry_first_sect (mbr_entry_of bs)) * ?m,
      part_sect_count = ucast (entry_sect_count (mbr_entry_of bs)) * ?m\<rparr>))
    (\<lambda>r s. searching us s \<and> (\<forall>e. r = Some e \<longrightarrow> small e))"
    by (auto simp: small_def intro: hoare_ret)
qed

lemma hoare_is_valid_mbr:
  assumes v: "v < length us"
  shows "hoare (searching us) (is_valid_mbr vread v) (\<lambda>_. searching us)"
proof -
  have "hoare (searching us) (mbr_checks vread v cs) (\<lambda>_. searching us)" for cs
  proof (induction cs)
    case (Cons c cs)
    then show ?case by (cases c) (auto intro!: hoare_ret hoare_search_read [OF v])
  qed (auto intro: hoare_ret)
  then show ?thesis unfolding is_valid_mbr_def by blast
qed

text \<open>The partition an EBR describes lies on the disk.\<close>

fun slots_ok :: "volume \<Rightarrow> slots \<Rightarrow> bool" where
  "slots_ok disk (Slots_Found first cnt a) = in_disk disk first cnt"
| "slots_ok disk (Slots_Return st a) = (st \<noteq> Part_Found)"
| "slots_ok disk (Slots_Done l a) = True"

lemma hoare_ebr_slots:
  assumes v: "v < length us" and x: "x < length us" "unat (first_sect (us ! x)) < 2 ^ 54" and es: "unat es < 2 ^ 54"
  shows "hoare (searching us) (ebr_slots vread v x part es sec sz is link a) (\<lambda>r s. searching us s \<and> slots_ok (us ! v) r)"
proof (induction "is" arbitrary: link a)
  case (Cons i "is")
  let ?Q = "\<lambda>r s. searching us s \<and> slots_ok (us ! v) r"
  have slot: "hoare (searching us) (ret (ebr_found d y sec (mbr_logical_entry_contained es sec e) e a)) ?Q"
    if "same_volume (us ! v) d" "same_volume (us ! x) y" "part_sect_count e \<noteq> 0" for d y e
  proof -
    have y: "unat (first_sect y) < 2 ^ 54" using that(2) x(2) unfolding same_volume_def by auto
    have "in_disk d = in_disk (us ! v)" using that(1) unfolding same_volume_def by (auto simp: in_disk_def fun_eq_iff)
    then have "slots_ok (us ! v) (ebr_found d y sec (mbr_logical_entry_contained es sec e) e a)"
      using in_disk_ebr [of d y sec es e a, OF _ that(3) y es] ebr_found_none [of d y sec _ e a]
      by (cases "ebr_found d y sec (mbr_logical_entry_contained es sec e) e a") simp_all
    then show ?thesis by (auto intro: hoare_ret)
  qed
  have none: "hoare (searching us) (ret (Slots_Return END_OF_TABLE a)) ?Q" by (auto intro: hoare_ret)
  have read: "hoare (searching us) (mbr_read_entry vread x off) (\<lambda>_. searching us)" for off
    by (rule hoare_post [OF hoare_read_entry [OF x(1)]]) simp
  show ?case
    unfolding ebr_slots.simps
    by (intro hoare_bind [OF read] hoare_option hoare_Let hoare_if hoare_search_vol [OF v] hoare_search_vol [OF x(1)]
        Cons none slot)
qed (auto intro: hoare_ret)

text \<open>The walk along a chain keeps the memo right, sector by sector.\<close>

fun walk_ok :: "volume \<Rightarrow> walk \<Rightarrow> bool" where
  "walk_ok disk (Walk_Found first cnt a) = in_disk disk first cnt"
| "walk_ok disk (Walk_Return st a) = (st \<noteq> Part_Found)"

definition walked :: "volume list \<Rightarrow> vid \<Rightarrow> walk \<Rightarrow> pstate \<Rightarrow> bool" where
  "walked us v w s \<longleftrightarrow> (\<exists>us'. searching us' s \<and> grows us us' \<and> ebr_memos us') \<and> walk_ok (us ! v) w"

lemma walkedI: "searching us s \<Longrightarrow> ebr_memos us \<Longrightarrow> walk_ok (us ! v) w \<Longrightarrow> walked us v w s"
  unfolding walked_def using grows_refl by blast

lemma walked_grows:
  assumes "grows us us1" and "v < length us" and "walked us1 v w s"
  shows "walked us v w s"
proof -
  have "alike (us ! v) (us1 ! v)" using assms(1,2) by (simp add: grows_def)
  then have "in_disk (us1 ! v) = in_disk (us ! v)" by (auto simp: in_disk_def fun_eq_iff dest: alikeD(5))
  then have "walk_ok (us1 ! v) w = walk_ok (us ! v) w" by (cases w) simp_all
  then show ?thesis using assms(3) grows_trans [OF assms(1)] unfolding walked_def by blast
qed

lemma hoare_ebr_walk:
  assumes "v < length us" and "x < length us" and "ebr_memos us" and "ext_of (us ! v) v (us ! x)"
    and "next_ebr (us ! x) depth sec" and "unat es < 2 ^ 54"
  shows "hoare (searching us) (ebr_walk vread v x part es depth sec sz a) (walked us v)"
  using assms
proof (induction "MAX_EBRS - depth" arbitrary: us depth sec sz a rule: less_induct)
  case less
  let ?f = "\<lambda>y. y\<lparr>ebr_walk_index := a, ebr_walk_depth := depth, ebr_walk_chain := (ebr_walk_chain y)[depth := sec], ebr_walk_size := sz\<rparr>"
  define w where "w = ?f (us ! x)"
  define us1 where "us1 = us[x := w]"
  have al: "alike (us ! x) w" unfolding w_def by (rule ebr_step_alike)
  have chain: "chain_ok w" unfolding w_def by (rule ebr_step_chain [OF less.prems(5)])
  have m: "ebr_memos us1" unfolding us1_def by (rule ebr_memos_walk [OF less.prems(3,2) al chain]) (simp add: w_def)
  have g: "grows us us1" unfolding us1_def by (rule grows_update [OF al])
  have u: "us1 ! x = w" "length us1 = length us" using less.prems(2) by (simp_all add: us1_def)
  have v1: "v < length us1" "x < length us1" using less.prems u by simp_all
  have av: "alike (us ! v) (us1 ! v)" using g less.prems(1) by (simp add: grows_def)
  have ext: "ext_of (us1 ! v) v (us1 ! x)"
    using less.prems(4) u alikeD(3,6,7) [OF al] chain alikeD(2) [OF av] by (simp add: ext_of_def)
  then have f54: "unat (first_sect (us1 ! x)) < 2 ^ 54" by (simp add: ext_of_def)
  have stop: "hoare (searching us1) (ret (Walk_Return st c)) (walked us1 v)" if "st \<noteq> Part_Found" for st c
    by (rule hoare_ret, rule walkedI) (simp_all add: m that)
  have stop_end: "hoare (searching us1) (ret (Walk_Return END_OF_TABLE c)) (walked us1 v)" for c by (rule stop) simp
  have found: "hoare (\<lambda>s. searching us1 s \<and> in_disk (us1 ! v) first cnt) (ret (Walk_Found first cnt c)) (walked us1 v)" for first cnt c
    by (rule hoare_ret, rule walkedI) (simp_all add: m)
  have next_step: "hoare (searching us1) (get_vol x (\<lambda>y.
      if lf \<in> set (take (depth + 1) (ebr_walk_chain y)) then ret (Walk_Return END_OF_TABLE c)
      else if depth + 1 \<ge> MAX_EBRS then ret (Walk_Return END_OF_TABLE c)
      else if lf \<ge> sect_count y then ret (Walk_Return END_OF_TABLE c)
      else ebr_walk vread v x part es (depth + 1) lf lc c)) (walked us1 v)" for lf lc c
  proof (intro hoare_search_vol [OF v1(2)] hoare_if stop_end)
    fix y assume sv: "same_volume (us1 ! x) y" and c: "lf \<notin> set (take (depth + 1) (ebr_walk_chain y))"
      "\<not> MAX_EBRS \<le> depth + 1" "\<not> sect_count y \<le> lf"
    have y: "ebr_walk_chain y = ebr_walk_chain w" "sect_count y = sect_count w" using sv u(1) unfolding same_volume_def by auto
    have "ebr_walk_depth w = depth" by (simp add: w_def)
    then have "next_ebr (us1 ! x) (depth + 1) lf" using next_ebr_chain [OF chain] c y u(1) by simp
    then show "hoare (searching us1) (ebr_walk vread v x part es (depth + 1) lf lc c) (walked us1 v)"
      using less.hyps [OF _ v1 m ext _ less.prems(6)] c(2) by simp
  qed
  have set: "hoare (searching us) (set_vol x ?f) (\<lambda>_. searching us1)"
    unfolding us1_def w_def by (rule hoare_set [OF less.prems(2) same_volume_step(1)]) (simp_all add: same_data_def)
  show ?case
    unfolding ebr_walk.simps [of _ _ _ _ _ depth]
    apply (rule hoare_bind [OF set], rule hoare_post [where Q = "walked us1 v"])
     apply (intro hoare_search_read [OF v1(2)] hoare_if stop_end)
     apply (rule hoare_bind [OF hoare_ebr_slots [OF v1 f54 less.prems(6)]])
    subgoal for _ _ r by (cases r) (use next_step in \<open>auto simp: found stop_end intro: hoare_pre_fact stop split: option.splits\<close>)
    apply (erule walked_grows [OF g less.prems(1)])
    done
qed

lemma hoare_walked:
  assumes "\<And>us'. grows us us' \<Longrightarrow> ebr_memos us' \<Longrightarrow> walk_ok (us ! v) w \<Longrightarrow> hoare (searching us') k Q"
  shows "hoare (walked us v w) k Q"
  using assms unfolding hoare_def walked_def by blast

lemma part_of_logical:
  assumes "part_of disk v ext" and "in_disk disk first cnt"
  shows "part_of disk v ((part_volume r ext n first cnt (Some v))\<lparr>extended := x\<rparr>)"
  using assms by (simp add: part_of_def part_volume_def)

lemma hoare_logical_found:
  assumes "v < length us" and x: "x < length us" and m: "ebr_memos us" and p: "part_of (us ! v) v (us ! x)"
    and r: "fresh r" and d: "in_disk (us ! v) first cnt"
  shows "hoare (searching us) (get_vol x (\<lambda>y.
      act_bind (probe_fs fs ((part_volume r y n first cnt (backing_dev y))\<lparr>extended := Some x\<rparr>)) (\<lambda>r.
        ret (Part_Found, r\<lparr>part_guid_valid := False, part_type_guid_valid := False\<rparr>, a))))
    (\<lambda>(st, r', _). outcome us v r st r')"
proof (rule hoare_search_vol [OF x])
  fix y assume sv: "same_volume (us ! x) y"
  have y: "part_volume r y = part_volume r (us ! x)" "backing_dev y = Some v"
    using part_volume_same [OF sv] p sv by (auto simp: part_of_def same_volume_def)
  have named: "hoare (searching us) (ret (Part_Found, z\<lparr>part_guid_valid := False, part_type_guid_valid := False\<rparr>, a))
      (\<lambda>(st, r', _). outcome us v r st r')" if "good z" "part_of (us ! v) v z" for z
  proof -
    let ?z = "z\<lparr>part_guid_valid := False, part_type_guid_valid := False\<rparr>"
    have "good ?z" using good_data [OF that(1)] by (simp add: same_data_def)
    moreover have "part_of (us ! v) v ?z" using that(2) part_of_same [of z ?z] by (simp add: same_part_def)
    ultimately show ?thesis using outcome_found m by (auto intro: hoare_ret)
  qed
  show "hoare (searching us) (act_bind (probe_fs fs ((part_volume r y n first cnt (backing_dev y))\<lparr>extended := Some x\<rparr>)) (\<lambda>r.
        ret (Part_Found, r\<lparr>part_guid_valid := False, part_type_guid_valid := False\<rparr>, a)))
    (\<lambda>(st, r', _). outcome us v r st r')"
    unfolding y by (rule hoare_found [OF x r _ part_of_logical [OF p d]]) (simp_all add: same_data_def named)
qed

lemma hoare_walk_result:
  assumes v: "v < length us" and x: "x < length us" and p: "part_of (us ! v) v (us ! x)" and r: "fresh r"
  shows "hoare (walked us v w) (case w of Walk_Return st a \<Rightarrow> ret (st, r, a)
      | Walk_Found first cnt a \<Rightarrow> get_vol x (\<lambda>y.
          act_bind (probe_fs fs ((part_volume r y n first cnt (backing_dev y))\<lparr>extended := Some x\<rparr>)) (\<lambda>r.
            ret (Part_Found, r\<lparr>part_guid_valid := False, part_type_guid_valid := False\<rparr>, a))))
    (\<lambda>(st, r', _). outcome us v r st r')"
proof (rule hoare_walked)
  fix us' assume g: "grows us us'" and m: "ebr_memos us'" and w: "walk_ok (us ! v) w"
  have v': "v < length us'" "x < length us'" using g v x by (simp_all add: grows_def)
  have al: "alike (us ! v) (us' ! v)" "alike (us ! x) (us' ! x)" using g v x by (simp_all add: grows_def)
  have p': "part_of (us' ! v) v (us' ! x)" using p alikeD(2) [OF al(1)] alikeD(3) [OF al(2)] by simp
  have d: "in_disk (us' ! v) = in_disk (us ! v)" using alikeD(5) [OF al(1)] by (simp add: in_disk_def fun_eq_iff)
  have lift: "hoare P k (\<lambda>(st, r', _). outcome us v r st r')" if "hoare P k (\<lambda>(st, r', _). outcome us' v r st r')"
    for P and k :: "(part_status \<times> volume \<times> int) act"
    by (rule hoare_post [OF that]) (auto intro: outcome_grows [OF g v])
  show "hoare (searching us') (case w of Walk_Return st a \<Rightarrow> ret (st, r, a)
      | Walk_Found first cnt a \<Rightarrow> get_vol x (\<lambda>y.
          act_bind (probe_fs fs ((part_volume r y n first cnt (backing_dev y))\<lparr>extended := Some x\<rparr>)) (\<lambda>r.
            ret (Part_Found, r\<lparr>part_guid_valid := False, part_type_guid_valid := False\<rparr>, a))))
    (\<lambda>(st, r', _). outcome us v r st r')"
  proof (rule lift, cases w)
    case (Walk_Return st a)
    then show "hoare (searching us') (case w of Walk_Return st a \<Rightarrow> ret (st, r, a) | Walk_Found first cnt a \<Rightarrow> get_vol x (\<lambda>y.
          act_bind (probe_fs fs ((part_volume r y n first cnt (backing_dev y))\<lparr>extended := Some x\<rparr>)) (\<lambda>r.
            ret (Part_Found, r\<lparr>part_guid_valid := False, part_type_guid_valid := False\<rparr>, a))))
      (\<lambda>(st, r', _). outcome us' v r st r')" using w outcome_none m by (auto intro: hoare_ret)
  qed (use hoare_logical_found [OF v' m p' r] w d in simp)
qed

lemma hoare_logical_part:
  assumes v: "v < length us" and x: "x < length us" and m: "ebr_memos us" and e: "ext_of (us ! v) v (us ! x)" and r: "fresh r"
  shows "hoare (searching us) (mbr_get_logical_part vread fs r x part) (\<lambda>(st, r', _). outcome us v r st r')"
  unfolding mbr_get_logical_part_def
proof (rule hoare_search_vol [OF x], unfold Let_def, goal_cases)
  case (1 y)
  have y: "the (backing_dev y) = v" "ebr_walk_chain y = ebr_walk_chain (us ! x)" "ebr_walk_depth y = ebr_walk_depth (us ! x)"
    using e 1 by (auto simp: ext_of_def part_of_def same_volume_def)
  have "next_ebr (us ! x) (ebr_walk_depth y) (ebr_walk_chain y ! ebr_walk_depth y)"
    using e chain_ok_next unfolding y by (simp add: ext_of_def)
  note walk = hoare_ebr_walk [OF v x m e this]
  have none: "hoare (searching us) (ret (END_OF_TABLE, r, a)) (\<lambda>(st, r', _). outcome us v r st r')" for a
    using outcome_none m by (auto intro: hoare_ret)
  have p: "part_of (us ! v) v (us ! x)" using e by (simp add: ext_of_def)
  show ?case
    unfolding y(1)
    by (rule hoare_bind [OF hoare_read_entry [OF v]], rule hoare_pre_fact, rule hoare_option [OF none],
        rule hoare_bind [OF walk hoare_walk_result [OF v x p r]]) (simp add: small_def)
qed

text \<open>A new extended partition.\<close>

lemma hoare_continue:
  assumes v: "v < length us" and e: "e \<noteq> Part_Found"
    and k: "\<And>us'. grows us us' \<Longrightarrow> ebr_memos us' \<Longrightarrow> hoare (searching us') (k r) (\<lambda>(st, r'). outcome us' v r st r')"
  shows "hoare (outcome us v r st r') (if st \<noteq> e then ret (st, r') else k r') (\<lambda>(st, r'). outcome us v r st r')"
proof (rule hoare_if)
  show "hoare (outcome us v r st r') (ret (st, r')) (\<lambda>(st, r'). outcome us v r st r')" by (rule hoare_ret) simp
next
  assume st: "\<not> st \<noteq> e"
  show "hoare (outcome us v r st r') (k r') (\<lambda>(st, r'). outcome us v r st r')"
    unfolding hoare_def
  proof (intro allI impI)
    fix s z s' assume o: "outcome us v r st r' s" and z: "k r' s = Inr (z, s')"
    have r': "r' = r" using o st e by (simp add: outcome_def)
    obtain us' where us': "searching us' s" "grows us us'" "ebr_memos us'" using o unfolding outcome_def by blast
    have "case z of (st, r') \<Rightarrow> outcome us' v r st r' s'"
      using hoareD [OF k [OF us'(2,3)] us'(1)] z r' by (cases z) simp
    then show "(case z of (st, r') \<Rightarrow> outcome us v r st r') s'" using outcome_grows [OF us'(2) v] by (cases z) simp
  qed
qed

lemma hoare_outcome:
  assumes "grows us us'" and "v < length us" and "hoare P k (\<lambda>(st, r'). outcome us' v r st r')"
  shows "hoare P k (\<lambda>(st, r'). outcome us v r st r')"
  by (rule hoare_post [OF assms(3)]) (use outcome_grows [OF assms(1,2)] in auto)

text \<open>The logical partitions of one extended partition, then what comes after it.\<close>

lemma hoare_logical_then:
  assumes v: "v < length us" and x: "x < length us" and m: "ebr_memos us" and e: "ext_of (us ! v) v (us ! x)" and r: "fresh r"
    and k: "\<And>us' a. grows us us' \<Longrightarrow> ebr_memos us' \<Longrightarrow> hoare (searching us') (k r a) (\<lambda>(st, r'). outcome us' v r st r')"
  shows "hoare (searching us) (act_bind (mbr_get_logical_part vread fs r x part) (\<lambda>(st, r, a).
    if st \<noteq> END_OF_TABLE then ret (st, r) else k r a)) (\<lambda>(st, r'). outcome us v r st r')"
proof (rule hoare_bind [OF hoare_logical_part [OF v x m e r]])
  fix y :: "part_status \<times> volume \<times> int"
  obtain st r1 a where y: "y = (st, r1, a)" by (cases y)
  show "hoare ((case y of (st, r', a) \<Rightarrow> outcome us v r st r')) (case y of (st, r, a) \<Rightarrow>
      if st \<noteq> END_OF_TABLE then ret (st, r) else k r a) (\<lambda>(st, r'). outcome us v r st r')"
    using hoare_continue [OF v, where k = "\<lambda>r. k r a" and r = r and e = END_OF_TABLE] k unfolding y by simp
qed

lemma extended_volume_facts:
  assumes "in_disk vol (part_first_sect e) cnt" and "small e" and "i < 4"
  shows "same_data (part_volume zero_volume vol (int i + 1) (part_first_sect e) cnt (Some v)) (extended_volume vol v i e cnt a)"
    and "ext_of vol v (extended_volume vol v i e cnt a)" and "ebr_part (extended_volume vol v i e cnt a) = None"
proof -
  have c: "0 < cnt" using assms(1) by (simp add: in_disk_def word_greater_zero_iff)
  show "same_data (part_volume zero_volume vol (int i + 1) (part_first_sect e) cnt (Some v)) (extended_volume vol v i e cnt a)"
    by (simp add: same_data_def extended_volume_def)
  show "ebr_part (extended_volume vol v i e cnt a) = None"
    by (simp add: extended_volume_def part_volume_def zero_volume_def)
  have "chain_ok (extended_volume vol v i e cnt a)"
    using c by (simp add: chain_ok_def extended_volume_def part_volume_def zero_volume_def MAX_EBRS_def take_Suc_conv_app_nth)
  then show "ext_of vol v (extended_volume vol v i e cnt a)"
    using assms by (simp add: ext_of_def part_of_def extended_volume_def part_volume_def small_def)
qed

lemma hoare_new_extended:
  assumes v: "v < length us" and m: "ebr_memos us" and d: "in_disk (us ! v) (part_first_sect e) cnt" and e: "small e" and i: "i < 4"
    and k: "\<And>us'. grows us us' \<Longrightarrow> ebr_memos us' \<Longrightarrow> length us < length us' \<Longrightarrow> ext_of (us' ! v) v (us' ! length us) \<Longrightarrow>
      hoare (searching us') (k (length us)) Q"
  shows "hoare (searching us) (act_bind (new_vol (extended_volume (us ! v) v i e cnt a)) (\<lambda>ext.
     act_bind (set_vol v (\<lambda>vol. vol\<lparr>ebr_part := Some ext\<rparr>)) (\<lambda>_. k ext))) Q"
proof (rule hoare_fact)
  let ?x = "extended_volume (us ! v) v i e cnt a"
  note x = extended_volume_facts [OF d e i, of v a]
  have "fresh zero_volume" by (simp add: fresh_def zero_volume_def)
  then show "good ?x" if "searching us s" for s
    using searching_good [OF that v] good_data [OF _ x(1)] d by (simp add: in_disk_def)
  assume g: "good ?x"
  let ?w = "(us ! v)\<lparr>ebr_part := Some (length us)\<rparr>"
  define us1 where "us1 = us @ [?x]"
  define us2 where "us2 = us1[v := ?w]"
  have u: "us1 ! v = us ! v" "v < length us1" "us1 ! length us = ?x" using v by (simp_all add: us1_def nth_append)
  have al: "alike (us1 ! v) ?w"
    unfolding u by (rule alikeI [where p = "Some (length us)" and i = "ebr_walk_index (us ! v)" and d = "ebr_walk_depth (us ! v)"
      and z = "ebr_walk_size (us ! v)" and c = "ebr_walk_chain (us ! v)"]) simp
  have u2: "us2 ! length us = ?x" "us2 ! v = ?w" using u v by (simp_all add: us2_def)
  have ext: "ext_of (us ! v) v (us2 ! length us)" using x(2) u2 by simp
  have "ebr_memos us2"
    unfolding us2_def
    by (rule ebr_memos_update [OF ebr_memos_append [OF m x(3), folded us1_def] u(2) al])
      (use ext u in \<open>simp_all add: chain_ok_def us2_def us1_def\<close>)
  moreover have "grows us us2"
    unfolding us2_def using grows_trans [OF grows_append grows_update] al by (simp add: us1_def)
  moreover have "ext_of (us2 ! v) v (us2 ! length us)" using ext ext_of_alike [OF al] u u2 by simp
  ultimately have k2: "hoare (searching us2) (k (length us)) Q" using k by (simp add: us2_def us1_def)
  have set: "hoare (searching us1) (set_vol v (\<lambda>vol. vol\<lparr>ebr_part := Some (length us)\<rparr>)) (\<lambda>_. searching us2)"
    unfolding us2_def u(1) [symmetric] by (rule hoare_set [OF u(2) same_volume_step(2)]) (simp_all add: same_data_def)
  show "hoare (searching us) (act_bind (new_vol ?x) (\<lambda>ext.
     act_bind (set_vol v (\<lambda>vol. vol\<lparr>ebr_part := Some ext\<rparr>)) (\<lambda>_. k ext))) Q"
  proof (rule hoare_bind [OF hoare_new [OF g]], rule hoare_pre_fact)
    fix ext assume "ext = length us"
    then show "hoare (searching (us @ [?x])) (act_bind (set_vol v (\<lambda>vol. vol\<lparr>ebr_part := Some ext\<rparr>)) (\<lambda>_. k ext)) Q"
      using hoare_bind [OF set k2] by (simp add: us1_def)
  qed
qed

lemma hoare_extended_slots:
  assumes "v < length us" and "ebr_memos us" and r: "fresh r" and "\<forall>i\<in>set is. i < 4"
  shows "hoare (searching us) (extended_slots vread fs r v part is a) (\<lambda>(st, r'). outcome us v r st r')"
  using assms(1,2,4)
proof (induction "is" arbitrary: us a)
  case Nil
  then show ?case using outcome_none by (auto intro: hoare_ret)
next
  case (Cons i "is")
  note v = Cons.prems(1) and m = Cons.prems(2)
  have skip: "hoare (searching us) (extended_slots vread fs r v part is a) (\<lambda>(st, r'). outcome us v r st r')" for a
    using Cons by simp
  have ext: "hoare (searching us) (act_bind (new_vol (extended_volume vol v i e cnt a)) (\<lambda>ext.
      act_bind (set_vol v (\<lambda>vol. vol\<lparr>ebr_part := Some ext\<rparr>)) (\<lambda>_.
      act_bind (mbr_get_logical_part vread fs r ext (part - 4)) (\<lambda>(st, r, a).
        if st \<noteq> END_OF_TABLE then ret (st, r) else extended_slots vread fs r v part is a)))) (\<lambda>(st, r'). outcome us v r st r')"
    if c: "small e" "part_sect_count e \<noteq> 0" "same_volume (us ! v) vol"
      "mbr_cut_to_disk vol (part_first_sect e) (part_sect_count e) = Some cnt" for e vol cnt
  proof -
    have "extended_volume vol v i e cnt a = extended_volume (us ! v) v i e cnt a"
      using part_volume_same [OF c(3)] by (simp add: extended_volume_def)
    moreover have "in_disk vol (part_first_sect e) cnt"
      by (rule in_disk_cut [OF c(4,2)]) (use c(1) in \<open>simp add: small_def\<close>)
    then have d: "in_disk (us ! v) (part_first_sect e) cnt" using c(3) unfolding same_volume_def by (auto simp: in_disk_def)
    have "hoare (searching us') (act_bind (mbr_get_logical_part vread fs r (length us) (part - 4)) (\<lambda>(st, r, a).
        if st \<noteq> END_OF_TABLE then ret (st, r) else extended_slots vread fs r v part is a)) (\<lambda>(st, r'). outcome us v r st r')"
      if g: "grows us us'" and m': "ebr_memos us'" and l: "length us < length us'" and x: "ext_of (us' ! v) v (us' ! length us)" for us'
    proof (rule hoare_outcome [OF g v], rule hoare_logical_then [OF _ l m' x r])
      show "v < length us'" using v g by (simp add: grows_def)
      then show "hoare (searching us'') (extended_slots vread fs r v part is a) (\<lambda>(st, r'). outcome us'' v r st r')"
        if "grows us' us''" "ebr_memos us''" for us'' a
        using Cons.IH [OF _ that(2)] Cons.prems(3) that(1) by (simp add: grows_def)
    qed
    then show ?thesis
      unfolding calculation using Cons.prems(3) by (intro hoare_new_extended [OF v m d c(1)]) simp_all
  qed
  show ?case
    unfolding extended_slots.simps
    by (rule hoare_bind [OF hoare_read_entry [OF v]], rule hoare_pre_fact,
        intro hoare_option skip hoare_if hoare_search_vol [OF v] ext) simp_all
qed

lemma hoare_get_logical:
  assumes v: "v < length us" and m: "ebr_memos us" and r: "fresh r"
  shows "hoare (searching us) (mbr_get_logical vread fs r v part) (\<lambda>(st, r'). outcome us v r st r')"
proof -
  have none: "hoare (searching us) (ret (END_OF_TABLE, r)) (\<lambda>(st, r'). outcome us v r st r')"
    using outcome_none m by (auto intro: hoare_ret)
  have slots: "hoare (searching us') (extended_slots vread fs r v part [n..<4] a) (\<lambda>(st, r'). outcome us' v r st r')"
    if "grows us us'" "ebr_memos us'" for us' n a
    by (rule hoare_extended_slots [OF _ that(2) r]) (use v that(1) in \<open>auto simp: grows_def\<close>)
  have memo: "hoare (searching us) (get_vol x (\<lambda>y. if ebr_walk_index y \<le> part - 4 then
        act_bind (mbr_get_logical_part vread fs r x (part - 4)) (\<lambda>(st, r, a). if st \<noteq> END_OF_TABLE then ret (st, r)
          else extended_slots vread fs r v part [nat (vol_partition y)..<4] a)
      else extended_slots vread fs r v part [0..<4] 0)) (\<lambda>(st, r'). outcome us v r st r')" if "ebr_part (us ! v) = Some x" for x
  proof -
    have x: "x < length us" "ext_of (us ! v) v (us ! x)" using m that v by (auto simp: ebr_memos_def)
    show ?thesis
      by (intro hoare_search_vol [OF x(1)] hoare_if hoare_logical_then [OF v x(1) m x(2) r] slots) (simp_all add: m)
  qed
  show ?thesis
    unfolding mbr_get_logical_def
  proof (intro hoare_if none hoare_search_vol [OF v] hoare_option slots)
    fix vol x assume "same_volume (us ! v) vol" "ebr_part vol = Some x"
    then have "ebr_part (us ! v) = Some x" unfolding same_volume_def by auto
    then show "hoare (searching us) (get_vol x (\<lambda>y. if ebr_walk_index y \<le> part - 4 then
        act_bind (mbr_get_logical_part vread fs r x (part - 4)) (\<lambda>(st, r, a). if st \<noteq> END_OF_TABLE then ret (st, r)
          else extended_slots vread fs r v part [nat (vol_partition y)..<4] a)
      else extended_slots vread fs r v part [0..<4] 0)) (\<lambda>(st, r'). outcome us v r st r')" by (rule memo)
  qed (simp_all add: m)
qed

lemma hoare_mbr_get_part:
  assumes v: "v < length us" and m: "ebr_memos us" and r: "fresh r"
  shows "hoare (searching us) (mbr_get_part vread fs r v part) (\<lambda>(st, r'). outcome us v r st r')"
proof -
  have none: "hoare (searching us) (ret (st, r)) (\<lambda>(st, r'). outcome us v r st r')" if "st \<noteq> Part_Found" for st
    using outcome_none m that by (auto intro: hoare_ret)
  have found: "hoare (searching us) (act_bind (probe_fs fs (part_volume r vol n (part_first_sect e) cnt (Some v))) (\<lambda>r.
      ret (Part_Found, r\<lparr>part_guid_valid := False, part_type_guid_valid := False\<rparr>))) (\<lambda>(st, r'). outcome us v r st r')"
    if c: "small e" "part_sect_count e \<noteq> 0" "same_volume (us ! v) vol"
      "mbr_cut_to_disk vol (part_first_sect e) (part_sect_count e) = Some cnt" for e vol cnt n
  proof -
    have "part_volume r vol = part_volume r (us ! v)" by (rule part_volume_same [OF c(3)])
    moreover have "in_disk vol (part_first_sect e) cnt"
      by (rule in_disk_cut [OF c(4,2)]) (use c(1) in \<open>simp add: small_def\<close>)
    then have "in_disk (us ! v) (part_first_sect e) cnt" using c(3) unfolding same_volume_def by (auto simp: in_disk_def)
    ultimately show ?thesis
      by (simp only:) (rule hoare_named [OF m v r _ part_of_volume], simp_all add: same_data_def same_part_def)
  qed
  have primary: "hoare (\<lambda>s. searching us s \<and> (\<forall>e. x = Some e \<longrightarrow> small e)) (case x of
         None \<Rightarrow> ret (END_OF_TABLE, r)
       | Some e \<Rightarrow>
           if part_type e = 0 then ret (NO_PARTITION, r)
           else if is_extended e then ret (NO_PARTITION, r)
           else if part_sect_count e = 0 then ret (NO_PARTITION, r)
           else get_vol v (\<lambda>vol.
             case mbr_cut_to_disk vol (part_first_sect e) (part_sect_count e) of
               None \<Rightarrow> ret (NO_PARTITION, r)
             | Some cnt \<Rightarrow>
                 act_bind (probe_fs fs (part_volume r vol (part + 1) (part_first_sect e) cnt (Some v))) (\<lambda>r.
                   ret (Part_Found, r\<lparr>part_guid_valid := False, part_type_guid_valid := False\<rparr>))))
      (\<lambda>(st, r'). outcome us v r st r')" for x
    by (rule hoare_pre_fact, intro hoare_option none hoare_if hoare_search_vol [OF v] found) simp_all
  show ?thesis
    unfolding mbr_get_part_def
    by (intro hoare_bind [OF hoare_is_valid_mbr [OF v]] hoare_if none hoare_get_logical [OF v m r]
        hoare_bind [OF hoare_read_entry [OF v]] primary) simp_all
qed

lemma hoare_part_get:
  assumes v: "v < length us" and m: "ebr_memos us" and r: "fresh r"
  shows "hoare (searching us) (part_get vread fs r v part) (\<lambda>(st, r'). outcome us v r st r')"
proof -
  let ?Q = "\<lambda>(st, r'). outcome us v r st r'"
  have mbr: "hoare (searching us') (act_bind (mbr_get_part vread fs r v part) (\<lambda>(st, r).
      if st \<noteq> INVALID_TABLE then ret (st, r) else ret (INVALID_TABLE, r))) (\<lambda>(st, r'). outcome us' v r st r')"
    if g: "grows us us'" "ebr_memos us'" for us'
  proof -
    have "v < length us'" using v g(1) by (simp add: grows_def)
    note post = hoare_mbr_get_part [OF this g(2) r]
    show ?thesis
      by (rule hoare_bind [OF post], rule hoare_prod) (auto intro: hoare_ret)
  qed
  have none: "hoare (searching us) (ret (NO_PARTITION, r)) ?Q" using outcome_none m by (auto intro: hoare_ret)
  show ?thesis
    unfolding part_get_def
  proof (rule hoare_if [OF none], rule hoare_bind [OF hoare_gpt_get_part [OF v m r]])
    fix y :: "part_status \<times> volume"
    obtain st r1 where y: "y = (st, r1)" by (cases y)
    show "hoare (case y of (st, r') \<Rightarrow> outcome us v r st r') (case y of (st, r) \<Rightarrow> if st \<noteq> INVALID_TABLE then ret (st, r)
        else act_bind (mbr_get_part vread fs r v part) (\<lambda>(st, r). if st \<noteq> INVALID_TABLE then ret (st, r) else ret (INVALID_TABLE, r))) ?Q"
      unfolding y prod.case
      by (rule hoare_continue [OF v, where e = INVALID_TABLE and k = "\<lambda>r. act_bind (mbr_get_part vread fs r v part) (\<lambda>(st, r).
          if st \<noteq> INVALID_TABLE then ret (st, r) else ret (INVALID_TABLE, r))"]) (simp_all add: mbr)
  qed
qed

end

section \<open>The theorems\<close>

lemma part_get_outcome:
  assumes "firmware_ok fw arch blk medium" and "fs_ok fs arch blk medium"
    and ok: "\<forall>vol\<in>set (vols s). vol_ok arch blk medium vol \<and> sector_size vol < 2 ^ 31"
    and "memo_ok (vol_bytes medium) (vols s) (memo s)" and "ebr_memos (vols s)" and "v < length (vols s)" and "fresh r"
    and "part_get (store_read (disk_read_sectors fw arch) arch) fs r v part s = Inr ((st, r'), s')"
  shows "\<forall>vol\<in>set (vols s'). vol_ok arch blk medium vol \<and> sector_size vol < 2 ^ 31"
    and "memo_ok (vol_bytes medium) (vols s') (memo s')" and "ebr_memos (vols s')"
    and "st = Part_Found \<Longrightarrow> part_of (vols s ! v) v r' \<and> vol_ok arch blk medium r'"
proof -
  let ?r = "disk_read_sectors fw arch"
  have "parts_ok ?r fs arch blk medium (vols s)"
    using disk_read_sectors_ok [OF assms(1)] assms(2) ok by (simp add: parts_ok_def store_ok_def)
  then have "parts.searching ?r fs arch blk medium (vols s) s"
    using assms(4) by (intro parts.searchingI) simp_all
  note post = hoareD [OF parts.hoare_part_get [OF assms(6,5,7)] this assms(8)]
  then obtain us where us: "parts.searching ?r fs arch blk medium us s'" "ebr_memos us"
    by (auto simp: parts.outcome_def)
  obtain M where s': "parts_ok ?r fs arch blk medium (vols s')" "same_vols us (vols s')" "memo s' = M" "memo_ok (vol_bytes medium) us M"
    using us(1) by (rule parts.searchingE)
  show "\<forall>vol\<in>set (vols s'). vol_ok arch blk medium vol \<and> sector_size vol < 2 ^ 31"
    using s'(1) by (simp add: parts_ok_def store_ok_def)
  show "memo_ok (vol_bytes medium) (vols s') (memo s')"
    unfolding s'(3) by (rule memo_ok_same [OF s'(2) _ s'(4)]) (simp add: same_volumeD)
  show "ebr_memos (vols s')" using us(2) ebr_memos_same [OF s'(2)] by simp
  show "part_of (vols s ! v) v r' \<and> vol_ok arch blk medium r'" if "st = Part_Found"
    using post that by (simp add: parts.outcome_def part_ok_def)
qed

text \<open>
  C34. Partitions lie on their disk: every partition that \<open>part_get\<close> finds, from a GPT, as a primary or
  as a logical MBR partition, is not empty, does not run past the end of the disk when its size is
  known, and never wraps around; it has the device and the geometry of the disk, and it is a
  volume through which reads deliver the bytes of the medium.
\<close>

theorem partitions_lie_on_disk:
  assumes "firmware_ok fw arch blk medium" and "fs_ok fs arch blk medium"
    and "\<forall>vol\<in>set (vols s). vol_ok arch blk medium vol \<and> sector_size vol < 2 ^ 31"
    and "memo_ok (vol_bytes medium) (vols s) (memo s)" and "ebr_memos (vols s)" and "v < length (vols s)" and "fresh r"
    and "part_get (store_read (disk_read_sectors fw arch) arch) fs r v part s = Inr ((Part_Found, r'), s')"
  shows "part_of (vols s ! v) v r' \<and> vol_ok arch blk medium r'"
  using part_get_outcome(4) [OF assms] by simp

text \<open>
  C35. The memos of the partition code stay right from call to call, whatever is on the disk: the chain
  kept for an extended partition lists distinct sectors of it, at most \<open>MAX_EBRS\<close>, so no
  extended boot record is visited twice; the extended partition itself lies on the disk; and the
  GPT remembered is the verified one.
\<close>

theorem part_get_keeps_memos:
  assumes "firmware_ok fw arch blk medium" and "fs_ok fs arch blk medium"
    and "\<forall>vol\<in>set (vols s). vol_ok arch blk medium vol \<and> sector_size vol < 2 ^ 31"
    and "memo_ok (vol_bytes medium) (vols s) (memo s)" and "ebr_memos (vols s)" and "v < length (vols s)" and "fresh r"
    and "part_get (store_read (disk_read_sectors fw arch) arch) fs r v part s = Inr ((st, r'), s')"
  shows "ebr_memos (vols s') \<and> memo_ok (vol_bytes medium) (vols s') (memo s')
    \<and> (\<forall>vol\<in>set (vols s'). vol_ok arch blk medium vol \<and> sector_size vol < 2 ^ 31)"
  using part_get_outcome(1-3) [OF assms] by blast

section \<open>An example\<close>

text \<open>Reads inside the example disk succeed, one after the other.\<close>

lemma example_store_read:
  assumes "vols s = [vol]" and "same_volume example_disk vol" and "vol_ok X86_64 (\<lambda>_. 512) (\<lambda>_. img) vol"
    and "unat loc + unat n \<le> 4096" and "0 < unat n"
  shows "\<exists>vol'. store_read (disk_read_sectors (image_firmware img) X86_64) X86_64 0 loc n s =
      Inr (Some (vol_bytes (\<lambda>_. img) example_disk (unat loc) (unat n)), s\<lparr>vols := [vol']\<rparr>) \<and>
    same_volume example_disk vol' \<and> vol_ok X86_64 (\<lambda>_. 512) (\<lambda>_. img) vol'"
proof -
  let ?rd = "disk_read_sectors (image_firmware img) X86_64"
  note rm = disk_read_sectors_ok [OF image_firmware_ok(1) [of img]]
  have f: "\<not> pxe vol" "fastest_xfer_size vol = 1" "sector_size vol = 512" "sect_count vol = 8" "first_sect vol = 0"
    using assms(2) by (auto simp: same_volume_def example_disk_def example_volume_def)
  have "\<exists>v'. volume_read ?rd X86_64 vol loc n = Inr (Some (vol_bytes (\<lambda>_. img) vol (unat loc) (unat n)), v')"
    by (rule volume_read_in_range [OF rm image_firmware_ok(2) assms(3)]) (use f assms(4,5) in simp_all)
  then obtain v' where r: "volume_read ?rd X86_64 vol loc n = Inr (Some (vol_bytes (\<lambda>_. img) vol (unat loc) (unat n)), v')" by blast
  have "same_volume vol v'" "vol_ok X86_64 (\<lambda>_. 512) (\<lambda>_. img) v'" using volume_read_keeps [OF rm assms(3) r] by simp_all
  then show ?thesis
    using r assms(1) same_volume_trans [OF assms(2)]
    by (intro exI [of _ v']) (simp add: store_read_def same_volumeD [OF assms(2)])
qed

lemma nameless_fs_ok: "fs_ok nameless_fs arch blk medium"
  by (simp add: fs_ok_def nameless_fs_def)

lemma example_part:
  "\<exists>r' s'. part_get (store_read (disk_read_sectors (image_firmware example_image) X86_64) X86_64) nameless_fs zero_volume 0 0 example_state =
     Inr ((Part_Found, r'), s')"
proof -
  let ?rd = "store_read (disk_read_sectors (image_firmware example_image) X86_64) X86_64"
  have s0: "vols example_state = [example_disk]" by (simp add: example_state_def)
  obtain v1 where r1: "?rd 0 512 92 example_state = Inr (Some (gpt_header_bytes example_header), example_state\<lparr>vols := [v1]\<rparr>)"
    and v1: "same_volume example_disk v1" "vol_ok X86_64 (\<lambda>_. 512) (\<lambda>_. example_image) v1"
    using example_store_read [OF s0 same_volume_refl image_firmware_ok(3), of 512 92 example_image] by (auto simp: example_image_bytes)
  obtain v2 where r2: "?rd 0 1024 128 (example_state\<lparr>vols := [v1]\<rparr>) = Inr (Some example_entry, example_state\<lparr>vols := [v2]\<rparr>)"
    and v2: "same_volume example_disk v2"
    using example_store_read [OF _ v1, of "example_state\<lparr>vols := [v1]\<rparr>" 1024 128] by (auto simp: example_image_bytes)
  have h: "gpt_header_of (gpt_header_bytes example_header) = example_header"
    by (rule gpt_header_of_bytes) (simp_all add: example_header_def example_header0_def)
  have l: "gpt_locate_header ?rd 0 example_state = Inr (Some (example_header, 512), example_state\<lparr>vols := [v1]\<rparr>)"
    using r1 h by (simp add: gpt_locate_header_def gpt_memo_hit_def act_bind_def get_state_def read_or_def ret_def
        example_state_def CHECKED_MUL_def sizeof_gpt_header_def)
  have e: "partition_type_guid (gpt_entry_of example_entry) = replicate 16 1" "gpt_entry_range (gpt_entry_of example_entry) 512 = Some (3, 3)"
    by (simp_all add: gpt_entry_of_def example_entry_def byte_simps gpt_entry_range_def CHECKED_MUL_def)
  have "sect_count v2 = 8" using v2 by (auto simp: same_volume_def example_disk_def)
  then have "partition_range_valid v2 3 3" by (simp add: partition_range_valid_def CHECKED_ADD_def)
  then have "\<exists>r'. gpt_get_part ?rd nameless_fs zero_volume 0 0 example_state = Inr ((Part_Found, r'), example_state\<lparr>vols := [v2]\<rparr>)"
    using l r2 e
    by (simp add: gpt_get_part_def act_bind_def read_or_def get_vol_def ret_def probe_fs_def fs_get_guid_def fs_get_label_def
        nameless_fs_def example_header_fields MAX_GPT_PARTITIONS_def sizeof_gpt_entry_def CHECKED_MUL_def CHECKED_ADD_def Let_def)
  then show ?thesis by (auto simp: part_get_def act_bind_def ret_def)
qed

lemma example_state_ok:
  "\<forall>vol\<in>set (vols example_state). vol_ok X86_64 (\<lambda>_. 512) (\<lambda>_. example_image) vol \<and> sector_size vol < 2 ^ 31"
  "memo_ok (vol_bytes (\<lambda>_. example_image)) (vols example_state) (memo example_state)"
  "ebr_memos (vols example_state)" "0 < length (vols example_state)" "fresh zero_volume" "vols example_state ! 0 = example_disk"
proof -
  show "memo_ok (vol_bytes (\<lambda>_. example_image)) (vols example_state) (memo example_state)"
    using example_valid by (simp add: memo_ok_def memo_def example_state_def lb_ok_def lb_guesses_def)
qed (simp_all add: example_state_def image_firmware_ok ebr_memos_def fresh_def zero_volume_def, simp_all add: example_disk_def example_volume_def)

theorem partitions_lie_on_disk_witness:
  "\<exists>r' s'. part_get (store_read (disk_read_sectors (image_firmware example_image) X86_64) X86_64) nameless_fs zero_volume 0 0 example_state =
     Inr ((Part_Found, r'), s') \<and> part_of example_disk 0 r'"
proof -
  obtain r' s' where r: "part_get (store_read (disk_read_sectors (image_firmware example_image) X86_64) X86_64) nameless_fs zero_volume 0 0 example_state =
     Inr ((Part_Found, r'), s')" using example_part by blast
  then show ?thesis
    using partitions_lie_on_disk [OF image_firmware_ok(1) nameless_fs_ok example_state_ok(1-5) r] example_state_ok(6) by auto
qed

theorem part_get_keeps_memos_witness:
  "\<exists>r' s'. part_get (store_read (disk_read_sectors (image_firmware example_image) X86_64) X86_64) nameless_fs zero_volume 0 0 example_state =
     Inr ((Part_Found, r'), s') \<and> ebr_memos (vols s')"
proof -
  obtain r' s' where r: "part_get (store_read (disk_read_sectors (image_firmware example_image) X86_64) X86_64) nameless_fs zero_volume 0 0 example_state =
     Inr ((Part_Found, r'), s')" using example_part by blast
  then show ?thesis
    using part_get_keeps_memos [OF image_firmware_ok(1) nameless_fs_ok example_state_ok(1-5) r] by blast
qed

end
