(* ===== verification/Fs_Volume.thy ===== *)
theory Fs_Volume
  imports Volume Action
begin

text \<open>
  The volume a file system reads through: \<open>volume_read\<close> of \<^verbatim>\<open>common/lib/part.s2.c\<close> as an action on
  the volume, and what the file systems may rely on. Two interfaces: on any disk, what a read
  returns are the bytes of the volume (\<open>volume_reads\<close>); on a disk that delivers its sectors, a
  read does what looking at an image of the volume does (\<open>image_volume\<close>), so that the cache and
  its blocks cannot be noticed.
\<close>

section \<open>Reads as actions\<close>

type_synonym 'a vact = "(volume, 'a) action"
type_synonym vol_reader = "u64 \<Rightarrow> u64 \<Rightarrow> u8 list option vact"

definition read_vol :: "disk_reader \<Rightarrow> arch \<Rightarrow> vol_reader" where
  "read_vol reader arch loc n vol = volume_read reader arch vol loc n"

definition vread_or :: "vol_reader \<Rightarrow> u64 \<Rightarrow> u64 \<Rightarrow> 'a vact \<Rightarrow> (u8 list \<Rightarrow> 'a vact) \<Rightarrow> 'a vact" where
  "vread_or vr loc n fail k = act_bind (vr loc n) (\<lambda>r. case r of None \<Rightarrow> fail | Some bs \<Rightarrow> k bs)"

text \<open>Labels are padded with spaces, which both drivers turn into terminators.\<close>

fun trim_spaces :: "nat \<Rightarrow> u8 list \<Rightarrow> u8 list" where
  "trim_spaces 0 r = r"
| "trim_spaces (Suc j) r = (if r ! j = 0x20 then trim_spaces j (r[j := 0]) else r)"

text \<open>The abstract volume: an image, read by position and length.\<close>

definition image_read :: "u8 list \<Rightarrow> u64 \<Rightarrow> u64 \<Rightarrow> u8 list option" where
  "image_read img loc n =
     (if unat loc < length img \<and> unat loc + unat n \<le> length img then Some (take (unat n) (drop (unat loc) img)) else None)"

definition image_reader :: "u8 list \<Rightarrow> vol_reader" where
  "image_reader img loc n vol = Inr (image_read img loc n, vol)"

definition volume_image :: "media \<Rightarrow> volume \<Rightarrow> u8 list" where
  "volume_image medium v = vol_bytes medium v 0 (unat (sect_count v) * 512)"

section \<open>The interfaces\<close>

text \<open>A read keeps the invariant, and what it returns are the bytes of the volume.\<close>

locale volume_reads =
  fixes vr :: vol_reader
    and good :: "volume \<Rightarrow> bool"
    and content :: "nat \<Rightarrow> nat \<Rightarrow> u8 list"
    and sects :: u64
  assumes read_good: "good vol \<Longrightarrow> vr loc n vol = Inr (r, vol') \<Longrightarrow> good vol'"
    and read_bytes: "good vol \<Longrightarrow> vr loc n vol = Inr (Some bs, vol') \<Longrightarrow> unat loc + unat n \<le> 2 ^ 64 \<Longrightarrow>
      bs = content (unat loc) (unat n)"
    and good_sects: "good vol \<Longrightarrow> sect_count vol = sects"
    and content_append: "content a (i + j) = content a i @ content (a + i) j"
    and content_length: "length (content a i) = i"
begin

lemma hoare_vread:
  assumes "unat loc + unat n \<le> 2 ^ 64" and "hoare good fail Q"
    and "\<And>bs. bs = content (unat loc) (unat n) \<Longrightarrow> hoare good (k bs) Q"
  shows "hoare good (vread_or vr loc n fail k) Q"
  unfolding vread_or_def
proof (rule hoare_bind [where R = "\<lambda>r vol. good vol \<and> (\<forall>bs. r = Some bs \<longrightarrow> bs = content (unat loc) (unat n))"])
  show "hoare good (vr loc n) (\<lambda>r vol. good vol \<and> (\<forall>bs. r = Some bs \<longrightarrow> bs = content (unat loc) (unat n)))"
    unfolding hoare_def using read_good read_bytes assms(1) by blast
  show "hoare (\<lambda>vol. good vol \<and> (\<forall>bs. r = Some bs \<longrightarrow> bs = content (unat loc) (unat n))) (case r of None \<Rightarrow> fail | Some bs \<Rightarrow> k bs) Q"
    for r by (rule hoare_pre_fact, rule hoare_option) (use assms(2,3) in simp_all)
qed

lemma keep_read: "hoare good (vr loc n) (\<lambda>_. good)"
  using read_good unfolding hoare_def by blast

lemma keep_vread:
  "hoare good fail (\<lambda>_. good) \<Longrightarrow> (\<And>bs. hoare good (k bs) (\<lambda>_. good)) \<Longrightarrow> hoare good (vread_or vr loc n fail k) (\<lambda>_. good)"
  unfolding vread_or_def
  by (intro hoare_bind [OF keep_read] hoare_option)

lemma content_part: "i + j \<le> n \<Longrightarrow> content (a + i) j = take j (drop i (content a n))"
proof -
  assume "i + j \<le> n"
  then have "content a n = content a i @ content (a + i) j @ content (a + i + j) (n - (i + j))"
    using content_append [of a i "n - i"] content_append [of "a + i" j "n - (i + j)"] by simp
  then show ?thesis by (simp add: content_length)
qed

end

text \<open>A read does what a look at the image does.\<close>

locale image_volume =
  fixes vr :: vol_reader
    and good :: "volume \<Rightarrow> bool"
    and img :: "u8 list"
    and v0 :: volume
  assumes read_refines: "refines good (vr loc n) v0 (image_reader img loc n)"
    and good_sects: "good vol \<Longrightarrow> sect_count vol = sect_count v0"
begin

lemma vread_refines [refines_rules]:
  "refines good fail v0 afail \<Longrightarrow> (\<And>bs. refines good (k bs) v0 (ak bs)) \<Longrightarrow>
   refines good (vread_or vr loc n fail k) v0 (vread_or (image_reader img) loc n afail ak)"
  unfolding vread_or_def by (intro refines_rules read_refines)

end

section \<open>What the volumes provide\<close>

definition holds_medium :: "disk_reader \<Rightarrow> arch \<Rightarrow> (nat \<Rightarrow> nat) \<Rightarrow> media \<Rightarrow> volume \<Rightarrow> volume \<Rightarrow> bool" where
  "holds_medium reader arch blk medium v vol \<longleftrightarrow>
     reads_medium reader arch blk medium \<and> vol_ok arch blk medium vol \<and> same_volume v vol"

interpretation vreads: volume_reads "read_vol reader arch" "holds_medium reader arch blk medium v"
  "vol_bytes medium v" "sect_count v" for reader arch blk medium v
proof
  fix vol loc n r vol' bs
  show "holds_medium reader arch blk medium v vol'"
    if "holds_medium reader arch blk medium v vol" "read_vol reader arch loc n vol = Inr (r, vol')"
    using that volume_read_keeps [of reader arch blk medium vol loc n r vol'] same_volume_trans
    unfolding holds_medium_def read_vol_def by blast
  show "bs = vol_bytes medium v (unat loc) (unat n)"
    if "holds_medium reader arch blk medium v vol" "read_vol reader arch loc n vol = Inr (Some bs, vol')"
      "unat loc + unat n \<le> 2 ^ 64"
  proof -
    have "bs = vol_bytes medium vol (unat loc) (unat n)"
      using that volume_read_ok [of reader arch blk medium vol loc n "Some bs" vol'] unfolding holds_medium_def read_vol_def by blast
    then show ?thesis using that(1) by (auto simp: holds_medium_def vol_bytes_def vol_byte_def same_volume_def)
  qed
  show "sect_count vol = sect_count v" if "holds_medium reader arch blk medium v vol"
    using that by (auto simp: holds_medium_def same_volume_def)
qed (simp_all add: vol_bytes_add)

text \<open>A volume with a usable geometry and a known size, aligned to the sectors of its device.\<close>

definition readable_volume :: "volume \<Rightarrow> bool" where
  "readable_volume v \<longleftrightarrow>
     \<not> pxe v \<and> fastest_xfer_size v \<noteq> 0 \<and> 512 \<le> sector_size v \<and> sector_size v mod 512 = 0 \<and> \<not> size_unknown v \<and>
     unat (sect_count v) * 512 < 2 ^ 64 \<and> nat (sector_size v) div 512 dvd unat (first_sect v)"

definition delivers_medium :: "disk_reader \<Rightarrow> arch \<Rightarrow> (nat \<Rightarrow> nat) \<Rightarrow> media \<Rightarrow> volume \<Rightarrow> volume \<Rightarrow> bool" where
  "delivers_medium reader arch blk medium v vol \<longleftrightarrow>
     holds_medium reader arch blk medium v vol \<and> reliable reader \<and> readable_volume v"

lemma image_part:
  assumes "a + n \<le> unat (sect_count v) * 512"
  shows "take n (drop a (volume_image medium v)) = vol_bytes medium v a n"
  using vreads.content_part [OF assms, of medium v 0] by (simp add: volume_image_def)

lemma length_volume_image [simp]: "length (volume_image medium v) = unat (sect_count v) * 512"
  by (simp add: volume_image_def)

lemma read_vol_image:
  assumes "delivers_medium reader arch blk medium v vol"
  shows "\<exists>vol'. read_vol reader arch loc n vol = Inr (image_read (volume_image medium v) loc n, vol')"
proof -
  have s: "same_volume v vol" and m: "reads_medium reader arch blk medium" "reliable reader" "vol_ok arch blk medium vol"
    and r: "readable_volume v" using assms by (simp_all add: delivers_medium_def holds_medium_def)
  then have rv: "readable_volume vol" and c: "sect_count vol = sect_count v"
    by (auto simp: readable_volume_def same_volume_def)
  let ?in = "unat loc < unat (sect_count v) * 512 \<and> unat loc + unat n \<le> unat (sect_count v) * 512"
  show ?thesis
  proof (cases ?in)
    case True
    then obtain vol' where v': "volume_read reader arch vol loc n = Inr (Some (vol_bytes medium vol (unat loc) (unat n)), vol')"
      using volume_read_in_range [OF m] rv c unfolding readable_volume_def by metis
    then have "vol_bytes medium vol (unat loc) (unat n) = vol_bytes medium v (unat loc) (unat n)"
      using s by (auto simp: vol_bytes_def vol_byte_def same_volume_def)
    then show ?thesis using True v' by (simp add: read_vol_def image_read_def image_part)
  next
    case False
    then have "volume_read reader arch vol loc n = Inr (None, vol)"
      using rv c unfolding readable_volume_def by (intro volume_read_past_end) auto
    then show ?thesis using False by (auto simp: read_vol_def image_read_def)
  qed
qed

interpretation vimage: image_volume "read_vol reader arch" "delivers_medium reader arch blk medium v"
  "volume_image medium v" v for reader arch blk medium v
proof
  fix loc n
  show "refines (delivers_medium reader arch blk medium v) (read_vol reader arch loc n) v (image_reader (volume_image medium v) loc n)"
    using read_vol_image vreads.read_good unfolding refines_def image_reader_def delivers_medium_def by fastforce
next
  fix vol
  assume "delivers_medium reader arch blk medium v vol"
  then show "sect_count vol = sect_count v" using vreads.good_sects unfolding delivers_medium_def by blast
qed

end
