(* ===== verification/Fat.thy ===== *)
theory Fat
  imports Fs_Volume Utf
begin

text \<open>
  The FAT driver, from \<^verbatim>\<open>common/fs/fat32.s2.c\<close>: mounting FAT12, FAT16 and FAT32, following
  cluster chains, looking up short and long names, volume labels, opening and reading files. The
  state of the actions is the volume that is read through. Buffers come from the allocator
  cleared; that it runs out of memory is not modelled here.
\<close>

section \<open>Structures\<close>

definition FAT32_LFN_MAX_ENTRIES :: nat where "FAT32_LFN_MAX_ENTRIES = 20"
definition FAT32_LFN_MAX_FILENAME_LENGTH :: nat where "FAT32_LFN_MAX_FILENAME_LENGTH = FAT32_LFN_MAX_ENTRIES * 13 + 1"
definition FAT32_ATTRIBUTE_SUBDIRECTORY :: u8 where "FAT32_ATTRIBUTE_SUBDIRECTORY = 0x10"
definition FAT32_LFN_ATTRIBUTE :: u8 where "FAT32_LFN_ATTRIBUTE = 0x0f"
definition FAT32_ATTRIBUTE_VOLLABEL :: u8 where "FAT32_ATTRIBUTE_VOLLABEL = 0x08"

record fat32_context =
  fat_type :: nat
  bytes_per_sector :: u16
  sectors_per_cluster :: u8
  reserved_sectors :: u16
  number_of_fats :: u8
  hidden_sectors :: u32
  sectors_per_fat :: u32
  fat_start_lba :: u32
  data_start_lba :: u32
  root_directory_cluster :: u32
  root_entries :: u16
  root_start :: u32
  root_size :: u32

record fat32_bpb =
  bpb_jump :: "u8 list"
  bpb_oem :: "u8 list"
  bpb_bytes_per_sector :: u16
  bpb_sectors_per_cluster :: u8
  bpb_reserved_sectors :: u16
  bpb_fats_count :: u8
  bpb_root_entries_count :: u16
  bpb_sectors_count_16 :: u16
  bpb_media_descriptor_type :: u8
  bpb_sectors_per_fat_16 :: u16
  bpb_sectors_per_track :: u16
  bpb_heads_count :: u16
  bpb_hidden_sectors_count :: u32
  bpb_sectors_count_32 :: u32
  bpb_sectors_per_fat_32 :: u32
  bpb_flags :: u16
  bpb_fat_version_number :: u16
  bpb_root_directory_cluster :: u32

definition fat32_bpb_of :: "u8 list \<Rightarrow> fat32_bpb" where
  "fat32_bpb_of bs =
     \<lparr>bpb_jump = field bs 0 3, bpb_oem = field bs 3 8, bpb_bytes_per_sector = le_word (field bs 11 2),
      bpb_sectors_per_cluster = bs ! 13, bpb_reserved_sectors = le_word (field bs 14 2), bpb_fats_count = bs ! 16,
      bpb_root_entries_count = le_word (field bs 17 2), bpb_sectors_count_16 = le_word (field bs 19 2),
      bpb_media_descriptor_type = bs ! 21, bpb_sectors_per_fat_16 = le_word (field bs 22 2),
      bpb_sectors_per_track = le_word (field bs 24 2), bpb_heads_count = le_word (field bs 26 2),
      bpb_hidden_sectors_count = le_word (field bs 28 4), bpb_sectors_count_32 = le_word (field bs 32 4),
      bpb_sectors_per_fat_32 = le_word (field bs 36 4), bpb_flags = le_word (field bs 40 2),
      bpb_fat_version_number = le_word (field bs 42 2), bpb_root_directory_cluster = le_word (field bs 44 4)\<rparr>"

definition sizeof_fat32_bpb :: nat where "sizeof_fat32_bpb = 512"

record fat32_directory_entry =
  file_name_and_ext :: "u8 list"
  attribute :: u8
  cluster_num_high :: u16
  cluster_num_low :: u16
  file_size_bytes :: u32

definition fat32_directory_entry_of :: "u8 list \<Rightarrow> fat32_directory_entry" where
  "fat32_directory_entry_of bs =
     \<lparr>file_name_and_ext = field bs 0 11, attribute = bs ! 11, cluster_num_high = le_word (field bs 20 2),
      cluster_num_low = le_word (field bs 26 2), file_size_bytes = le_word (field bs 28 4)\<rparr>"

definition sizeof_fat32_directory_entry :: nat where "sizeof_fat32_directory_entry = 32"

fun u16_units :: "u8 list \<Rightarrow> u16 list" where
  "u16_units (a # b # bs) = le_word [a, b] # u16_units bs"
| "u16_units bs = []"

record fat32_lfn_entry =
  sequence_number :: u8
  lfn_name1 :: "u16 list"
  lfn_attribute :: u8
  lfn_type :: u8
  dos_checksum :: u8
  lfn_name2 :: "u16 list"
  lfn_first_cluster :: u16
  lfn_name3 :: "u16 list"

definition fat32_lfn_entry_of :: "u8 list \<Rightarrow> fat32_lfn_entry" where
  "fat32_lfn_entry_of bs =
     \<lparr>sequence_number = bs ! 0, lfn_name1 = u16_units (field bs 1 10), lfn_attribute = bs ! 11, lfn_type = bs ! 12,
      dos_checksum = bs ! 13, lfn_name2 = u16_units (field bs 14 12), lfn_first_cluster = le_word (field bs 26 2),
      lfn_name3 = u16_units (field bs 28 4)\<rparr>"

section \<open>Mounting\<close>

definition fat_signature :: "u8 list \<Rightarrow> bool" where
  "fat_signature bs \<longleftrightarrow>
     strncmp (drop 0x36 bs) (chars ''FAT'' @ [0]) 3 = Some 0 \<or>
     strncmp (drop 0x52 bs) (chars ''FAT'' @ [0]) 3 = Some 0 \<or>
     strncmp (drop 0x03 bs) (chars ''FAT32'' @ [0]) 5 = Some 0"

text \<open>The type by the number of clusters; none if the metadata exceeds the size.\<close>

definition fat_type_of :: "fat32_bpb \<Rightarrow> nat option" where
  "fat_type_of bpb =
     (let bps = unat (bpb_bytes_per_sector bpb);
          root_dir_sects = (unat (bpb_root_entries_count bpb) * 32 + (bps - 1)) div bps;
          total_sects = (if bpb_sectors_count_16 bpb \<noteq> 0 then unat (bpb_sectors_count_16 bpb) else unat (bpb_sectors_count_32 bpb));
          spf = (if bpb_sectors_per_fat_16 bpb \<noteq> 0 then unat (bpb_sectors_per_fat_16 bpb) else unat (bpb_sectors_per_fat_32 bpb));
          metadata_sects = unat (bpb_reserved_sectors bpb) + unat (bpb_fats_count bpb) * spf + root_dir_sects
      in if metadata_sects \<ge> total_sects then None
         else
           let clusters_count = (total_sects - metadata_sects) div unat (bpb_sectors_per_cluster bpb)
           in Some (if clusters_count < 4085 then 12 else if clusters_count < 65525 then 16 else 32))"

text \<open>Where the active FAT starts.\<close>

definition active_fat_start :: "fat32_bpb \<Rightarrow> nat \<Rightarrow> u32 \<Rightarrow> u32 option" where
  "active_fat_start bpb t spf =
     (if t = 32 \<and> and (bpb_flags bpb) 0x80 \<noteq> 0 then
        let active_fat = and (bpb_flags bpb) 0x0f in
        if active_fat \<ge> ucast (bpb_fats_count bpb) then None
        else Some (ucast (bpb_reserved_sectors bpb) + ucast active_fat * spf)
      else Some (ucast (bpb_reserved_sectors bpb)))"

definition fat32_context_of :: "u8 list \<Rightarrow> fat32_context option" where
  "fat32_context_of bs =
     (let bpb = fat32_bpb_of bs in
      if \<not> fat_signature bs then None
      else if bpb_sectors_per_cluster bpb \<notin> set [1, 2, 4, 8, 16, 32, 64, 128] then None
      else if bpb_bytes_per_sector bpb \<notin> set [512, 1024, 2048, 4096] then None
      else if bpb_fats_count bpb = 0 \<or> bpb_fats_count bpb > 4 then None
      else if bpb_reserved_sectors bpb = 0 then None
      else case fat_type_of bpb of
        None \<Rightarrow> None
      | Some t \<Rightarrow>
          let spf = (if t = 32 then bpb_sectors_per_fat_32 bpb else ucast (bpb_sectors_per_fat_16 bpb)) in
          if spf = 0 then None
          else if t \<noteq> 32 \<and> bpb_root_entries_count bpb = 0 then None
          else case active_fat_start bpb t spf of
            None \<Rightarrow> None
          | Some fat_start \<Rightarrow>
              let root_start_64 = ucast (bpb_reserved_sectors bpb) + ucast (bpb_fats_count bpb) * ucast spf :: u64 in
              if root_start_64 > 0xffffffff then None
              else case DIV_ROUNDUP (ucast (bpb_root_entries_count bpb) * of_nat sizeof_fat32_directory_entry :: u64)
                          (ucast (bpb_bytes_per_sector bpb)) of
                None \<Rightarrow> None
              | Some root_size_64 \<Rightarrow>
                  case (if t = 32 then Some (ucast root_start_64)
                        else CHECKED_ADD (ucast root_start_64 :: u32) (ucast root_size_64)) of
                    None \<Rightarrow> None
                  | Some data_start \<Rightarrow>
                      Some \<lparr>fat_type = t, bytes_per_sector = bpb_bytes_per_sector bpb,
                            sectors_per_cluster = bpb_sectors_per_cluster bpb,
                            reserved_sectors = bpb_reserved_sectors bpb, number_of_fats = bpb_fats_count bpb,
                            hidden_sectors = bpb_hidden_sectors_count bpb, sectors_per_fat = spf,
                            fat_start_lba = fat_start, data_start_lba = data_start,
                            root_directory_cluster = bpb_root_directory_cluster bpb,
                            root_entries = bpb_root_entries_count bpb, root_start = ucast root_start_64,
                            root_size = ucast root_size_64\<rparr>)"

definition fat32_init_context :: "vol_reader \<Rightarrow> fat32_context option vact" where
  "fat32_init_context vr =
     vread_or vr 0 (of_nat sizeof_fat32_bpb) (ret None) (\<lambda>bs. ret (fat32_context_of bs))"

section \<open>Cluster chains\<close>

definition fat_base :: "fat32_context \<Rightarrow> u64" where
  "fat_base ctx = ucast (fat_start_lba ctx) * ucast (bytes_per_sector ctx)"

definition fat_size :: "fat32_context \<Rightarrow> u64" where
  "fat_size ctx = ucast (sectors_per_fat ctx) * ucast (bytes_per_sector ctx)"

text \<open>Where the entry of a cluster is in the FAT, and how many bytes it takes.\<close>

definition fat_entry_offset :: "fat32_context \<Rightarrow> u32 \<Rightarrow> u64" where
  "fat_entry_offset ctx cluster =
     (if fat_type ctx = 12 then ucast cluster + ucast (cluster div 2)
      else if fat_type ctx = 16 then ucast cluster * 2 else ucast cluster * 4)"

definition fat_entry_size :: "fat32_context \<Rightarrow> u64" where
  "fat_entry_size ctx = (if fat_type ctx = 12 \<or> fat_type ctx = 16 then 2 else 4)"

definition fat_entry_value :: "fat32_context \<Rightarrow> u32 \<Rightarrow> u8 list \<Rightarrow> u32" where
  "fat_entry_value ctx cluster bs =
     (if fat_type ctx = 12 then
        let tmp = le_word bs :: u16 in
        if cluster mod 2 = 0 then ucast (and tmp 0xfff) else ucast (drop_bit 4 tmp)
      else if fat_type ctx = 16 then ucast (le_word bs :: u16)
      else and (le_word bs) 0x0fffffff)"

definition read_cluster_from_map :: "vol_reader \<Rightarrow> fat32_context \<Rightarrow> u32 \<Rightarrow> u32 option vact" where
  "read_cluster_from_map vr ctx cluster =
     (let offset = fat_entry_offset ctx cluster in
      if offset + fat_entry_size ctx > fat_size ctx then ret None
      else vread_or vr (fat_base ctx + offset) (fat_entry_size ctx) (ret None) (\<lambda>bs.
        ret (Some (fat_entry_value ctx cluster bs))))"

definition FAT32_MAX_CHAIN_LENGTH :: nat where "FAT32_MAX_CHAIN_LENGTH = 64 * 1024 * 1024 div 4"

definition cluster_limit :: "fat32_context \<Rightarrow> u32" where
  "cluster_limit ctx =
     or (or (if fat_type ctx = 12 then 0xfef else 0) (if fat_type ctx = 16 then 0xffef else 0))
        (if fat_type ctx = 32 then 0xfffffef else 0)"

definition max_clusters :: "fat32_context \<Rightarrow> nat" where
  "max_clusters ctx =
     (let m0 = unat (cluster_limit ctx - 1);
          m1 = (if m0 > FAT32_MAX_CHAIN_LENGTH then FAT32_MAX_CHAIN_LENGTH else m0);
          fat_entries = (if fat_type ctx = 12 then fat_size ctx * 2 div 3
                         else if fat_type ctx = 16 then fat_size ctx div 2 else fat_size ctx div 4)
      in if unat fat_entries < m1 then unat fat_entries else m1)"

text \<open>The last cluster that is on the medium.\<close>

definition readable_cluster_limit :: "fat32_context \<Rightarrow> volume \<Rightarrow> u64 option" where
  "readable_cluster_limit ctx vol =
     (if size_unknown vol then Some (ucast (cluster_limit ctx))
      else case CHECKED_MUL (sect_count vol) 512 of
        None \<Rightarrow> None
      | Some bytes \<Rightarrow>
          let volume_sectors = bytes div ucast (bytes_per_sector ctx);
              data_clusters = (if volume_sectors > ucast (data_start_lba ctx)
                               then (volume_sectors - ucast (data_start_lba ctx)) div ucast (sectors_per_cluster ctx) else 0)
          in Some (if data_clusters + 1 < ucast (cluster_limit ctx) then data_clusters + 1 else ucast (cluster_limit ctx)))"

definition in_chain :: "fat32_context \<Rightarrow> u32 \<Rightarrow> bool" where
  "in_chain ctx cluster \<longleftrightarrow> \<not> (cluster < 2 \<or> cluster > cluster_limit ctx)"

text \<open>The first pass counts the clusters, the second notes them.\<close>

fun count_chain :: "vol_reader \<Rightarrow> fat32_context \<Rightarrow> u64 \<Rightarrow> u32 \<Rightarrow> nat \<Rightarrow> nat option vact" where
  "count_chain vr ctx limit cluster 0 = ret None"
| "count_chain vr ctx limit cluster (Suc n) =
     (if ucast cluster > limit then ret None
      else act_bind (read_cluster_from_map vr ctx cluster) (\<lambda>r.
        case r of
          None \<Rightarrow> ret None
        | Some c \<Rightarrow>
            if \<not> in_chain ctx c then ret (Some 1)
            else act_bind (count_chain vr ctx limit c n) (\<lambda>k. ret (map_option Suc k))))"

fun fill_chain :: "vol_reader \<Rightarrow> fat32_context \<Rightarrow> u32 \<Rightarrow> nat \<Rightarrow> u32 list option vact" where
  "fill_chain vr ctx cluster 0 = ret (Some [])"
| "fill_chain vr ctx cluster (Suc n) =
     act_bind (read_cluster_from_map vr ctx cluster) (\<lambda>r.
       case r of
         None \<Rightarrow> ret None
       | Some c \<Rightarrow> act_bind (fill_chain vr ctx c n) (\<lambda>cs. ret (map_option ((#) cluster) cs)))"

definition cache_cluster_chain :: "vol_reader \<Rightarrow> fat32_context \<Rightarrow> u32 \<Rightarrow> u32 list option vact" where
  "cache_cluster_chain vr ctx initial_cluster =
     (if \<not> in_chain ctx initial_cluster then ret None
      else get_state (\<lambda>vol.
        case readable_cluster_limit ctx vol of
          None \<Rightarrow> ret None
        | Some limit \<Rightarrow>
            act_bind (count_chain vr ctx limit initial_cluster (max_clusters ctx)) (\<lambda>len.
              case len of
                None \<Rightarrow> ret None
              | Some chain_length \<Rightarrow> fill_chain vr ctx initial_cluster chain_length)))"

section \<open>Reading a chain\<close>

definition cluster_bytes :: "fat32_context \<Rightarrow> u64" where
  "cluster_bytes ctx = ucast (sectors_per_cluster ctx) * ucast (bytes_per_sector ctx)"

definition cluster_base :: "fat32_context \<Rightarrow> u32 \<Rightarrow> u64" where
  "cluster_base ctx cluster =
     (ucast (data_start_lba ctx) + ucast (cluster - 2) * ucast (sectors_per_cluster ctx)) * ucast (bytes_per_sector ctx)"

text \<open>A cluster size of zero would divide by zero, which stops the machine.\<close>

function read_chain_loop :: "vol_reader \<Rightarrow> fat32_context \<Rightarrow> u32 list \<Rightarrow> u64 \<Rightarrow> u64 \<Rightarrow> u64 \<Rightarrow> u8 list \<Rightarrow> u8 list option vact" where
  "read_chain_loop vr ctx chain loc cnt progress out =
     (if \<not> progress < cnt then ret (Some out)
      else if cluster_bytes ctx = 0 then panic ''division by zero''
      else
        let block = (loc + progress) div cluster_bytes ctx in
        if unat block \<ge> length chain then ret None
        else
          let cluster = chain ! unat block in
          if cluster < 2 then ret None
          else
            let chunk = read_chunk (cluster_bytes ctx) loc cnt progress;
                offset = (loc + progress) mod cluster_bytes ctx
            in vread_or vr (cluster_base ctx cluster + offset) chunk (ret None) (\<lambda>bs.
                 read_chain_loop vr ctx chain loc cnt (progress + chunk) (out @ bs)))"
  by pat_completeness auto
termination
proof (relation "measure (\<lambda>(vr, ctx, chain, loc, cnt, progress, out). unat cnt - unat progress)", goal_cases)
  case (2 vr ctx chain loc cnt progress out block cluster chunk offset bs)
  then have c: "progress < cnt" "cluster_bytes ctx \<noteq> 0" "chunk = read_chunk (cluster_bytes ctx) loc cnt progress" by simp_all
  note b = read_chunk_bounds [OF c(2,1), of loc, folded c(3)]
  have "unat (progress + chunk) = unat progress + unat chunk"
    using b(2) unat_bound [of cnt] by (intro unat_add_exact) simp
  then show ?case using b by simp
qed simp

declare read_chain_loop.simps [simp del]

definition read_cluster_chain :: "vol_reader \<Rightarrow> fat32_context \<Rightarrow> u32 list \<Rightarrow> u64 \<Rightarrow> u64 \<Rightarrow> u8 list option vact" where
  "read_cluster_chain vr ctx chain loc cnt = read_chain_loop vr ctx chain loc cnt 0 []"

section \<open>Names\<close>

definition fat32_lfn_checksum :: "u8 list \<Rightarrow> u8" where
  "fat32_lfn_checksum sfn =
     fold (\<lambda>c cks. (if and cks 1 \<noteq> 0 then 0x80 else 0) + drop_bit 1 cks + c) (take 11 sfn) 0"

definition fat32_tolower :: "u16 \<Rightarrow> u16" where
  "fat32_tolower c =
     (if c \<ge> 0x41 \<and> c \<le> 0x5a \<or> c \<ge> 0xc0 \<and> c \<le> 0xde \<and> c \<noteq> 0xd7 \<or> c \<ge> 0x391 \<and> c \<le> 0x3a9 \<and> c \<noteq> 0x3a2
      then c + 0x20 else c)"

definition cp437_to_unicode :: "u16 list" where
  "cp437_to_unicode =
     [
      0x0020, 0x263a, 0x263b, 0x2665, 0x2666, 0x2663, 0x2660, 0x2022,
      0x25d8, 0x25cb, 0x25d9, 0x2642, 0x2640, 0x266a, 0x266b, 0x263c,
      0x25ba, 0x25c4, 0x2195, 0x203c, 0x00b6, 0x00a7, 0x25ac, 0x21a8,
      0x2191, 0x2193, 0x2192, 0x2190, 0x221f, 0x2194, 0x25b2, 0x25bc,
      0x0020, 0x0021, 0x0022, 0x0023, 0x0024, 0x0025, 0x0026, 0x0027,
      0x0028, 0x0029, 0x002a, 0x002b, 0x002c, 0x002d, 0x002e, 0x002f,
      0x0030, 0x0031, 0x0032, 0x0033, 0x0034, 0x0035, 0x0036, 0x0037,
      0x0038, 0x0039, 0x003a, 0x003b, 0x003c, 0x003d, 0x003e, 0x003f,
      0x0040, 0x0041, 0x0042, 0x0043, 0x0044, 0x0045, 0x0046, 0x0047,
      0x0048, 0x0049, 0x004a, 0x004b, 0x004c, 0x004d, 0x004e, 0x004f,
      0x0050, 0x0051, 0x0052, 0x0053, 0x0054, 0x0055, 0x0056, 0x0057,
      0x0058, 0x0059, 0x005a, 0x005b, 0x005c, 0x005d, 0x005e, 0x005f,
      0x0060, 0x0061, 0x0062, 0x0063, 0x0064, 0x0065, 0x0066, 0x0067,
      0x0068, 0x0069, 0x006a, 0x006b, 0x006c, 0x006d, 0x006e, 0x006f,
      0x0070, 0x0071, 0x0072, 0x0073, 0x0074, 0x0075, 0x0076, 0x0077,
      0x0078, 0x0079, 0x007a, 0x007b, 0x007c, 0x007d, 0x007e, 0x2302,
      0x00c7, 0x00fc, 0x00e9, 0x00e2, 0x00e4, 0x00e0, 0x00e5, 0x00e7,
      0x00ea, 0x00eb, 0x00e8, 0x00ef, 0x00ee, 0x00ec, 0x00c4, 0x00c5,
      0x00c9, 0x00e6, 0x00c6, 0x00f4, 0x00f6, 0x00f2, 0x00fb, 0x00f9,
      0x00ff, 0x00d6, 0x00dc, 0x00a2, 0x00a3, 0x00a5, 0x20a7, 0x0192,
      0x00e1, 0x00ed, 0x00f3, 0x00fa, 0x00f1, 0x00d1, 0x00aa, 0x00ba,
      0x00bf, 0x2310, 0x00ac, 0x00bd, 0x00bc, 0x00a1, 0x00ab, 0x00bb,
      0x2591, 0x2592, 0x2593, 0x2502, 0x2524, 0x2561, 0x2562, 0x2556,
      0x2555, 0x2563, 0x2551, 0x2557, 0x255d, 0x255c, 0x255b, 0x2510,
      0x2514, 0x2534, 0x252c, 0x251c, 0x2500, 0x253c, 0x255e, 0x255f,
      0x255a, 0x2554, 0x2569, 0x2566, 0x2560, 0x2550, 0x256c, 0x2567,
      0x2568, 0x2564, 0x2565, 0x2559, 0x2558, 0x2552, 0x2553, 0x256b,
      0x256a, 0x2518, 0x250c, 0x2588, 0x2584, 0x258c, 0x2590, 0x2580,
      0x03b1, 0x00df, 0x0393, 0x03c0, 0x03a3, 0x03c3, 0x00b5, 0x03c4,
      0x03a6, 0x0398, 0x03a9, 0x03b4, 0x221e, 0x03c6, 0x03b5, 0x2229,
      0x2261, 0x00b1, 0x2265, 0x2264, 0x2320, 0x2321, 0x00f7, 0x2248,
      0x00b0, 0x2219, 0x00b7, 0x221a, 0x207f, 0x00b2, 0x25a0, 0x00a0]"

definition sfn_unit :: "nat \<Rightarrow> u8 \<Rightarrow> u16" where
  "sfn_unit i c =
     (let c = (if i = 0 \<and> c = 0x05 then 0xe5 else c)
      in if c < 0x80 then ucast c else cp437_to_unicode ! unat c)"

definition fat32_sfn_matches :: "u8 list \<Rightarrow> u16 list \<Rightarrow> bool" where
  "fat32_sfn_matches sfn fn = list_all (\<lambda>i. fat32_tolower (sfn_unit i (sfn ! i)) = fat32_tolower (fn ! i)) [0..<11]"

definition fat32_cp437_encodes :: "u16 \<Rightarrow> bool" where
  "fat32_cp437_encodes c \<longleftrightarrow> c < 0x80 \<or> c \<in> set (drop 0x80 cp437_to_unicode)"

fun to_8_3_loop :: "u16 list \<Rightarrow> nat \<Rightarrow> bool \<Rightarrow> u16 list \<Rightarrow> u16 list option" where
  "to_8_3_loop [] j ext dest = Some dest"
| "to_8_3_loop (c # cs) j ext dest =
     (if c = 0x2e then if ext then None else to_8_3_loop cs 8 True dest
      else if j \<ge> 8 + 3 \<or> j \<ge> 8 \<and> \<not> ext then None
      else if \<not> fat32_cp437_encodes c then None
      else to_8_3_loop cs (j + 1) ext (dest[j := c]))"

definition fat32_filename_to_8_3 :: "cptr \<Rightarrow> u16 list option" where
  "fat32_filename_to_8_3 src =
     (case utf8_to_utf16 (replicate (8 + 1 + 3 + 1) 0) (cstr src) of
        (ok, src16, len) \<Rightarrow>
          if \<not> ok then None else to_8_3_loop (take len src16) 0 False (replicate (8 + 3) 0x20))"

section \<open>Directories\<close>

text \<open>The bytes of a directory: of a cluster chain, or of the fixed root of FAT12 and FAT16.\<close>

definition dir_chain_bytes :: "arch \<Rightarrow> nat \<Rightarrow> nat \<Rightarrow> nat option" where
  "dir_chain_bytes arch len block_size =
     (if len * block_size \<ge> 2 ^ size_t_bits arch then None
      else if len * block_size > 256 * 1024 * 1024 then None
      else Some (len * block_size))"

definition entry_cluster :: "fat32_context \<Rightarrow> fat32_directory_entry \<Rightarrow> u32" where
  "entry_cluster ctx e =
     (if fat_type ctx = 32 then or (ucast (cluster_num_low e)) (push_bit 16 (ucast (cluster_num_high e)))
      else ucast (cluster_num_low e))"

definition read_directory :: "vol_reader \<Rightarrow> arch \<Rightarrow> fat32_context \<Rightarrow> fat32_directory_entry option \<Rightarrow> u8 list option vact" where
  "read_directory vr arch ctx directory =
     (let block_size = unat (cluster_bytes ctx) in
      case directory of
        Some d \<Rightarrow>
          act_bind (cache_cluster_chain vr ctx (entry_cluster ctx d)) (\<lambda>chain.
            case chain of
              None \<Rightarrow> ret None
            | Some cs \<Rightarrow>
                case dir_chain_bytes arch (length cs) block_size of
                  None \<Rightarrow> ret None
                | Some alloc_size \<Rightarrow> read_cluster_chain vr ctx cs 0 (of_nat alloc_size))
      | None \<Rightarrow>
          let root_bytes = unat (root_entries ctx) * sizeof_fat32_directory_entry;
              dir_chain_len = (root_bytes + (block_size - 1)) div block_size
          in case dir_chain_bytes arch dir_chain_len block_size of
               None \<Rightarrow> ret None
             | Some alloc_size \<Rightarrow>
                 vread_or vr (ucast (root_start ctx) * ucast (bytes_per_sector ctx)) (of_nat root_bytes) (ret None) (\<lambda>bs.
                   ret (Some (bs @ replicate (alloc_size - root_bytes) 0))))"

fun entries_of :: "u8 list \<Rightarrow> nat \<Rightarrow> u8 list list" where
  "entries_of bs 0 = []"
| "entries_of bs (Suc n) = take 32 bs # entries_of (drop 32 bs) n"

fun dir_label :: "u8 list list \<Rightarrow> cptr option" where
  "dir_label [] = None"
| "dir_label (e # es) =
     (if e ! 0 = 0 then None
      else if e ! 0 = 0xe5 then dir_label es
      else if e ! 11 \<noteq> FAT32_ATTRIBUTE_VOLLABEL then dir_label es
      else Some (trim_spaces 11 (field e 0 11 @ [0])))"

text \<open>The long name collected so far, the number of the entry expected next, and the checksum of the set.\<close>

record lfn_state =
  current_lfn :: "u16 list"
  lfn_expected :: u32
  lfn_checksum :: u8

definition put_units :: "u16 list \<Rightarrow> nat \<Rightarrow> u16 list \<Rightarrow> u16 list" where
  "put_units lfn i us = take i lfn @ us @ drop (i + length us) lfn"

text \<open>An entry of a long name: the state after it, and whether the name is now complete.\<close>

definition lfn_step :: "fat32_lfn_entry \<Rightarrow> lfn_state \<Rightarrow> bool \<times> lfn_state" where
  "lfn_step lfn st =
     (let seq_num = ucast (and (sequence_number lfn) 0b00011111) :: u32;
          st = (if and (sequence_number lfn) 0b01000000 \<noteq> 0
                then \<lparr>current_lfn = replicate (FAT32_LFN_MAX_ENTRIES * 13) 0, lfn_expected = seq_num,
                      lfn_checksum = dos_checksum lfn\<rparr>
                else st)
      in if seq_num = 0 \<or> seq_num \<noteq> lfn_expected st \<or> dos_checksum lfn \<noteq> lfn_checksum st
         then (False, st\<lparr>lfn_expected := 0\<rparr>)
         else
           let st = st\<lparr>lfn_expected := lfn_expected st - 1\<rparr>;
               lfn_index = (unat seq_num - 1) * 13
           in if lfn_index \<ge> FAT32_LFN_MAX_ENTRIES * 13 then (False, st\<lparr>lfn_expected := 0\<rparr>)
              else
                let name = put_units (put_units (put_units (current_lfn st) lfn_index (lfn_name1 lfn))
                             (lfn_index + 5) (lfn_name2 lfn)) (lfn_index + 11) (lfn_name3 lfn)
                in (seq_num = 1, st\<lparr>current_lfn := name\<rparr>))"

definition lfn_matches :: "bool \<Rightarrow> cptr \<Rightarrow> lfn_state \<Rightarrow> bool" where
  "lfn_matches ci name st =
     (case utf16_to_utf8 (replicate FAT32_LFN_MAX_FILENAME_LENGTH 0) (current_lfn st) of
        (ok, lfn_utf8, len) \<Rightarrow> ok \<and> (if ci then strcasecmp lfn_utf8 name else strcmp lfn_utf8 name) = Some 0)"

definition lfn_names :: "u8 \<Rightarrow> u8 list \<Rightarrow> bool" where
  "lfn_names cks e \<longleftrightarrow>
     \<not> (e ! 0 = 0 \<or> e ! 0 = 0xe5 \<or> e ! 11 = FAT32_LFN_ATTRIBUTE \<or> fat32_lfn_checksum (field e 0 11) \<noteq> cks)"

definition sfn_step :: "cptr \<Rightarrow> u8 list \<Rightarrow> bool" where
  "sfn_step name e =
     (if and (e ! 11) 8 \<noteq> 0 then False
      else case fat32_filename_to_8_3 name of
        None \<Rightarrow> False
      | Some fn \<Rightarrow> fat32_sfn_matches (field e 0 11) fn)"

fun dir_lookup :: "bool \<Rightarrow> cptr \<Rightarrow> lfn_state \<Rightarrow> u8 list list \<Rightarrow> fat32_directory_entry option" where
  "dir_lookup ci name st [] = None"
| "dir_lookup ci name st (e # es) =
     (if e ! 0 = 0 then None
      else if e ! 0 = 0xe5 then dir_lookup ci name (st\<lparr>lfn_expected := 0\<rparr>) es
      else if e ! 11 = FAT32_LFN_ATTRIBUTE then
        (case lfn_step (fat32_lfn_entry_of e) st of
           (complete, st) \<Rightarrow>
             if complete \<and> lfn_matches ci name st then
               (case es of
                  [] \<Rightarrow> dir_lookup ci name (st\<lparr>lfn_expected := 0\<rparr>) es
                | sfn # _ \<Rightarrow>
                    if lfn_names (lfn_checksum st) sfn then Some (fat32_directory_entry_of sfn)
                    else dir_lookup ci name (st\<lparr>lfn_expected := 0\<rparr>) es)
             else dir_lookup ci name st es)
      else if sfn_step name e then Some (fat32_directory_entry_of e)
      else dir_lookup ci name st es)"

datatype dir_result = Dir_Label cptr | Dir_Entry fat32_directory_entry

text \<open>Without a name the volume label is looked for.\<close>

definition fat32_open_in ::
    "vol_reader \<Rightarrow> arch \<Rightarrow> bool \<Rightarrow> fat32_context \<Rightarrow> fat32_directory_entry option \<Rightarrow> cptr option \<Rightarrow> dir_result option vact" where
  "fat32_open_in vr arch case_insensitive_fopen ctx directory name =
     act_bind (read_directory vr arch ctx directory) (\<lambda>r.
       case r of
         None \<Rightarrow> ret None
       | Some bs \<Rightarrow>
           let es = entries_of bs (length bs div sizeof_fat32_directory_entry);
               st = \<lparr>current_lfn = replicate (FAT32_LFN_MAX_ENTRIES * 13) 0, lfn_expected = 0, lfn_checksum = 0\<rparr>
           in ret (case name of
                     None \<Rightarrow> map_option Dir_Label (dir_label es)
                   | Some n \<Rightarrow> map_option Dir_Entry (dir_lookup case_insensitive_fopen n st es)))"

definition root_directory :: "fat32_context \<Rightarrow> fat32_directory_entry option" where
  "root_directory ctx =
     (if fat_type ctx = 32
      then Some \<lparr>file_name_and_ext = [], attribute = 0,
                 cluster_num_high = ucast (drop_bit 16 (root_directory_cluster ctx)),
                 cluster_num_low = ucast (and (root_directory_cluster ctx) 0xffff), file_size_bytes = 0\<rparr>
      else None)"

definition fat32_get_label :: "vol_reader \<Rightarrow> arch \<Rightarrow> cptr option vact" where
  "fat32_get_label vr arch =
     act_bind (fat32_init_context vr) (\<lambda>c.
       case c of
         None \<Rightarrow> ret None
       | Some ctx \<Rightarrow>
           act_bind (fat32_open_in vr arch False ctx (root_directory ctx) None) (\<lambda>r.
             ret (case r of Some (Dir_Label l) \<Rightarrow> Some l | _ \<Rightarrow> None)))"

section \<open>Files\<close>

record fat32_file_handle =
  ff_context :: fat32_context
  first_cluster :: u32
  size_bytes :: u32
  cluster_chain :: "u32 list"

text \<open>
  The next component of a path, whether a slash ends it, and the path after it; none if it is too
  long.
\<close>

fun path_component :: "nat \<Rightarrow> cptr \<Rightarrow> u8 list \<Rightarrow> (cptr \<times> bool \<times> cptr) option" where
  "path_component 0 path acc = None"
| "path_component (Suc n) [] acc = None"
| "path_component (Suc n) (c # path) acc =
     (if c = 0 then Some (acc @ [0], False, c # path)
      else if c = 0x2f then Some (acc @ [0], True, path)
      else path_component n path (acc @ [c]))"

lemma path_component_shorter: "path_component n path acc = Some (name, True, rest) \<Longrightarrow> length rest < length path"
  by (induction n path acc rule: path_component.induct) (auto split: if_splits)

function fat32_walk :: "vol_reader \<Rightarrow> arch \<Rightarrow> bool \<Rightarrow> fat32_context \<Rightarrow> fat32_directory_entry option \<Rightarrow> cptr \<Rightarrow> fat32_file_handle option vact" where
  "fat32_walk vr arch ci ctx directory path =
     (case path_component (FAT32_LFN_MAX_FILENAME_LENGTH - 1) path [] of
        None \<Rightarrow> ret None
      | Some (current_part, expect_directory, rest) \<Rightarrow>
          act_bind (fat32_open_in vr arch ci ctx directory (Some current_part)) (\<lambda>r.
            case r of
              Some (Dir_Entry current_file) \<Rightarrow>
                if expect_directory then
                  if and (attribute current_file) FAT32_ATTRIBUTE_SUBDIRECTORY = 0 then ret None
                  else fat32_walk vr arch ci ctx (Some current_file) rest
                else
                  act_bind (cache_cluster_chain vr ctx (entry_cluster ctx current_file)) (\<lambda>chain.
                    let cs = (case chain of None \<Rightarrow> [] | Some cs \<Rightarrow> cs) in
                    if ucast (file_size_bytes current_file) > of_nat (length cs) * cluster_bytes ctx then ret None
                    else ret (Some \<lparr>ff_context = ctx, first_cluster = entry_cluster ctx current_file,
                                    size_bytes = file_size_bytes current_file, cluster_chain = cs\<rparr>))
            | _ \<Rightarrow> ret None))"
  by pat_completeness auto
termination
  by (relation "measure (\<lambda>(vr, arch, ci, ctx, d, path). length path)") (auto dest: path_component_shorter)

declare fat32_walk.simps [simp del]

definition fat32_open :: "vol_reader \<Rightarrow> arch \<Rightarrow> bool \<Rightarrow> cptr \<Rightarrow> fat32_file_handle option vact" where
  "fat32_open vr arch case_insensitive_fopen path =
     act_bind (fat32_init_context vr) (\<lambda>c.
       case c of
         None \<Rightarrow> ret None
       | Some ctx \<Rightarrow>
           fat32_walk vr arch case_insensitive_fopen ctx (root_directory ctx) (dropWhile (\<lambda>c. c = 0x2f) path))"

definition fat32_read :: "vol_reader \<Rightarrow> fat32_file_handle \<Rightarrow> u64 \<Rightarrow> u64 \<Rightarrow> u8 list vact" where
  "fat32_read vr f loc cnt =
     act_bind (read_cluster_chain vr (ff_context f) (cluster_chain f) loc cnt) (\<lambda>r.
       case r of
         None \<Rightarrow> panic ''fat32: cluster chain read failed (corrupted filesystem?)''
       | Some bs \<Rightarrow> ret bs)"

end
