(* ===== verification/Fat_Proof.thy ===== *)
theory Fat_Proof
  imports Fat
begin

text \<open>
  What the FAT driver promises: the chain of a file is the one in the FAT, without repetition and
  on the medium; reading a file returns the bytes of its clusters in order; and on a disk that
  delivers its sectors no read within the size of an open file panics.
\<close>

section \<open>The driver on an image\<close>

lemma refines_entry [refines_rules]:
  "(\<And>l. x = Dir_Label l \<Longrightarrow> refines good (f l) t (g l)) \<Longrightarrow> (\<And>e. x = Dir_Entry e \<Longrightarrow> refines good (h e) t (k e)) \<Longrightarrow>
   refines good (case x of Dir_Label l \<Rightarrow> f l | Dir_Entry e \<Rightarrow> h e) t (case x of Dir_Label l \<Rightarrow> g l | Dir_Entry e \<Rightarrow> k e)"
  by (cases x) simp_all

context image_volume
begin

lemma init_refines [refines_rules]: "refines good (fat32_init_context vr) v0 (fat32_init_context (image_reader img))"
  unfolding fat32_init_context_def by (intro refines_rules)

lemma map_refines [refines_rules]:
  "refines good (read_cluster_from_map vr ctx c) v0 (read_cluster_from_map (image_reader img) ctx c)"
  unfolding read_cluster_from_map_def by (intro refines_rules)

lemma count_refines [refines_rules]:
  "refines good (count_chain vr ctx limit c n) v0 (count_chain (image_reader img) ctx limit c n)"
proof (induction n arbitrary: c)
  case (Suc n)
  show ?case unfolding count_chain.simps by (intro refines_rules Suc)
qed (simp add: refines_ret)

lemma fill_refines [refines_rules]:
  "refines good (fill_chain vr ctx c n) v0 (fill_chain (image_reader img) ctx c n)"
proof (induction n arbitrary: c)
  case (Suc n)
  show ?case unfolding fill_chain.simps by (intro refines_rules Suc)
qed (simp add: refines_ret)

lemma chain_refines [refines_rules]:
  "refines good (cache_cluster_chain vr ctx c) v0 (cache_cluster_chain (image_reader img) ctx c)"
proof -
  have l: "readable_cluster_limit ctx vol = readable_cluster_limit ctx v0" if "good vol" for vol
    using good_sects [OF that] by (simp add: readable_cluster_limit_def)
  show ?thesis
    unfolding cache_cluster_chain_def
    by (intro refines_if refines_ret refines_get_state, simp only: l) (intro refines_rules)
qed

lemma loop_refines:
  "vr' = vr \<Longrightarrow> refines good (read_chain_loop vr' ctx chain loc cnt progress out) v0
     (read_chain_loop (image_reader img) ctx chain loc cnt progress out)"
proof (induction vr' ctx chain loc cnt progress out rule: read_chain_loop.induct)
  case (1 vr' ctx chain loc cnt progress out)
  show ?case
    unfolding \<open>vr' = vr\<close> read_chain_loop.simps [of vr ctx chain loc cnt progress out]
      read_chain_loop.simps [of "image_reader img" ctx chain loc cnt progress out]
    by (intro refines_rules) (rule 1(1) [unfolded \<open>vr' = vr\<close>]; simp)
qed

lemma chain_read_refines [refines_rules]:
  "refines good (read_cluster_chain vr ctx chain loc cnt) v0 (read_cluster_chain (image_reader img) ctx chain loc cnt)"
  unfolding read_cluster_chain_def by (rule loop_refines) simp

lemma directory_refines [refines_rules]:
  "refines good (read_directory vr arch ctx d) v0 (read_directory (image_reader img) arch ctx d)"
  unfolding read_directory_def by (intro refines_rules)

lemma open_in_refines [refines_rules]:
  "refines good (fat32_open_in vr arch ci ctx d name) v0 (fat32_open_in (image_reader img) arch ci ctx d name)"
  unfolding fat32_open_in_def by (intro refines_rules)

lemma get_label_refines: "refines good (fat32_get_label vr arch) v0 (fat32_get_label (image_reader img) arch)"
  unfolding fat32_get_label_def by (intro refines_rules)

lemma walk_refines:
  "vr' = vr \<Longrightarrow> refines good (fat32_walk vr' arch ci ctx d path) v0 (fat32_walk (image_reader img) arch ci ctx d path)"
proof (induction vr' arch ci ctx d path rule: fat32_walk.induct)
  case (1 vr' arch ci ctx d path)
  show ?case
    unfolding \<open>vr' = vr\<close> fat32_walk.simps [of vr arch ci ctx d path] fat32_walk.simps [of "image_reader img" arch ci ctx d path]
    by (intro refines_rules) (rule 1(1) [unfolded \<open>vr' = vr\<close>]; simp)
qed

lemma open_refines: "refines good (fat32_open vr arch ci path) v0 (fat32_open (image_reader img) arch ci path)"
  unfolding fat32_open_def by (intro refines_rules walk_refines) simp

lemma file_read_refines: "refines good (fat32_read vr f loc cnt) v0 (fat32_read (image_reader img) f loc cnt)"
  unfolding fat32_read_def by (intro refines_rules)

end

section \<open>What is on the disk\<close>

definition ctx_ok :: "fat32_context \<Rightarrow> bool" where
  "ctx_ok ctx \<longleftrightarrow> fat_type ctx \<in> {12, 16, 32} \<and> sectors_per_cluster ctx \<noteq> 0 \<and> bytes_per_sector ctx \<noteq> 0"

lemma context_ok:
  assumes "fat32_context_of bs = Some ctx"
  shows "ctx_ok ctx"
proof -
  obtain t where t: "fat_type_of (fat32_bpb_of bs) = Some t" "fat_type ctx = t"
    "sectors_per_cluster ctx \<in> set [1, 2, 4, 8, 16, 32, 64, 128]" "bytes_per_sector ctx \<in> set [512, 1024, 2048, 4096]"
    using assms by (auto simp: fat32_context_of_def Let_def split: if_splits option.splits)
  then have "t \<in> {12, 16, 32}" by (auto simp: fat_type_of_def Let_def split: if_splits)
  then show ?thesis using t(2-4) by (auto simp: ctx_ok_def)
qed

text \<open>The cluster after a cluster, by the FAT on the disk.\<close>

definition fat_link :: "fat32_context \<Rightarrow> (nat \<Rightarrow> nat \<Rightarrow> u8 list) \<Rightarrow> u32 \<Rightarrow> u32" where
  "fat_link ctx content c =
     fat_entry_value ctx c (content (unat (fat_base ctx + fat_entry_offset ctx c)) (unat (fat_entry_size ctx)))"

text \<open>A chain of so many clusters: it ends after them, not before.\<close>

definition fat_chain :: "fat32_context \<Rightarrow> (nat \<Rightarrow> nat \<Rightarrow> u8 list) \<Rightarrow> u64 \<Rightarrow> u32 \<Rightarrow> nat \<Rightarrow> bool" where
  "fat_chain ctx content limit c n \<longleftrightarrow>
     0 < n \<and> (\<forall>i<n. in_chain ctx ((fat_link ctx content ^^ i) c) \<and> unat ((fat_link ctx content ^^ i) c) \<le> unat limit) \<and>
     \<not> in_chain ctx ((fat_link ctx content ^^ n) c)"

lemma fat_chain_Suc:
  assumes "in_chain ctx c" and "unat c \<le> unat limit" and "fat_chain ctx content limit (fat_link ctx content c) n"
  shows "fat_chain ctx content limit c (Suc n)"
proof -
  have s: "(fat_link ctx content ^^ Suc i) c = (fat_link ctx content ^^ i) (fat_link ctx content c)" for i
    by (simp add: funpow_swap1)
  have "in_chain ctx ((fat_link ctx content ^^ i) c) \<and> unat ((fat_link ctx content ^^ i) c) \<le> unat limit" if "i < Suc n" for i
    using that assms s by (cases i) (auto simp: fat_chain_def simp del: funpow.simps(2))
  moreover have "\<not> in_chain ctx ((fat_link ctx content ^^ Suc n) c)" using assms(3) unfolding s fat_chain_def by blast
  ultimately show ?thesis unfolding fat_chain_def by blast
qed

lemma fat_chain_distinct:
  assumes "fat_chain ctx content limit c n"
  shows "distinct (map (\<lambda>i. (fat_link ctx content ^^ i) c) [0..<n])"
proof -
  let ?l = "fat_link ctx content"
  have "False" if "i < j" "j < n" "(?l ^^ i) c = (?l ^^ j) c" for i j
  proof -
    have "(?l ^^ (n - j + i)) c = (?l ^^ (n - j + j)) c" using that(3) by (simp add: funpow_add)
    then have "(?l ^^ (n - j + i)) c = (?l ^^ n) c" using that(2) by simp
    moreover have "n - j + i < n" using that(1,2) by simp
    ultimately show False using assms unfolding fat_chain_def by metis
  qed
  then show ?thesis by (auto simp: distinct_map inj_on_def) (metis nat_neq_iff)
qed

lemma fat_position:
  "unat (fat_base ctx + fat_entry_offset ctx c) + unat (fat_entry_size ctx) \<le> 2 ^ 64"
proof -
  have b: "unat (ucast (x::u32) :: u64) < 2 ^ 32" for x using unat_bound [of x] by (simp add: unsigned_ucast_eq take_bit_nat_eq_self)
  have s: "unat (ucast (x::u16) :: u64) < 2 ^ 16" for x using unat_bound [of x] by (simp add: unsigned_ucast_eq take_bit_nat_eq_self)
  have "unat (ucast (fat_start_lba ctx) :: u64) * unat (ucast (bytes_per_sector ctx) :: u64) < 2 ^ 32 * 2 ^ 16"
    using b s by (intro mult_strict_mono) simp_all
  then have base: "unat (fat_base ctx) < 2 ^ 48" by (simp add: fat_base_def unat_mult_exact)
  have off: "unat (fat_entry_offset ctx c) < 2 ^ 35"
    using b [of c] b [of "c div 2"] by (simp add: fat_entry_offset_def unat_mult_exact unat_add_exact)
  show ?thesis using base off by (simp add: unat_add_exact fat_entry_size_def)
qed

context volume_reads
begin

lemma hoare_map_entry:
  "hoare good (read_cluster_from_map vr ctx c) (\<lambda>r vol. good vol \<and> (\<forall>x. r = Some x \<longrightarrow> x = fat_link ctx content c))"
  unfolding read_cluster_from_map_def
  by (intro hoare_Let hoare_if hoare_vread [OF fat_position] hoare_ret) (auto simp: fat_link_def)

lemma hoare_count_chain:
  assumes "in_chain ctx c"
  shows "hoare good (count_chain vr ctx limit c n) (\<lambda>r vol. good vol \<and> (\<forall>k. r = Some k \<longrightarrow> fat_chain ctx content limit c k \<and> k \<le> n))"
  using assms
proof (induction n arbitrary: c)
  case (Suc n)
  let ?Q = "\<lambda>r vol. good vol \<and> (\<forall>k. r = Some k \<longrightarrow> fat_chain ctx content limit c k \<and> k \<le> Suc n)"
  have u: "unat (ucast c :: u64) = unat c" using unat_bound [of c] by (simp add: unsigned_ucast_eq take_bit_nat_eq_self)
  have none: "hoare good (ret None) ?Q" by (auto intro: hoare_ret)
  show ?case
    unfolding count_chain.simps
  proof (intro hoare_if none hoare_bind [OF hoare_map_entry] hoare_pre_fact hoare_option)
    fix r d assume n: "\<not> limit < ucast c" and d: "\<forall>x. r = Some x \<longrightarrow> x = fat_link ctx content c" "r = Some d"
    have c: "unat c \<le> unat limit" using n u by (simp add: word_less_nat_alt)
    show "hoare good (ret (Some 1)) ?Q" if "\<not> in_chain ctx d"
      using that d c Suc.prems by (auto simp: fat_chain_def intro: hoare_ret)
    show "hoare good (act_bind (count_chain vr ctx limit d n) (\<lambda>k. ret (map_option Suc k))) ?Q" if "\<not> \<not> in_chain ctx d"
    proof (rule hoare_bind [OF Suc.IH])
      show "in_chain ctx d" using that by simp
      show "hoare (\<lambda>vol. good vol \<and> (\<forall>k. r' = Some k \<longrightarrow> fat_chain ctx content limit d k \<and> k \<le> n)) (ret (map_option Suc r')) ?Q" for r'
        using fat_chain_Suc [OF Suc.prems c] d by (auto intro!: hoare_ret)
    qed
  qed
qed (auto intro: hoare_ret)

lemma hoare_fill_chain:
  "hoare good (fill_chain vr ctx c n) (\<lambda>r vol. good vol \<and> (\<forall>cs. r = Some cs \<longrightarrow> cs = map (\<lambda>i. (fat_link ctx content ^^ i) c) [0..<n]))"
proof (induction n arbitrary: c)
  case (Suc n)
  let ?Q = "\<lambda>r vol. good vol \<and> (\<forall>cs. r = Some cs \<longrightarrow> cs = map (\<lambda>i. (fat_link ctx content ^^ i) c) [0..<Suc n])"
  have e: "map (\<lambda>i. (fat_link ctx content ^^ i) c) [0..<Suc n] = c # map (\<lambda>i. (fat_link ctx content ^^ i) (fat_link ctx content c)) [0..<n]"
    by (simp add: upt_conv_Cons map_Suc_upt [symmetric] funpow_swap1 del: upt_Suc)
  show ?case
    unfolding fill_chain.simps e
    by (intro hoare_bind [OF hoare_map_entry] hoare_pre_fact hoare_option hoare_bind [OF Suc] hoare_ret) auto
qed (auto intro: hoare_ret)

end

section \<open>Where the clusters are\<close>

lemma unat_ucast_64 [simp]:
  "unat (ucast (x :: u32) :: u64) = unat x" "unat (ucast (y :: u16) :: u64) = unat y" "unat (ucast (z :: u8) :: u64) = unat z"
  using unat_bound [of x] unat_bound [of y] unat_bound [of z] by (simp_all add: unsigned_ucast_eq take_bit_nat_eq_self)

lemma unat_cluster_bytes: "unat (cluster_bytes ctx) = unat (sectors_per_cluster ctx) * unat (bytes_per_sector ctx)"
  "unat (cluster_bytes ctx) < 2 ^ 24"
proof -
  have "unat (sectors_per_cluster ctx) * unat (bytes_per_sector ctx) < 2 ^ 8 * 2 ^ 16"
    using unat_bound [of "sectors_per_cluster ctx"] unat_bound [of "bytes_per_sector ctx"]
    by (intro mult_strict_mono) simp_all
  then show "unat (cluster_bytes ctx) = unat (sectors_per_cluster ctx) * unat (bytes_per_sector ctx)"
    "unat (cluster_bytes ctx) < 2 ^ 24" by (simp_all add: cluster_bytes_def unat_mult_exact)
qed

lemma ctx_ok_bytes: "ctx_ok ctx \<Longrightarrow> cluster_bytes ctx \<noteq> 0"
  by (simp add: ctx_ok_def word_unat_eq_iff [of "cluster_bytes ctx"] unat_cluster_bytes unat_gt_0)

lemma unat_cluster_base:
  assumes "2 \<le> c"
  shows "unat (cluster_base ctx c) =
      (unat (data_start_lba ctx) + (unat c - 2) * unat (sectors_per_cluster ctx)) * unat (bytes_per_sector ctx)"
    "unat (cluster_base ctx c) < 2 ^ 57"
proof -
  let ?d = "unat (data_start_lba ctx)" and ?s = "unat (sectors_per_cluster ctx)" and ?b = "unat (bytes_per_sector ctx)"
  have c: "unat (c - 2) = unat c - 2" using assms by (simp add: unat_sub_exact word_le_nat_alt)
  have p: "(unat c - 2) * ?s < 2 ^ 32 * 2 ^ 8"
    using unat_bound [of c] unat_bound [of "sectors_per_cluster ctx"] by (intro mult_strict_mono) simp_all
  then have s: "?d + (unat c - 2) * ?s < 2 ^ 41" using unat_bound [of "data_start_lba ctx"] by simp
  then have m: "(?d + (unat c - 2) * ?s) * ?b < 2 ^ 41 * 2 ^ 16"
    using unat_bound [of "bytes_per_sector ctx"] by (intro mult_strict_mono) simp_all
  have "unat (ucast (c - 2) * ucast (sectors_per_cluster ctx) :: u64) = (unat c - 2) * ?s"
    using p by (simp add: unat_mult_exact c)
  then have "unat (ucast (data_start_lba ctx) + ucast (c - 2) * ucast (sectors_per_cluster ctx) :: u64) = ?d + (unat c - 2) * ?s"
    using s by (simp add: unat_add_exact)
  then show "unat (cluster_base ctx c) = (?d + (unat c - 2) * ?s) * ?b" "unat (cluster_base ctx c) < 2 ^ 57"
    using m by (simp_all add: cluster_base_def unat_mult_exact)
qed

text \<open>A cluster that lies in the volume.\<close>

definition on_medium :: "fat32_context \<Rightarrow> u64 \<Rightarrow> u32 \<Rightarrow> bool" where
  "on_medium ctx sects c \<longleftrightarrow> sects = - 1 \<or> unat (cluster_base ctx c) + unat (cluster_bytes ctx) \<le> unat sects * 512"

lemma limit_on_medium:
  assumes "readable_cluster_limit ctx vol = Some limit" and "unat c \<le> unat limit" and "2 \<le> c"
  shows "on_medium ctx (sect_count vol) c"
proof (cases "size_unknown vol")
  case False
  then obtain bytes where b: "CHECKED_MUL (sect_count vol) 512 = Some bytes"
    using assms(1) by (auto simp: readable_cluster_limit_def split: option.splits)
  define vs where "vs = bytes div ucast (bytes_per_sector ctx)"
  define ds where "ds = (ucast (data_start_lba ctx) :: u64)"
  define n where "n = (if vs > ds then (vs - ds) div ucast (sectors_per_cluster ctx) else 0)"
  let ?s = "unat (sectors_per_cluster ctx)" and ?b = "unat (bytes_per_sector ctx)"
  have "(if n + 1 < ucast (cluster_limit ctx) then n + 1 else ucast (cluster_limit ctx)) = limit"
    unfolding n_def ds_def vs_def using assms(1) False b by (simp add: readable_cluster_limit_def Let_def split del: if_split)
  then have "unat limit \<le> unat (n + 1)" by (auto simp: word_less_nat_alt)
  also have "\<dots> \<le> unat n + 1" by (simp add: unat_plus_if' le_SucI)
  finally have n: "unat c - 2 < unat n" using assms(2,3) by (simp add: word_le_nat_alt)
  then have vd: "vs > ds" by (auto simp: n_def split: if_splits)
  then have un: "unat n = (unat vs - unat ds) div ?s" by (simp add: n_def unat_div unat_sub_exact word_less_nat_alt)
  have "(unat c - 2) * ?s + ?s \<le> unat n * ?s" using n by (metis Suc_leI add.commute mult_Suc mult_le_mono1)
  also have "\<dots> \<le> unat vs - unat ds" by (simp add: un)
  finally have "unat ds + (unat c - 2) * ?s + ?s \<le> unat vs" using vd by (simp add: word_less_nat_alt)
  then have "(unat ds + (unat c - 2) * ?s + ?s) * ?b \<le> unat vs * ?b" by (rule mult_le_mono1)
  also have "\<dots> \<le> unat bytes" by (simp add: vs_def unat_div)
  also have "\<dots> = unat (sect_count vol) * 512" using CHECKED_MUL_unat [OF b] by simp
  finally show ?thesis
    using unat_cluster_base(1) [OF assms(3)] by (simp add: on_medium_def unat_cluster_bytes ds_def add_mult_distrib)
qed (simp add: on_medium_def)

text \<open>The chain of a cluster, as it is in the FAT.\<close>

definition chain_of :: "fat32_context \<Rightarrow> (nat \<Rightarrow> nat \<Rightarrow> u8 list) \<Rightarrow> u64 \<Rightarrow> u32 \<Rightarrow> u32 list \<Rightarrow> bool" where
  "chain_of ctx content sects c cs \<longleftrightarrow>
     cs \<noteq> [] \<and> cs = map (\<lambda>i. (fat_link ctx content ^^ i) c) [0..<length cs] \<and>
     \<not> in_chain ctx ((fat_link ctx content ^^ length cs) c) \<and> distinct cs \<and>
     list_all (\<lambda>x. in_chain ctx x \<and> on_medium ctx sects x) cs"

lemma fat_chain_of:
  assumes "fat_chain ctx content limit c n" and "readable_cluster_limit ctx vol = Some limit"
  shows "chain_of ctx content (sect_count vol) c (map (\<lambda>i. (fat_link ctx content ^^ i) c) [0..<n])"
proof -
  have "in_chain ctx x \<and> on_medium ctx (sect_count vol) x" if "x \<in> set (map (\<lambda>i. (fat_link ctx content ^^ i) c) [0..<n])" for x
  proof -
    obtain i where "i < n" "x = (fat_link ctx content ^^ i) c" using \<open>x \<in> _\<close> by auto
    then have x: "in_chain ctx x" "unat x \<le> unat limit" using assms(1) unfolding fat_chain_def by blast+
    then show ?thesis using limit_on_medium [OF assms(2) x(2)] by (simp add: in_chain_def not_less)
  qed
  moreover have "0 < n" "\<not> in_chain ctx ((fat_link ctx content ^^ n) c)" using assms(1) unfolding fat_chain_def by blast+
  ultimately show ?thesis using fat_chain_distinct [OF assms(1)] by (simp add: chain_of_def list_all_iff)
qed

context volume_reads
begin

lemma hoare_chain:
  "hoare good (cache_cluster_chain vr ctx c) (\<lambda>r vol. good vol \<and> (\<forall>cs. r = Some cs \<longrightarrow> chain_of ctx content sects c cs))"
proof -
  let ?Q = "\<lambda>r vol. good vol \<and> (\<forall>cs. r = Some cs \<longrightarrow> chain_of ctx content sects c cs)"
  have none: "hoare good (ret None) ?Q" by (auto intro: hoare_ret)
  have fill: "hoare good (fill_chain vr ctx c n) ?Q"
    if "good vol" "readable_cluster_limit ctx vol = Some limit" "fat_chain ctx content limit c n" for vol limit n
    using fat_chain_of [OF that(3,2)] good_sects [OF that(1)] by (intro hoare_post [OF hoare_fill_chain]) auto
  show ?thesis
    unfolding cache_cluster_chain_def
  proof (intro hoare_if none hoare_get_state)
    fix vol assume c: "\<not> \<not> in_chain ctx c"
    show "hoare (\<lambda>s. good s \<and> s = vol)
        (case readable_cluster_limit ctx vol of None \<Rightarrow> ret None
         | Some limit \<Rightarrow> act_bind (count_chain vr ctx limit c (max_clusters ctx))
             (\<lambda>len. case len of None \<Rightarrow> ret None | Some k \<Rightarrow> fill_chain vr ctx c k)) ?Q"
    proof (rule hoare_fact [where \<phi> = "good vol"])
      assume g: "good vol"
      show ?thesis
      proof (rule hoare_pre [where P = good], rule hoare_option)
        fix limit assume l: "readable_cluster_limit ctx vol = Some limit"
        show "hoare good (act_bind (count_chain vr ctx limit c (max_clusters ctx))
             (\<lambda>len. case len of None \<Rightarrow> ret None | Some k \<Rightarrow> fill_chain vr ctx c k)) ?Q"
        proof (rule hoare_bind [OF hoare_count_chain])
          show "in_chain ctx c" using c by simp
          show "hoare (\<lambda>vol. good vol \<and> (\<forall>k. len = Some k \<longrightarrow> fat_chain ctx content limit c k \<and> k \<le> max_clusters ctx))
             (case len of None \<Rightarrow> ret None | Some k \<Rightarrow> fill_chain vr ctx c k) ?Q" for len
            by (rule hoare_pre_fact, rule hoare_option [OF none]) (use fill [OF g l] in blast)
        qed
      qed (use none in simp_all)
    qed simp
  qed
qed

end

section \<open>Reading a chain\<close>

definition chain_bytes :: "fat32_context \<Rightarrow> (nat \<Rightarrow> nat \<Rightarrow> u8 list) \<Rightarrow> u32 list \<Rightarrow> u8 list" where
  "chain_bytes ctx content cs = concat (map (\<lambda>c. content (unat (cluster_base ctx c)) (unat (cluster_bytes ctx))) cs)"

lemma concat_part:
  assumes "\<And>x. x \<in> set xs \<Longrightarrow> length (g x) = b" and "k < length xs" and "i + n \<le> b"
  shows "take n (drop (k * b + i) (concat (map g xs))) = take n (drop i (g (xs ! k)))"
  using assms
proof (induction xs arbitrary: k)
  case (Cons x xs)
  show ?case
  proof (cases k)
    case 0
    then show ?thesis using Cons.prems by simp
  next
    case (Suc j)
    have "drop (b + (j * b + i)) (g x @ concat (map g xs)) = drop (j * b + i) (concat (map g xs))"
      using Cons.prems(1) by simp
    then show ?thesis using Cons.IH [of j] Cons.prems Suc by (simp add: add.assoc)
  qed
qed simp

text \<open>The arithmetic of one step: where the chunk is in its cluster and in the file.\<close>

lemma chunk_position:
  assumes "progress < cnt" and "unat loc + unat cnt \<le> 2 ^ 64" and "cluster_bytes ctx \<noteq> 0"
  defines "b \<equiv> unat (cluster_bytes ctx)" and "chunk \<equiv> read_chunk (cluster_bytes ctx) loc cnt progress"
  shows "unat ((loc + progress) div cluster_bytes ctx) = (unat loc + unat progress) div b"
    "unat ((loc + progress) mod cluster_bytes ctx) = (unat loc + unat progress) mod b"
    "(unat loc + unat progress) mod b + unat chunk \<le> b" "0 < unat chunk"
    "unat (progress + chunk) = unat progress + unat chunk" "unat progress + unat chunk \<le> unat cnt"
proof -
  have p: "unat progress < unat cnt" using assms(1) by (simp add: word_less_nat_alt)
  have s: "unat (loc + progress) = unat loc + unat progress" using p assms(2) by (simp add: unat_add_exact)
  show "unat ((loc + progress) div cluster_bytes ctx) = (unat loc + unat progress) div b"
    and m: "unat ((loc + progress) mod cluster_bytes ctx) = (unat loc + unat progress) mod b"
    by (simp_all add: unat_div unat_mod s b_def)
  note c = read_chunk_bounds [OF assms(3,1), of loc, folded chunk_def]
  show "(unat loc + unat progress) mod b + unat chunk \<le> b" "0 < unat chunk" "unat progress + unat chunk \<le> unat cnt"
    using c m by (simp_all add: b_def)
  then show "unat (progress + chunk) = unat progress + unat chunk"
    using unat_bound [of cnt] by (simp add: unat_add_exact)
qed

context volume_reads
begin

lemma chain_bytes_part:
  assumes "k < length cs" and "i + n \<le> unat (cluster_bytes ctx)"
  shows "content (unat (cluster_base ctx (cs ! k)) + i) n = take n (drop (k * unat (cluster_bytes ctx) + i) (chain_bytes ctx content cs))"
  unfolding chain_bytes_def content_part [OF assms(2)]
  by (rule concat_part [symmetric]) (simp_all add: content_length assms)

lemma length_chain_bytes: "length (chain_bytes ctx content cs) = length cs * unat (cluster_bytes ctx)"
  by (induction cs) (simp_all add: chain_bytes_def content_length)

lemma hoare_read_loop:
  assumes "vr' = vr" and "cluster_bytes ctx \<noteq> 0" and "unat loc + unat cnt \<le> 2 ^ 64"
    and "unat progress \<le> unat cnt" and "length out = unat progress"
    and "out = take (unat progress) (drop (unat loc) (chain_bytes ctx content cs))"
  shows "hoare good (read_chain_loop vr' ctx cs loc cnt progress out)
    (\<lambda>r vol. good vol \<and> (\<forall>bs. r = Some bs \<longrightarrow> length bs = unat cnt \<and> bs = take (unat cnt) (drop (unat loc) (chain_bytes ctx content cs))))"
    (is "hoare good _ ?Q")
  using assms
proof (induction vr' ctx cs loc cnt progress out rule: read_chain_loop.induct)
  case (1 vr' ctx cs loc cnt progress out)
  let ?F = "chain_bytes ctx content cs" and ?b = "unat (cluster_bytes ctx)" and ?p = "unat loc + unat progress"
  let ?Q = "\<lambda>r vol. good vol \<and> (\<forall>bs. r = Some bs \<longrightarrow> length bs = unat cnt \<and> bs = take (unat cnt) (drop (unat loc) ?F))"
  let ?block = "(loc + progress) div cluster_bytes ctx" and ?offset = "(loc + progress) mod cluster_bytes ctx"
  let ?chunk = "read_chunk (cluster_bytes ctx) loc cnt progress" and ?c = "cs ! unat ((loc + progress) div cluster_bytes ctx)"
  note vr = \<open>vr' = vr\<close> and b0 = \<open>cluster_bytes ctx \<noteq> 0\<close>
  have none: "hoare good (ret None) ?Q" by (auto intro: hoare_ret)
  show ?case
  proof (cases "progress < cnt")
    case False
    then have "unat progress = unat cnt" using 1(5) by (simp add: word_less_nat_alt)
    then have "hoare good (ret (Some out)) ?Q" using 1(6,7) by (auto intro: hoare_ret)
    then show ?thesis using False by (simp add: read_chain_loop.simps [of vr'])
  next
    case True
    note pos = chunk_position [OF True \<open>unat loc + unat cnt \<le> 2 ^ 64\<close> b0]
    have step: "hoare good (vread_or vr (cluster_base ctx ?c + ?offset) ?chunk (ret None) (\<lambda>bs.
        read_chain_loop vr ctx cs loc cnt (progress + ?chunk) (out @ bs))) ?Q"
      if k: "\<not> length cs \<le> unat ?block" and c: "\<not> ?c < 2"
    proof (rule hoare_vread [OF _ none])
      have base: "unat (cluster_base ctx ?c) < 2 ^ 57" using c by (intro unat_cluster_base(2)) (simp add: not_less)
      have "?p mod ?b + unat ?chunk < 2 ^ 24" using pos(3) unat_cluster_bytes(2) [of ctx] by linarith
      then have u: "unat (cluster_base ctx ?c + ?offset) = unat (cluster_base ctx ?c) + ?p mod ?b"
        and bound: "unat (cluster_base ctx ?c + ?offset) + unat ?chunk \<le> 2 ^ 64"
        using base pos(2) by (simp_all add: unat_add_exact)
      show "unat (cluster_base ctx ?c + ?offset) + unat ?chunk \<le> 2 ^ 64" by (rule bound)
      fix bs assume bs: "bs = content (unat (cluster_base ctx ?c + ?offset)) (unat ?chunk)"
      also have "\<dots> = take (unat ?chunk) (drop (?p div ?b * ?b + ?p mod ?b) ?F)"
        unfolding u unfolding pos(1) using k [unfolded pos(1)] pos(3) by (intro chain_bytes_part) simp_all
      finally have e: "bs = take (unat ?chunk) (drop ?p ?F)" by simp
      have lb: "length bs = unat ?chunk" unfolding bs by (rule content_length)
      have tk: "take (unat progress + unat ?chunk) (drop (unat loc) ?F) = out @ bs"
        unfolding take_add using 1(7) e by (simp add: add.commute)
      show "hoare good (read_chain_loop vr ctx cs loc cnt (progress + ?chunk) (out @ bs)) ?Q"
        unfolding vr [symmetric]
        by (rule 1(1) [OF _ b0 refl k refl c refl refl vr b0]) (use 1(4,6) True pos(5,6) lb tk in simp_all)
    qed
    show ?thesis
      unfolding vr read_chain_loop.simps [of vr ctx cs loc cnt progress out] Let_def
      by (intro hoare_if none step) (use True b0 in simp_all)
  qed
qed

end

section \<open>Opening a file\<close>

text \<open>What an open file promises.\<close>

definition handle_ok :: "(nat \<Rightarrow> nat \<Rightarrow> u8 list) \<Rightarrow> u64 \<Rightarrow> fat32_file_handle \<Rightarrow> bool" where
  "handle_ok content sects f \<longleftrightarrow>
     ctx_ok (ff_context f) \<and> (cluster_chain f = [] \<or> chain_of (ff_context f) content sects (first_cluster f) (cluster_chain f)) \<and>
     unat (size_bytes f) \<le> length (cluster_chain f) * unat (cluster_bytes (ff_context f))"

lemma chain_of_size:
  assumes "cs = [] \<or> chain_of ctx content sects c cs"
  shows "unat (of_nat (length cs) * cluster_bytes ctx) = length cs * unat (cluster_bytes ctx)"
proof -
  have "distinct cs" using assms by (auto simp: chain_of_def)
  then have "length cs = card (set cs)" by (simp add: distinct_card)
  also have "\<dots> \<le> CARD(32 word)" by (simp add: card_mono)
  also have "\<dots> = 2 ^ 32" by (simp add: card_word)
  finally have l: "length cs \<le> 2 ^ 32" .
  then have "length cs * unat (cluster_bytes ctx) \<le> 2 ^ 32 * 2 ^ 24"
    using unat_cluster_bytes(2) [of ctx] by (intro mult_le_mono) simp_all
  then show ?thesis using l by (simp add: unat_mult_exact take_bit_nat_eq_self unsigned_of_nat)
qed

context volume_reads
begin

lemma keep_chain: "hoare good (cache_cluster_chain vr ctx c) (\<lambda>_. good)"
  by (rule hoare_post [OF hoare_chain]) simp

lemma keep_loop: "vr' = vr \<Longrightarrow> hoare good (read_chain_loop vr' ctx cs loc cnt progress out) (\<lambda>_. good)"
proof (induction vr' ctx cs loc cnt progress out rule: read_chain_loop.induct)
  case (1 vr' ctx cs loc cnt progress out)
  show ?case
    unfolding \<open>vr' = vr\<close> read_chain_loop.simps [of vr ctx cs loc cnt progress out] Let_def
    by (intro hoare_if hoare_ret hoare_panic keep_vread 1(1) [unfolded \<open>vr' = vr\<close>]) simp_all
qed

lemma keep_directory: "hoare good (read_directory vr arch ctx d) (\<lambda>_. good)"
  unfolding read_directory_def read_cluster_chain_def Let_def
  by (intro hoare_option hoare_bind [OF keep_chain] keep_loop keep_vread hoare_ret) simp_all

lemma keep_open_in: "hoare good (fat32_open_in vr arch ci ctx d name) (\<lambda>_. good)"
  unfolding fat32_open_in_def Let_def
  by (intro hoare_bind [OF keep_directory] hoare_option hoare_ret)

abbreviation opened :: "fat32_file_handle option \<Rightarrow> volume \<Rightarrow> bool" where
  "opened r vol \<equiv> good vol \<and> (\<forall>f. r = Some f \<longrightarrow> handle_ok content sects f)"

lemma hoare_handle:
  assumes "ctx_ok ctx"
  shows "hoare good (act_bind (cache_cluster_chain vr ctx c) (\<lambda>chain.
      let cs = (case chain of None \<Rightarrow> [] | Some cs \<Rightarrow> cs) in
      if ucast (n :: u32) > of_nat (length cs) * cluster_bytes ctx then ret None
      else ret (Some \<lparr>ff_context = ctx, first_cluster = c, size_bytes = n, cluster_chain = cs\<rparr>))) opened"
proof (rule hoare_bind [OF hoare_chain])
  fix chain :: "u32 list option"
  let ?cs = "case chain of None \<Rightarrow> [] | Some cs \<Rightarrow> cs"
  let ?f = "\<lparr>ff_context = ctx, first_cluster = c, size_bytes = n, cluster_chain = ?cs\<rparr>"
  show "hoare (\<lambda>vol. good vol \<and> (\<forall>cs. chain = Some cs \<longrightarrow> chain_of ctx content sects c cs))
      (let cs = ?cs in if ucast n > of_nat (length cs) * cluster_bytes ctx then ret None
       else ret (Some \<lparr>ff_context = ctx, first_cluster = c, size_bytes = n, cluster_chain = cs\<rparr>)) opened"
  proof (rule hoare_pre_fact, unfold Let_def, rule hoare_if)
    assume "\<forall>cs. chain = Some cs \<longrightarrow> chain_of ctx content sects c cs"
    then have ch: "?cs = [] \<or> chain_of ctx content sects c ?cs" by (simp split: option.split)
    assume "\<not> ucast n > of_nat (length ?cs) * cluster_bytes ctx"
    then have "unat n \<le> length ?cs * unat (cluster_bytes ctx)" using chain_of_size [OF ch] by (simp add: word_less_nat_alt)
    then have "handle_ok content sects ?f" using assms ch by (simp add: handle_ok_def)
    then show "hoare good (ret (Some ?f)) opened" by (auto intro: hoare_ret)
  qed (auto intro: hoare_ret)
qed

lemma hoare_walk: "vr' = vr \<Longrightarrow> ctx_ok ctx \<Longrightarrow> hoare good (fat32_walk vr' arch ci ctx d path) opened"
proof (induction vr' arch ci ctx d path rule: fat32_walk.induct)
  case (1 vr' arch ci ctx d path)
  have none: "hoare good (ret None) opened" by (auto intro: hoare_ret)
  have entry: "hoare good (case r of Dir_Label l \<Rightarrow> ret None | Dir_Entry e \<Rightarrow> g e) opened"
    if "\<And>e. r = Dir_Entry e \<Longrightarrow> hoare good (g e) opened" for r and g :: "fat32_directory_entry \<Rightarrow> fat32_file_handle option vact"
    using that none by (cases r) simp_all
  show ?case
    unfolding \<open>vr' = vr\<close> fat32_walk.simps [of vr arch ci ctx d path]
    by (intro hoare_option hoare_prod hoare_bind [OF keep_open_in] hoare_if none entry hoare_handle [OF \<open>ctx_ok ctx\<close>]
        1(1) [unfolded \<open>vr' = vr\<close>]) (use \<open>ctx_ok ctx\<close> in simp_all)
qed

lemma hoare_open: "hoare good (fat32_open vr arch ci path) opened"
proof -
  have none: "hoare good (ret None) opened" by (auto intro: hoare_ret)
  have i: "hoare good (fat32_init_context vr) (\<lambda>r vol. good vol \<and> (\<forall>ctx. r = Some ctx \<longrightarrow> ctx_ok ctx))"
    unfolding fat32_init_context_def by (rule hoare_vread) (auto intro!: hoare_ret dest: context_ok simp: sizeof_fat32_bpb_def)
  show ?thesis
    unfolding fat32_open_def
    by (rule hoare_bind [OF i], rule hoare_pre_fact, rule hoare_option [OF none]) (auto intro: hoare_walk)
qed

lemma hoare_read:
  assumes "cluster_bytes (ff_context f) \<noteq> 0" and "unat loc + unat cnt \<le> 2 ^ 64"
  shows "hoare good (fat32_read vr f loc cnt) (\<lambda>bs vol. good vol \<and> length bs = unat cnt \<and>
    bs = take (unat cnt) (drop (unat loc) (chain_bytes (ff_context f) content (cluster_chain f))))"
  unfolding fat32_read_def read_cluster_chain_def
  by (rule hoare_bind [OF hoare_read_loop [OF refl assms]], simp_all, rule hoare_pre_fact, rule hoare_option)
    (auto intro: hoare_panic hoare_ret)

end

end
