(* ===== verification/Fat_Contract.thy ===== *)
theory Fat_Contract
  imports Fat_Proof
begin

text \<open>
  What the FAT driver promises on the volumes of \<open>Fs_Volume\<close>, with a small FAT12 disk on which
  the promises are tried out.
\<close>

section \<open>On an image nothing stops\<close>

lemma returns_image [returns_rules]: "returns (image_reader img loc n)"
  by (simp add: returns_def image_reader_def)

lemma returns_vread [returns_rules]:
  "returns fail \<Longrightarrow> (\<And>bs. returns (k bs)) \<Longrightarrow> returns (vread_or (image_reader img) loc n fail k)"
  unfolding vread_or_def by (intro returns_rules)

lemma returns_map [returns_rules]: "returns (read_cluster_from_map (image_reader img) ctx c)"
  unfolding read_cluster_from_map_def by (intro returns_rules)

lemma returns_count [returns_rules]: "returns (count_chain (image_reader img) ctx limit c n)"
proof (induction n arbitrary: c)
  case (Suc n)
  show ?case unfolding count_chain.simps by (intro returns_rules Suc)
qed (simp add: returns_ret)

lemma returns_fill [returns_rules]: "returns (fill_chain (image_reader img) ctx c n)"
proof (induction n arbitrary: c)
  case (Suc n)
  show ?case unfolding fill_chain.simps by (intro returns_rules Suc)
qed (simp add: returns_ret)

lemma returns_chain [returns_rules]: "returns (cache_cluster_chain (image_reader img) ctx c)"
  unfolding cache_cluster_chain_def by (intro returns_rules)

lemma returns_loop:
  "vr = image_reader img \<Longrightarrow> cluster_bytes ctx \<noteq> 0 \<Longrightarrow> returns (read_chain_loop vr ctx cs loc cnt progress out)"
proof (induction vr ctx cs loc cnt progress out rule: read_chain_loop.induct)
  case (1 vr ctx cs loc cnt progress out)
  note vr = \<open>vr = image_reader img\<close>
  have if_rule: "(b \<Longrightarrow> returns m) \<Longrightarrow> (\<not> b \<Longrightarrow> returns m') \<Longrightarrow> returns (if b then m else m')"
    for b and m m' :: "u8 list option vact" by simp
  show ?case
    unfolding vr read_chain_loop.simps [of "image_reader img" ctx cs loc cnt progress out] Let_def
    by (intro if_rule returns_ret returns_vread 1(1) [unfolded vr]) (use 1(3) in simp_all)
qed

lemma returns_directory: "cluster_bytes ctx \<noteq> 0 \<Longrightarrow> returns (read_directory (image_reader img) arch ctx d)"
  unfolding read_directory_def read_cluster_chain_def by (intro returns_rules returns_loop) simp_all

lemma returns_open_in: "cluster_bytes ctx \<noteq> 0 \<Longrightarrow> returns (fat32_open_in (image_reader img) arch ci ctx d name)"
  unfolding fat32_open_in_def by (intro returns_rules returns_directory) simp_all

lemma returns_entry:
  "returns m \<Longrightarrow> (\<And>e. x = Dir_Entry e \<Longrightarrow> returns (f e)) \<Longrightarrow> returns (case x of Dir_Label l \<Rightarrow> m | Dir_Entry e \<Rightarrow> f e)"
  by (cases x) simp_all

lemma returns_fat_walk:
  "vr = image_reader img \<Longrightarrow> cluster_bytes ctx \<noteq> 0 \<Longrightarrow> returns (fat32_walk vr arch ci ctx d path)"
proof (induction vr arch ci ctx d path rule: fat32_walk.induct)
  case (1 vr arch ci ctx d path)
  note vr = \<open>vr = image_reader img\<close> and b = \<open>cluster_bytes ctx \<noteq> 0\<close>
  show ?case
  proof (cases "path_component (FAT32_LFN_MAX_FILENAME_LENGTH - 1) path []")
    case None
    then show ?thesis by (simp add: fat32_walk.simps [of vr arch ci ctx d path] returns_ret)
  next
    case (Some q)
    then obtain name dir rest where q: "path_component (FAT32_LFN_MAX_FILENAME_LENGTH - 1) path [] = Some (name, dir, rest)"
      by (cases q) blast
    have down: "returns (fat32_walk (image_reader img) arch ci ctx (Some e) rest)"
      if "dir" "attribute e AND FAT32_ATTRIBUTE_SUBDIRECTORY \<noteq> 0" for e
      using 1(1) [OF q refl refl _ _ vr b] that unfolding vr by simp
    have if_rule: "(c \<Longrightarrow> returns m) \<Longrightarrow> (\<not> c \<Longrightarrow> returns m') \<Longrightarrow> returns (if c then m else m')"
      for c and m m' :: "fat32_file_handle option vact" by simp
    show ?thesis
      unfolding vr fat32_walk.simps [of "image_reader img" arch ci ctx d path] q option.case prod.case
      by (intro returns_bind returns_open_in [OF b] returns_option returns_entry if_rule returns_chain returns_Let returns_ret down)
        simp_all
  qed
qed

lemma returns_mounted:
  assumes "returns m" and "\<And>ctx. cluster_bytes ctx \<noteq> 0 \<Longrightarrow> returns (f ctx)"
  shows "returns (act_bind (fat32_init_context (image_reader img)) (\<lambda>c. case c of None \<Rightarrow> m | Some ctx \<Rightarrow> f ctx))"
proof -
  have "returns (case fat32_context_of bs of None \<Rightarrow> m | Some ctx \<Rightarrow> f ctx)" for bs
    using assms context_ok ctx_ok_bytes by (cases "fat32_context_of bs") auto
  then show ?thesis
    using assms(1) unfolding returns_def act_bind_def fat32_init_context_def vread_or_def image_reader_def ret_def
    by (simp split: option.split)
qed

lemma returns_open: "returns (fat32_open (image_reader img) arch ci path)"
  unfolding fat32_open_def by (intro returns_mounted returns_ret returns_fat_walk [OF refl])

lemma returns_get_label: "returns (fat32_get_label (image_reader img) arch)"
  unfolding fat32_get_label_def by (intro returns_mounted returns_bind returns_open_in returns_ret)

lemma refined_result:
  assumes "refines good m t a" and "returns a" and "good s"
  shows "\<exists>x s'. m s = Inr (x, s') \<and> a t = Inr (x, t) \<and> good s'"
  using refines_Inr [OF assms(1,3)] assms(2) unfolding returns_def by blast

section \<open>Reads within a file\<close>

lemma image_read_loop:
  assumes "vr = image_reader img" and "cluster_bytes ctx \<noteq> 0" and "unat loc + unat cnt \<le> length cs * unat (cluster_bytes ctx)"
    and "unat loc + unat cnt \<le> 2 ^ 64" and "sects \<noteq> - 1" and "length img = unat sects * 512"
    and "list_all (\<lambda>x. in_chain ctx x \<and> on_medium ctx sects x) cs"
  shows "\<exists>bs. read_chain_loop vr ctx cs loc cnt progress out v = Inr (Some bs, v)"
  using assms
proof (induction vr ctx cs loc cnt progress out rule: read_chain_loop.induct)
  case (1 vr ctx cs loc cnt progress out)
  let ?b = "unat (cluster_bytes ctx)" and ?p = "unat loc + unat progress"
  let ?block = "(loc + progress) div cluster_bytes ctx" and ?offset = "(loc + progress) mod cluster_bytes ctx"
  let ?chunk = "read_chunk (cluster_bytes ctx) loc cnt progress" and ?c = "cs ! unat ((loc + progress) div cluster_bytes ctx)"
  note vr = \<open>vr = image_reader img\<close> and b0 = \<open>cluster_bytes ctx \<noteq> 0\<close>
  show ?case
  proof (cases "progress < cnt")
    case False
    then show ?thesis by (simp add: read_chain_loop.simps [of vr ctx cs loc cnt progress out] ret_def)
  next
    case True
    note pos = chunk_position [OF True \<open>unat loc + unat cnt \<le> 2 ^ 64\<close> b0]
    have "?p < length cs * ?b" using True 1(4) by (simp add: word_less_nat_alt)
    then have k: "\<not> length cs \<le> unat ?block"
      unfolding pos(1) using less_mult_imp_div_less by (simp add: not_le)
    then have c: "in_chain ctx ?c" "on_medium ctx sects ?c" using 1(8) by (simp_all add: list_all_length)
    then have c2: "\<not> ?c < 2" by (simp add: in_chain_def)
    have base: "unat (cluster_base ctx ?c) < 2 ^ 57" using c2 by (intro unat_cluster_base(2)) (simp add: not_less)
    have "?p mod ?b + unat ?chunk < 2 ^ 24" using pos(3) unat_cluster_bytes(2) [of ctx] by linarith
    then have u: "unat (cluster_base ctx ?c + ?offset) = unat (cluster_base ctx ?c) + ?p mod ?b"
      using base pos(2) by (simp add: unat_add_exact)
    have "unat (cluster_base ctx ?c) + ?b \<le> length img" using c(2) 1(6,7) by (simp add: on_medium_def)
    then have "image_read img (cluster_base ctx ?c + ?offset) ?chunk \<noteq> None"
      unfolding image_read_def u using pos(3,4) by simp
    then obtain bs where bs: "image_read img (cluster_base ctx ?c + ?offset) ?chunk = Some bs" by blast
    have "read_chain_loop vr ctx cs loc cnt progress out v = read_chain_loop vr ctx cs loc cnt (progress + ?chunk) (out @ bs) v"
      unfolding vr using True b0 k c2 bs
      by (simp add: read_chain_loop.simps [of "image_reader img" ctx cs loc cnt progress out] Let_def vread_or_def
          act_bind_def image_reader_def)
    then show ?thesis using 1(1) [OF _ b0 refl k refl c2 refl refl vr b0 1(4-8)] True by simp
  qed
qed

lemma image_file_read:
  assumes "handle_ok content sects f" and "unat loc + unat cnt \<le> unat (size_bytes f)"
    and "sects \<noteq> - 1" and "length img = unat sects * 512"
  shows "\<exists>bs. fat32_read (image_reader img) f loc cnt v = Inr (bs, v)"
proof -
  have ok: "ctx_ok (ff_context f)" "unat (size_bytes f) \<le> length (cluster_chain f) * unat (cluster_bytes (ff_context f))"
    "list_all (\<lambda>x. in_chain (ff_context f) x \<and> on_medium (ff_context f) sects x) (cluster_chain f)"
    using assms(1) by (auto simp: handle_ok_def chain_of_def)
  have "\<exists>bs. read_chain_loop (image_reader img) (ff_context f) (cluster_chain f) loc cnt 0 [] v = Inr (Some bs, v)"
    by (rule image_read_loop [OF refl ctx_ok_bytes [OF ok(1)] _ _ assms(3,4) ok(3)])
      (use assms(2) ok(2) unat_bound [of "size_bytes f"] in simp_all)
  then show ?thesis by (auto simp: fat32_read_def read_cluster_chain_def act_bind_def ret_def)
qed

section \<open>The properties\<close>


text \<open>
  C37. The clusters of a file are those the FAT links. A chain that is read is never empty, follows
  the links in the FAT from the first cluster until one leaves the range of clusters, repeats no
  cluster, and each of its clusters is a data cluster that lies inside the volume.
\<close>

theorem fat_chain_correct:
  assumes "firmware_ok fw arch blk medium" and "vol_ok arch blk medium v"
    and "cache_cluster_chain (read_vol (disk_read_sectors fw arch) arch) ctx c v = Inr (Some cs, v')"
  shows "cs \<noteq> [] \<and> cs = map (\<lambda>i. (fat_link ctx (vol_bytes medium v) ^^ i) c) [0..<length cs] \<and>
    \<not> in_chain ctx ((fat_link ctx (vol_bytes medium v) ^^ length cs) c) \<and> distinct cs \<and>
    list_all (\<lambda>x. 2 \<le> x \<and> x \<le> cluster_limit ctx \<and>
      (size_unknown v \<or> unat (cluster_base ctx x) + unat (cluster_bytes ctx) \<le> unat (sect_count v) * 512)) cs"
proof -
  have "holds_medium (disk_read_sectors fw arch) arch blk medium v v"
    using assms(1,2) disk_read_sectors_ok by (simp add: holds_medium_def)
  then have "chain_of ctx (vol_bytes medium v) (sect_count v) c cs"
    using hoareD [OF vreads.hoare_chain _ assms(3)] by blast
  then show ?thesis by (auto simp: chain_of_def list_all_iff in_chain_def on_medium_def not_less)
qed


section \<open>An example\<close>

text \<open>
  A FAT12 disk of eight sectors: the BPB, one FAT, a root directory with the file \<^verbatim>\<open>A\<close> of five bytes,
  and its cluster.
\<close>

definition fat_example :: "nat \<Rightarrow> u8" where
  "fat_example a =
     (case map_of [(12, 2), (13, 1), (14, 1), (16, 1), (17, 16), (19, 8), (22, 1), (54, 0x46), (55, 0x41), (56, 0x54),
        (515, 0xff), (516, 0x0f),
        (1024, 0x41), (1025, 0x20), (1026, 0x20), (1027, 0x20), (1028, 0x20), (1029, 0x20), (1030, 0x20), (1031, 0x20),
        (1032, 0x20), (1033, 0x20), (1034, 0x20), (1035, 0x20), (1050, 2), (1052, 5),
        (1536, 0x68), (1537, 0x65), (1538, 0x6c), (1539, 0x6c), (1540, 0x6f)] a of
        None \<Rightarrow> 0 | Some b \<Rightarrow> b)"

definition fat_example_context :: fat32_context where
  "fat_example_context =
     \<lparr>fat_type = 12, bytes_per_sector = 512, sectors_per_cluster = 1, reserved_sectors = 1, number_of_fats = 1,
      hidden_sectors = 0, sectors_per_fat = 1, fat_start_lba = 1, data_start_lba = 3, root_directory_cluster = 0,
      root_entries = 16, root_start = 2, root_size = 1\<rparr>"

definition fat_example_file :: fat32_file_handle where
  "fat_example_file = \<lparr>ff_context = fat_example_context, first_cluster = 2, size_bytes = 5, cluster_chain = [2]\<rparr>"

abbreviation example_bytes :: "nat \<Rightarrow> nat \<Rightarrow> u8 list" where
  "example_bytes \<equiv> vol_bytes (\<lambda>_. fat_example) example_disk"

lemma example_bytes_simps:
  "i < n \<Longrightarrow> example_bytes a n ! i = fat_example (a + i)"
  "i + m \<le> n \<Longrightarrow> field (example_bytes a n) i m = example_bytes (a + i) m"
  "m \<le> n \<Longrightarrow> take m (example_bytes a n) = example_bytes a m"
  "drop m (example_bytes a n) = example_bytes (a + m) (n - m)"
proof -
  show "i < n \<Longrightarrow> example_bytes a n ! i = fat_example (a + i)"
    by (simp add: vol_bytes_def vol_byte_def example_disk_def example_volume_def)
  show "i + m \<le> n \<Longrightarrow> field (example_bytes a n) i m = example_bytes (a + i) m"
    unfolding field_def using vreads.content_part [of i m n] by simp
  show "m \<le> n \<Longrightarrow> take m (example_bytes a n) = example_bytes a m"
    using vreads.content_part [of 0 m n "\<lambda>_. fat_example" example_disk a] by simp
  show "drop m (example_bytes a n) = example_bytes (a + m) (n - m)"
    using vreads.content_part [of m "n - m" n "\<lambda>_. fat_example" example_disk a] by (cases "m \<le> n") (simp_all add: vol_bytes_def)
qed

lemma example_bytes_few:
  "example_bytes a 2 = [fat_example a, fat_example (a + 1)]"
  "example_bytes a 4 = [fat_example a, fat_example (a + 1), fat_example (a + 2), fat_example (a + 3)]"
  by (simp_all add: vol_bytes_def vol_byte_def example_disk_def example_volume_def upt_rec numeral_3_eq_3)

lemma example_context: "fat32_context_of (example_bytes 0 512) = Some fat_example_context"
proof -
  have "example_bytes 54 458 = example_bytes 54 3 @ example_bytes 57 455"
    using vol_bytes_add [of "\<lambda>_. fat_example" example_disk 54 3 455] by simp
  moreover have "example_bytes 54 3 = [0x46, 0x41, 0x54]"
    by (simp add: vol_bytes_def vol_byte_def example_disk_def example_volume_def upt_rec fat_example_def)
  ultimately have s: "fat_signature (example_bytes 0 512)"
    unfolding fat_signature_def by (simp add: example_bytes_simps numeral_3_eq_3)
  show ?thesis
    using s
    by (simp add: fat32_context_of_def fat32_bpb_of_def example_bytes_simps example_bytes_few fat_example_def
        fat_type_of_def active_fat_start_def le_word_def DIV_ROUNDUP_def CHECKED_ADD_def sizeof_fat32_directory_entry_def
        fat_example_context_def Let_def)
qed

abbreviation example_reader :: vol_reader where
  "example_reader \<equiv> image_reader (volume_image (\<lambda>_. fat_example) example_disk)"

lemma example_image:
  "unat n \<noteq> 0 \<Longrightarrow> unat loc + unat n \<le> 4096 \<Longrightarrow>
   example_reader loc n v = Inr (Some (example_bytes (unat loc) (unat n)), v)"
  using image_part [of "unat loc" "unat n" example_disk "\<lambda>_. fat_example"]
  by (simp add: image_reader_def image_read_def example_disk_def)

lemma example_vread:
  "unat n \<noteq> 0 \<Longrightarrow> unat loc + unat n \<le> 4096 \<Longrightarrow>
   vread_or example_reader loc n fail k v = k (example_bytes (unat loc) (unat n)) v"
  by (simp add: vread_or_def act_bind_def example_image)

lemma example_map: "read_cluster_from_map example_reader fat_example_context 2 v = Inr (Some 0xfff, v)"
  by (simp add: read_cluster_from_map_def fat_entry_offset_def fat_entry_size_def fat_size_def fat_base_def
      fat_example_context_def example_vread example_bytes_few fat_entry_value_def ret_def le_word_def fat_example_def)

lemma example_chain: "cache_cluster_chain example_reader fat_example_context 2 example_disk = Inr (Some [2], example_disk)"
proof -
  have l: "readable_cluster_limit fat_example_context example_disk = Some 6"
    by (simp add: readable_cluster_limit_def fat_example_context_def example_disk_def example_volume_def CHECKED_MUL_def
        cluster_limit_def)
  have m: "max_clusters fat_example_context = Suc 340"
    by (simp add: max_clusters_def fat_example_context_def cluster_limit_def FAT32_MAX_CHAIN_LENGTH_def fat_size_def)
  have c: "in_chain fat_example_context 2" "\<not> in_chain fat_example_context 0xfff"
    by (simp_all add: in_chain_def fat_example_context_def cluster_limit_def)
  have "count_chain example_reader fat_example_context 6 2 (max_clusters fat_example_context) example_disk =
      Inr (Some 1, example_disk)"
    unfolding m count_chain.simps by (simp add: c act_bind_def example_map ret_def)
  moreover have "fill_chain example_reader fat_example_context 2 1 example_disk = Inr (Some [2], example_disk)"
    by (simp add: act_bind_def example_map ret_def)
  ultimately show ?thesis
    unfolding cache_cluster_chain_def by (simp add: l c get_state_def act_bind_def)
qed

lemma example_directory:
  "read_directory example_reader X86_64 fat_example_context None v = Inr (Some (example_bytes 1024 512), v)"
  by (simp add: read_directory_def fat_example_context_def cluster_bytes_def sizeof_fat32_directory_entry_def
      dir_chain_bytes_def size_t_bits_def example_vread ret_def)

abbreviation example_name :: "'a::numeral list" where
  "example_name \<equiv> [0x41, 0x20, 0x20, 0x20, 0x20, 0x20, 0x20, 0x20, 0x20, 0x20, 0x20]"

lemma example_entry_found:
  "dir_lookup False [0x41, 0] st (entries_of (example_bytes 1024 512) 16) =
     Some \<lparr>file_name_and_ext = example_name, attribute = 0x20, cluster_num_high = 0, cluster_num_low = 2,
           file_size_bytes = 5\<rparr>"
proof -
  have e: "entries_of (example_bytes 1024 512) 16 = example_bytes 1024 32 # entries_of (example_bytes 1056 480) 15"
    using entries_of.simps(2) [of "example_bytes 1024 512" 15] by (simp add: example_bytes_simps)
  have n: "example_bytes 1024 11 = example_name"
    by (simp add: vol_bytes_def vol_byte_def example_disk_def example_volume_def upt_rec fat_example_def)
  have f: "fat32_filename_to_8_3 [0x41, 0] = Some (example_name)" by code_simp
  have m: "fat32_sfn_matches (example_name) (example_name)" by code_simp
  show ?thesis
    unfolding e
    by (simp add: sfn_step_def f m n example_bytes_simps fat_example_def FAT32_LFN_ATTRIBUTE_def fat32_directory_entry_of_def
      example_bytes_few le_word_def)
qed

lemma example_opened:
  "fat32_open example_reader X86_64 False (chars ''/A'' @ [0]) example_disk = Inr (Some fat_example_file, example_disk)"
proof -
  have p: "path_component (FAT32_LFN_MAX_FILENAME_LENGTH - 1) [0x41, 0] [] = Some ([0x41, 0], False, [0])"
  proof -
    have n: "FAT32_LFN_MAX_FILENAME_LENGTH - 1 = Suc (Suc 258)"
      by (simp add: FAT32_LFN_MAX_FILENAME_LENGTH_def FAT32_LFN_MAX_ENTRIES_def)
    show ?thesis unfolding n path_component.simps by simp
  qed
  have r: "root_directory fat_example_context = None" by (simp add: root_directory_def fat_example_context_def)
  have c: "entry_cluster fat_example_context \<lparr>file_name_and_ext = example_name, attribute = 0x20, cluster_num_high = 0,
      cluster_num_low = 2, file_size_bytes = 5\<rparr> = 2" by (simp add: entry_cluster_def fat_example_context_def)
  have b: "cluster_bytes fat_example_context = 512" by (simp add: cluster_bytes_def fat_example_context_def)
  have d: "fat32_open_in example_reader X86_64 False fat_example_context None (Some [0x41, 0]) v =
      Inr (Some (Dir_Entry \<lparr>file_name_and_ext = example_name, attribute = 0x20, cluster_num_high = 0,
        cluster_num_low = 2, file_size_bytes = 5\<rparr>), v)" for v
    by (simp add: fat32_open_in_def act_bind_def example_directory sizeof_fat32_directory_entry_def example_entry_found ret_def)
  have "fat32_walk example_reader X86_64 False fat_example_context None [0x41, 0] example_disk = Inr (Some fat_example_file, example_disk)"
    unfolding fat32_walk.simps [of example_reader X86_64 False fat_example_context None] p
    by (simp add: act_bind_def d c b example_chain ret_def fat_example_file_def)
  moreover have "fat32_init_context example_reader v = Inr (Some fat_example_context, v)" for v
    by (simp add: fat32_init_context_def sizeof_fat32_bpb_def example_vread example_context ret_def)
  ultimately show ?thesis by (simp add: fat32_open_def act_bind_def r)
qed

lemma example_readable: "readable_volume example_disk"
  by (simp add: readable_volume_def example_disk_def example_volume_def)

abbreviation example_volume_reader :: vol_reader where
  "example_volume_reader \<equiv> read_vol (disk_read_sectors (image_firmware fat_example) X86_64) X86_64"

lemma example_good:
  "delivers_medium (disk_read_sectors (image_firmware fat_example) X86_64) X86_64 (\<lambda>_. 512) (\<lambda>_. fat_example) example_disk example_disk"
  using image_firmware_ok disk_read_sectors_ok [OF image_firmware_ok(1)] example_readable
  by (simp add: delivers_medium_def holds_medium_def)


theorem fat_chain_correct_witness:
  "\<exists>v'. cache_cluster_chain example_volume_reader fat_example_context 2 example_disk = Inr (Some [2], v') \<and>
    \<not> in_chain fat_example_context (fat_link fat_example_context example_bytes 2)"
proof -
  obtain v' where r: "cache_cluster_chain example_volume_reader fat_example_context 2 example_disk = Inr (Some [2], v')"
    using refines_Inr [OF vimage.chain_refines example_good example_chain] by blast
  then show ?thesis using fat_chain_correct [OF image_firmware_ok(1,3) r] by simp
qed


end
