(* ===== verification/Spec2Isabelle.thy ===== *)
theory Spec2Isabelle
  imports Pmm_Heap Pmm_Info Pmm_Init_Proof Clock Utf Blake2b Mtrr Part_Proof Fat_Contract
begin

text \<open>
  A verification development of the Limine boot loader (the C sources under \<^verbatim>\<open>src/\<close>): shallow
  embeddings of its memory manager, its storage stack, the hash that protects its files and the
  library code below them, with theorems on what they do.

  \<^bold>\<open>The program.\<close> Limine starts from BIOS or UEFI firmware, takes over the memory map, finds the disks
  and their partitions, reads its configuration and the files it names through a file system,
  optionally checks their BLAKE2b hashes, lays kernel and modules out in memory, and leaves the
  firmware. Everything allocates from one physical memory manager; everything that is read goes
  through the block cache of a volume.

  \<^bold>\<open>Conventions.\<close> A C integer of \<open>w\<close> bits is a word of \<open>w\<close> bits, and wraps as in C; \<open>size_t\<close> is a 64-bit
  word reduced by \<open>size_t_of\<close> to the width of the target (\<open>arch\<close>). Structures are records, read from
  disk as the list of their bytes (\<open>field\<close>, \<open>le_word\<close>). Code that may call \<open>panic()\<close> has a result of
  type \<open>'a res\<close>, in which a panic is \<open>Inl\<close> of its message; so is a division by zero. C strings are
  byte lists with a terminator; a read past the end is a failure of its own. Code that changes a
  state is a function on records, or an \<open>action\<close> (theory \<open>Action\<close>), with rules for what holds of
  every result (\<open>hoare\<close>), for always having one (\<open>returns\<close>) and for doing what a simpler action does
  (\<open>refines\<close>). Firmware and hardware are parameters: boot services and interrupts are functions
  that a definition takes, and what is relied on is a named predicate (\<open>ReadBlocks_ok\<close>, \<open>int13_ok\<close>,
  \<open>reliable\<close>, \<open>fw_grants\<close> and the like), which the witnesses discharge for a concrete firmware.

  \<^bold>\<open>Shared theories.\<close>
  \<^item> \<open>Limine_Prelude\<close>: the machine words, results, the arithmetic macros of \<^verbatim>\<open>common/lib/misc.h\<close>
    (checked addition and multiplication, rounding, alignment) and their laws.
  \<^item> \<open>Limine_Bytes\<close>: little-endian integers in byte lists. \<open>Action\<close>: stateful code.
  \<^item> \<open>Libc_Mem\<close>, \<open>Libc_String\<close>: \<^verbatim>\<open>common/lib/memory.s2.c\<close>, \<^verbatim>\<open>libc.c\<close> and \<^verbatim>\<open>libc.s2.c\<close>. The comparison
    functions order strings as lists, \<open>strtoul\<close> reads the number that is written and saturates.

  \<^bold>\<open>The memory manager\<close>, \<^verbatim>\<open>common/mm/pmm.s2.c\<close>.
  \<^item> \<open>Pmm_Sanitise\<close>, \<open>Pmm_Sanitise_Proof\<close>: \<open>pmm_sanitise_entries\<close> with its four loops on the table of
    entries. A map denotes for each type the set of its addresses; the sanitiser keeps that of every
    other type, and leaves as usable what no other entry claims, sorted and without overlap.
  \<^item> \<open>Pmm_Range\<close>: retyping a range of the map (\<open>memmap_alloc_range\<close>). \<open>Pmm_Alloc\<close>, \<open>Pmm_Alloc_Proof\<close>: the
    top-down allocator with its front ends, the allocator below a limit, conventional memory,
    \<open>pmm_free\<close>, \<open>pmm_realloc\<close>.
  \<^item> \<open>Pmm_Heap\<close>: the locale \<open>allocator\<close>, the contract of all three allocators, interpreted for each; a
    step relation that interleaves allocations, frees and writes, in which live blocks stay apart
    and keep their contents.
  \<^item> \<open>Pmm_Init\<close>, \<open>Pmm_Init_Proof\<close>: \<open>init_memmap\<close> for BIOS and UEFI, claiming pages from the firmware,
    sparing its stack, reclaiming and releasing. \<open>Pmm_Info\<close>: \<open>mmap_get_info\<close>.

  \<^bold>\<open>Storage\<close>, \<^verbatim>\<open>common/lib/part.s2.c\<close>, \<^verbatim>\<open>common/drivers/disk.s2.c\<close>, \<^verbatim>\<open>common/fs\<close>.
  \<^item> \<open>Volume\<close>: sector reads on both kinds of firmware, the block cache and \<open>volume_read\<close>: exact,
    inside the volume, successful on a disk that delivers, and its refusals.
  \<^item> \<open>Part_Store\<close>: the volumes the partition code refers to, by number; the locale \<open>volume_store\<close>.
    \<open>Gpt\<close>: the CRC and the verified GUID partition table with its memos. \<open>Mbr\<close>: boot records,
    extended partitions and \<open>part_get\<close>. \<open>Part_Proof\<close>: the locale \<open>partition_probe\<close>; looking for
    partitions returns on every disk, also with cyclic chains, and what it finds lies on the disk.
  \<^item> \<open>Fs_Volume\<close>: what a file system may rely on, as the locales \<open>volume_reads\<close> (bytes that are read
    are those of the volume) and \<open>image_volume\<close> (a read does what a look at an image does), both
    interpreted on \<open>volume_read\<close>.
  \<^item> \<open>Fat\<close>, \<open>Fat_Proof\<close>, \<open>Fat_Contract\<close>: the FAT driver, its refinement to the driver on an image,
    cluster chains, and that open files can be read.
  \<^item> \<open>Guid\<close>, \<open>Utf\<close>: \<^verbatim>\<open>common/lib/guid.c\<close> and \<^verbatim>\<open>utf.s2.c\<close>, with round trips.

  \<^bold>\<open>Other parts.\<close> \<open>Blake2b\<close>: \<^verbatim>\<open>common/crypt/blake2b.c\<close>; the incremental hash equals the function of RFC
  7693, and the file filter only passes files whose digest is right. \<open>Mtrr\<close>: \<^verbatim>\<open>common/mm/mtrr.c\<close>, the
  write-combining range, the order of the programming steps, save and restore. \<open>Clock\<close>:
  \<^verbatim>\<open>common/lib/time.c\<close>.

  \<^bold>\<open>Bounds and termination.\<close> Loops are total functions: structural recursion, or a \<open>termination\<close> proof
  with a measure. Two loops carry a bound of the source itself: a chain of extended boot records
  stops at the limit on its depth and at a sector it has visited, and a cluster chain at the number
  of entries of the FAT, so neither needs fuel of the model. Chains of primary memory map
  operations are bounded by the table size \<open>memmap_max_entries\<close>, whose overflow is a panic.

  \<^bold>\<open>Not modelled.\<close>
  \<^item> The boot protocols, executable loaders, page tables and processor start-up: they write
    structures into physical memory and device registers in the formats of other programs, and end
    in a jump.
  \<^item> The menu, terminals, graphics, keyboard and serial code, formatted printing: device input and
    output, partly in third-party libraries.
  \<^item> Configuration and resource paths: they build linked trees in place over a file buffer; the
    functions they are made of (strings, GUIDs, volumes, hashing) are modelled.
  \<^item> ISO 9660, network boot and decompression. What the ISO 9660 driver gives as the label of a new
    partition is a parameter of the partition code.
  \<^item> ACPI, device trees, TPM, EFI variables and randomness: walks of firmware tables and firmware calls.
  \<^item> In the modelled parts: that the allocator runs out of memory inside the storage code (buffers
    are modelled as cleared lists), closing files (memory is given back), and the index of disks.
\<close>

end
